(* ===== verification/Prelude.thy ===== *)
theory Prelude
  imports Main "HOL-Library.Word" "HOL-Library.Monad_Syntax"
begin

text \<open>
  Shared vocabulary of the development: the machine integers of the Rust sources, the
  reading of a panic as \<^const>\<open>None\<close>, the operations of \<open>Vec\<close> the sources use, and the
  generic lemmas on lists, options and words that the component theories rely on.

  Arithmetic follows the release profile of the workspace (\<open>Cargo.toml\<close> sets no
  \<open>overflow-checks\<close>): \<open>u64\<close>, \<open>u32\<close> and \<open>u128\<close> additions and
  subtractions wrap, which is what \<open>+\<close> and \<open>-\<close> do on words, and
  \<open>debug_assert!\<close> is compiled out. A panic (\<open>expect\<close>, an out-of-range index, a
  failed \<open>assert!\<close>, \<open>unreachable!\<close>) stops the thread and is the value
  \<^const>\<open>None\<close> of an option; a loop that never ends has the value \<^const>\<open>None\<close> as well.
  A theorem that an operation returns \<^const>\<open>Some\<close> therefore says that it terminates and
  does not panic.
\<close>

type_synonym u8 = "8 word"
type_synonym u32 = "32 word"
type_synonym u64 = "64 word"
type_synonym u128 = "128 word"

named_theorems frame_simps "fields of the state an operation leaves alone"
named_theorems inv_intros "an operation keeps an invariant"
named_theorems refine_simps "an operation seen through the abstraction function"

section \<open>Panicking checks\<close>

text \<open>\<open>assert!(p)\<close>: continue when the condition holds, panic otherwise.\<close>

definition assert_that :: "bool \<Rightarrow> unit option" where
  "assert_that p = (if p then Some () else None)"

lemma assert_that_Some [simp]: "assert_that p = Some u \<longleftrightarrow> p"
  by (simp add: assert_that_def)

lemma assert_that_bind [simp]: "p \<Longrightarrow> Option.bind (assert_that p) f = f ()"
  by (simp add: assert_that_def)

lemma bind_eq_Some_iff:
  "Option.bind m f = Some y \<longleftrightarrow> (\<exists>x. m = Some x \<and> f x = Some y)"
  by (cases m) auto

text \<open>Run a check on every element of a list, in order: a \<open>for\<close> loop of asserts.\<close>

fun for_each :: "('a \<Rightarrow> unit option) \<Rightarrow> 'a list \<Rightarrow> unit option" where
  "for_each f [] = Some ()"
| "for_each f (x # xs) = do { f x; for_each f xs }"

lemma for_each_Some: "for_each f xs = Some u \<longleftrightarrow> (\<forall>x \<in> set xs. f x = Some ())"
  by (induction xs) (auto simp: bind_eq_Some_iff)

section \<open>Vec\<close>

definition vec_get :: "'a list \<Rightarrow> nat \<Rightarrow> 'a option" where
  "vec_get xs i = (if i < length xs then Some (xs ! i) else None)"

lemma vec_get_Some [simp]: "vec_get xs i = Some x \<longleftrightarrow> i < length xs \<and> xs ! i = x"
  by (auto simp: vec_get_def)

lemma vec_get_None [simp]: "vec_get xs i = None \<longleftrightarrow> length xs \<le> i"
  by (auto simp: vec_get_def)

text \<open>\<open>Vec::pop\<close> takes the last element.\<close>

definition vec_pop :: "'a list \<Rightarrow> ('a \<times> 'a list) option" where
  "vec_pop xs = (if xs = [] then None else Some (last xs, butlast xs))"

text \<open>
  \<open>Vec::swap_remove\<close>: the last element moves into the vacated position. Panics out of range.
\<close>

definition swap_remove :: "nat \<Rightarrow> 'a list \<Rightarrow> ('a \<times> 'a list) option" where
  "swap_remove i xs =
     (if i < length xs then Some (xs ! i, butlast (xs[i := last xs])) else None)"

lemma length_swap_remove:
  "swap_remove i xs = Some (x, ys) \<Longrightarrow> length xs = Suc (length ys)"
  by (auto simp: swap_remove_def split: if_splits)

lemma nth_swap_removed:
  assumes "i < length xs" and "j < length xs - 1"
  shows "butlast (xs[i := last xs]) ! j = (if j = i then last xs else xs ! j)"
  using assms by (simp add: nth_butlast nth_list_update)

text \<open>The result of \<^const>\<open>swap_remove\<close> in terms of the parts around the position.\<close>

lemma swap_remove_split:
  "swap_remove (length as) (as @ x # bs) =
     Some (x, as @ (if bs = [] then [] else last bs # butlast bs))"
  by (cases bs rule: rev_cases) (auto simp: swap_remove_def butlast_append)

lemma swap_removeE:
  assumes "i < length xs"
  obtains as bs where "xs = as @ xs ! i # bs" and "length as = i"
    and "swap_remove i xs = Some (xs ! i, as @ (if bs = [] then [] else last bs # butlast bs))"
proof -
  have xs: "xs = take i xs @ xs ! i # drop (Suc i) xs" and len: "length (take i xs) = i"
    using assms by (simp_all add: id_take_nth_drop [symmetric])
  show ?thesis
    using that [OF xs len] swap_remove_split [of "take i xs" "xs ! i" "drop (Suc i) xs"] xs len
    by simp
qed

lemma set_rotate_last [simp]: "bs \<noteq> [] \<Longrightarrow> insert (last bs) (set (butlast bs)) = set bs"
  by (cases bs rule: rev_cases) auto

lemma set_swap_remove:
  assumes "swap_remove i xs = Some (x, ys)" and "distinct xs"
  shows "set ys = set xs - {x}" and "distinct ys"
proof -
  have "i < length xs" using assms(1) by (auto simp: swap_remove_def split: if_splits)
  then obtain as bs where "xs = as @ x # bs" "ys = as @ (if bs = [] then [] else last bs # butlast bs)"
    using assms(1) by (elim swap_removeE) auto
  with assms(2) show "set ys = set xs - {x}" and "distinct ys"
    by (cases bs rule: rev_cases; auto)+
qed

lemma sum_swap_remove:
  fixes f :: "'a \<Rightarrow> 'b::ab_group_add"
  assumes "swap_remove i xs = Some (x, ys)"
  shows "(\<Sum>z\<leftarrow>ys. f z) = (\<Sum>z\<leftarrow>xs. f z) - f x"
proof -
  have "i < length xs" using assms by (auto simp: swap_remove_def split: if_splits)
  then obtain as bs where "xs = as @ x # bs" "ys = as @ (if bs = [] then [] else last bs # butlast bs)"
    using assms by (elim swap_removeE) auto
  then show ?thesis by (cases bs rule: rev_cases) (auto simp: algebra_simps)
qed

section \<open>Words and lengths\<close>

lemma unat_of_nat_u32 [simp]: "n < 2 ^ 32 \<Longrightarrow> unat (of_nat n :: u32) = n"
  by (simp add: unat_of_nat)

lemma unat_eq_unat_iff [simp]: "unat x = unat y \<longleftrightarrow> x = (y :: 'a::len word)"
  by (simp add: word_unat_eq_iff)

lemma ucast_of_nat_u32: "n < 2 ^ 32 \<Longrightarrow> (ucast (of_nat n :: u32) :: u64) = of_nat n"
  by (simp add: unsigned_of_nat take_bit_nat_eq_self flip: unat_eq_unat_iff)

lemma inj_on_unat: "inj_on unat (A :: 'a::len word set)"
  by (rule inj_onI) simp

lemma unat_ucast_u128 [simp]: "unat (ucast (x :: u64) :: u128) = unat x"
proof -
  have "unat x < 2 ^ 64" using unsigned_less [of x, where ?'a = nat] by simp
  then have "take_bit 128 (unat x) = unat x" by (intro take_bit_nat_eq_self) simp
  then show ?thesis by (simp add: unsigned_ucast_eq)
qed

lemma unat_sub_min: "unat (r - min r q) = unat r - unat (min r (q :: 'a::len word))"
  by (simp add: unat_sub min_le_iff_disj)

lemma unat_min: "unat (min a b) = min (unat a) (unat (b :: 'a::len word))"
  by (simp add: min_def word_le_nat_alt)

section \<open>Lists\<close>

lemma sum_list_map_cong:
  "(\<And>x. x \<in> set xs \<Longrightarrow> f x = g x) \<Longrightarrow> (\<Sum>x\<leftarrow>xs. f x) = (\<Sum>x\<leftarrow>xs. g x)"
  by (rule arg_cong [where f = sum_list]) simp

lemma sum_list_update_at:
  fixes f g :: "'a \<Rightarrow> 'b::ab_group_add"
  assumes "distinct xs" and "s \<in> set xs" and "\<And>x. x \<in> set xs \<Longrightarrow> x \<noteq> s \<Longrightarrow> g x = f x"
  shows "(\<Sum>x\<leftarrow>xs. g x) = (\<Sum>x\<leftarrow>xs. f x) - f s + g s"
proof -
  obtain as bs where xs: "xs = as @ s # bs" using assms(2) by (meson split_list)
  have "(\<Sum>x\<leftarrow>as. g x) = (\<Sum>x\<leftarrow>as. f x)" and "(\<Sum>x\<leftarrow>bs. g x) = (\<Sum>x\<leftarrow>bs. f x)"
    using assms(1,3) xs by (auto intro!: sum_list_map_cong)
  then show ?thesis by (simp add: xs algebra_simps)
qed

lemma concat_map_filter_empty:
  "(\<And>x. x \<in> set xs \<Longrightarrow> \<not> P x \<Longrightarrow> f x = []) \<Longrightarrow> concat (map f (filter P xs)) = concat (map f xs)"
  by (induction xs) auto

lemma filter_concat_map: "filter P (concat (map f xs)) = concat (map (\<lambda>x. filter P (f x)) xs)"
  by (induction xs) auto

lemma distinct_concat_map:
  assumes "distinct xs" and "\<And>x. x \<in> set xs \<Longrightarrow> distinct (f x)"
    and "\<And>x y. x \<noteq> y \<Longrightarrow> set (f x) \<inter> set (f y) = {}"
  shows "distinct (concat (map f xs))"
  using assms by (induction xs) fastforce+

lemma sorted_wrt_concat_map:
  assumes "sorted_wrt P xs" and "\<And>x. x \<in> set xs \<Longrightarrow> sorted_wrt R (f x)"
    and "\<And>x y a b. P x y \<Longrightarrow> a \<in> set (f x) \<Longrightarrow> b \<in> set (f y) \<Longrightarrow> R a b"
  shows "sorted_wrt R (concat (map f xs))"
  using assms by (induction xs) (auto simp: sorted_wrt_append)

lemma sorted_wrt_all: "(\<And>x y. x \<in> set xs \<Longrightarrow> y \<in> set xs \<Longrightarrow> R x y) \<Longrightarrow> sorted_wrt R xs"
  by (induction xs) auto

lemma while_split:
  assumes "\<forall>x \<in> set xs. P x" and "\<forall>y \<in> set ys. \<not> P y"
  shows "takeWhile P (xs @ ys) = xs" and "dropWhile P (xs @ ys) = ys"
  using assms by (induction xs) (auto simp: takeWhile_eq_Nil_iff dropWhile_eq_self_iff)

end
