(* ===== verification/Core_Types.thy ===== *)
theory Core_Types
  imports Prelude
begin

text \<open>
  The domain types of the \<open>core\<close> crate: \<open>types.rs\<close>, \<open>error.rs\<close> and
  \<open>event.rs\<close>. The newtypes around \<open>u64\<close> are synonyms of the 64-bit word;
  the fields of a \<open>Command\<close> or \<open>Event\<close> variant keep the order of the source.
\<close>

section \<open>types.rs\<close>

type_synonym price = u64
type_synonym qty = u64
type_synonym order_id = u64
type_synonym account_id = u64
type_synonym engine_seq = u64
type_synonym stream_seq = u64

datatype side = Buy | Sell

datatype order_kind = Limit | Market

datatype tif = Gtc | Ioc | Fok | PostOnly

datatype fill_state = State_PartiallyFilled | State_Filled

definition TICK_SIZE_CENTS :: u64 where "TICK_SIZE_CENTS = 1"
definition LOT_SIZE :: u64 where "LOT_SIZE = 10000"
definition MAX_OPEN_ORDERS :: nat where "MAX_OPEN_ORDERS = 50"
definition MAX_NOTIONAL_TICKS :: u128 where "MAX_NOTIONAL_TICKS = 100000000"
definition PRICE_BAND_PCT :: u64 where "PRICE_BAND_PCT = 10"

fun opposite :: "side \<Rightarrow> side" where
  "opposite Buy = Sell"
| "opposite Sell = Buy"

lemma opposite_opposite [simp]: "opposite (opposite s) = s"
  by (cases s) auto

lemma opposite_neq [simp]: "opposite s \<noteq> s" "s \<noteq> opposite s"
  by (cases s; simp)+

lemma neq_side_iff: "s' \<noteq> s \<longleftrightarrow> s' = opposite s"
  by (cases s; cases s') auto

section \<open>error.rs\<close>

datatype reject_reason =
    MalformedMessage
  | UnknownMessageType
  | DuplicateOrderId
  | UnknownOrderId
  | ZeroQuantity
  | WouldCross
  | NotFullyFillable
  | KillSwitchActive
  | MaxOpenOrders
  | MaxNotional
  | PriceBandViolation
  | ZeroPrice

section \<open>event.rs\<close>

text \<open>
  \<open>NewOrder account_id order_id side price qty kind tif client_ts\<close>,
  \<open>CancelReplace account_id order_id new_price new_qty\<close>.
\<close>

datatype command =
    NewOrder account_id order_id side price qty order_kind tif u64
  | CancelOrder account_id order_id
  | CancelReplace account_id order_id price qty
  | MassCancel account_id
  | KillSwitch bool
  | Snapshot

text \<open>
  \<open>Filled account_id order_id side price qty resting_qty state\<close>,
  \<open>Replaced account_id order_id new_qty priority_retained\<close>,
  \<open>SnapshotLevel side price qty order_count\<close>,
  \<open>SnapshotAccount account_id open_order_count notional\<close>,
  \<open>SnapshotSummary best_bid best_ask last_trade level_count account_count\<close>.
\<close>

type_synonym touch_side = "(price \<times> qty) option"

datatype event =
    Accepted account_id order_id qty
  | Rejected account_id order_id reject_reason
  | Filled account_id order_id side price qty qty fill_state
  | Cancelled account_id order_id
  | Replaced account_id order_id qty bool
  | Trade price qty side
  | BookUpdate touch_side touch_side
  | SnapshotLevel side price qty u64
  | SnapshotAccount account_id u64 u128
  | SnapshotSummary touch_side touch_side "price option" u64 u64

end
