(* ===== verification/Arena.thy ===== *)
theory Arena
  imports Core_Types
begin

text \<open>
  The slot arena (\<open>arena.rs\<close>), the price level (\<open>level.rs\<close>) and the
  per-account entry (\<open>account.rs\<close>) of the \<open>core\<close> crate. The arena is seen
  through \<open>arena_get\<close>, a partial function from slots to nodes; the lemmas say what
  each primitive does to that view and that the free list stays exactly the list of the
  vacant slots.
\<close>

section \<open>Nodes\<close>

text \<open>The sentinel slot \<open>NULL = u32::MAX\<close>.\<close>

definition NULL :: u32 where "NULL = 4294967295"

record node =
  node_id :: order_id
  node_account :: account_id
  node_price :: price
  node_qty :: qty
  node_side :: side
  node_prev :: u32
  node_next :: u32
  node_acct_idx :: u32

record arena =
  arena_slots :: "node option list"
  arena_free :: "u32 list"

definition arena_new :: arena where
  "arena_new = \<lparr>arena_slots = [], arena_free = []\<rparr>"

definition arena_get :: "arena \<Rightarrow> u32 \<Rightarrow> node option" where
  "arena_get a slot = Option.bind (vec_get (arena_slots a) (unat slot)) (\<lambda>n. n)"

text \<open>\<open>get_mut(slot).expect(..)\<close> followed by an assignment to a field of the node.\<close>

definition arena_modify :: "arena \<Rightarrow> u32 \<Rightarrow> (node \<Rightarrow> node) \<Rightarrow> arena option" where
  "arena_modify a slot f = do {
     n \<leftarrow> arena_get a slot;
     Some (a\<lparr>arena_slots := (arena_slots a)[unat slot := Some (f n)]\<rparr>)
   }"

definition arena_insert :: "arena \<Rightarrow> node \<Rightarrow> (arena \<times> u32) option" where
  "arena_insert a node =
     (case vec_pop (arena_free a) of
        Some (slot, free') \<Rightarrow>
          (if unat slot < length (arena_slots a)
           then Some (a\<lparr>arena_slots := (arena_slots a)[unat slot := Some node],
                        arena_free := free'\<rparr>, slot)
           else None)
      | None \<Rightarrow>
          Some (a\<lparr>arena_slots := arena_slots a @ [Some node]\<rparr>,
                of_nat (length (arena_slots a))))"

definition arena_free_slot :: "arena \<Rightarrow> u32 \<Rightarrow> arena option" where
  "arena_free_slot a slot =
     (if unat slot < length (arena_slots a)
      then Some (a\<lparr>arena_slots := (arena_slots a)[unat slot := None],
                   arena_free := arena_free a @ [slot]\<rparr>)
      else None)"

definition arena_len :: "arena \<Rightarrow> nat" where
  "arena_len a = length (arena_slots a) - length (arena_free a)"

definition arena_is_empty :: "arena \<Rightarrow> bool" where
  "arena_is_empty a \<longleftrightarrow> arena_len a = 0"

section \<open>Levels and account entries\<close>

record level =
  level_head :: u32
  level_tail :: u32
  level_total_qty :: qty
  level_count :: u32

definition level_default :: level where
  "level_default = \<lparr>level_head = NULL, level_tail = NULL, level_total_qty = 0, level_count = 0\<rparr>"

definition level_is_empty :: "level \<Rightarrow> bool" where
  "level_is_empty l \<longleftrightarrow> level_count l = 0"

record account_entry =
  entry_slots :: "u32 list"
  entry_notional :: u128

definition account_entry_default :: account_entry where
  "account_entry_default = \<lparr>entry_slots = [], entry_notional = 0\<rparr>"

definition open_order_count :: "account_entry \<Rightarrow> nat" where
  "open_order_count e = length (entry_slots e)"

section \<open>The arena invariant\<close>

text \<open>
  The free list holds each vacant slot once and nothing else, and every index fits in a
  \<open>u32\<close> different from \<open>NULL\<close>.
\<close>

definition arena_wf :: "arena \<Rightarrow> bool" where
  "arena_wf a \<longleftrightarrow>
     length (arena_slots a) < 2 ^ 32 \<and>
     distinct (arena_free a) \<and>
     (\<forall>s. s \<in> set (arena_free a) \<longleftrightarrow>
        unat s < length (arena_slots a) \<and> arena_slots a ! unat s = None)"

text \<open>There is room for one more order: a vacant slot, or an index below \<open>NULL\<close>.\<close>

definition arena_room :: "arena \<Rightarrow> bool" where
  "arena_room a \<longleftrightarrow> arena_free a \<noteq> [] \<or> length (arena_slots a) < 2 ^ 32 - 1"

lemma unat_NULL: "unat NULL = 2 ^ 32 - 1"
  by (simp add: NULL_def)

lemma arena_wf_new [simp]: "arena_wf arena_new"
  by (simp add: arena_wf_def arena_new_def)

lemma arena_get_new [simp]: "arena_get arena_new s = None"
  by (simp add: arena_get_def arena_new_def vec_get_def)

lemma arena_get_eq:
  "arena_get a s = (if unat s < length (arena_slots a) then arena_slots a ! unat s else None)"
  by (simp add: arena_get_def vec_get_def)

text \<open>Evaluation compares the index as an integer: \<open>unat\<close> of a large slot has no compact numeral.\<close>

lemma arena_get_code [code]:
  "arena_get a s = (if uint s < int (length (arena_slots a)) then arena_slots a ! nat (uint s) else None)"
proof -
  have "uint s = int (unat s)" by simp
  then show ?thesis unfolding arena_get_eq by (metis nat_int of_nat_less_iff)
qed

lemma arena_get_bound: "arena_get a s = Some n \<Longrightarrow> unat s < length (arena_slots a)"
  by (simp add: arena_get_eq split: if_splits)

lemma live_not_NULL: "arena_wf a \<Longrightarrow> arena_get a s = Some n \<Longrightarrow> s \<noteq> NULL"
  by (auto simp: arena_wf_def unat_NULL dest: arena_get_bound)

lemma arena_get_NULL: "arena_wf a \<Longrightarrow> arena_get a NULL = None"
  using live_not_NULL by fastforce

subsection \<open>Modification\<close>

lemma arena_modify_ok:
  "arena_get a s = Some n \<Longrightarrow>
     arena_modify a s f = Some (a\<lparr>arena_slots := (arena_slots a)[unat s := Some (f n)]\<rparr>)"
  by (simp add: arena_modify_def)

lemma arena_modifyE:
  assumes "arena_wf a" and "arena_get a s = Some n"
  obtains a' where "arena_modify a s f = Some a'"
    and "arena_get a' = (arena_get a)(s := Some (f n))"
    and "arena_free a' = arena_free a"
    and "length (arena_slots a') = length (arena_slots a)"
    and "arena_wf a'"
proof
  let ?a' = "a\<lparr>arena_slots := (arena_slots a)[unat s := Some (f n)]\<rparr>"
  have bound: "unat s < length (arena_slots a)" using assms(2) by (rule arena_get_bound)
  show "arena_modify a s f = Some ?a'" using assms(2) by (rule arena_modify_ok)
  show "arena_get ?a' = (arena_get a)(s := Some (f n))"
    using bound by (auto simp: arena_get_eq fun_eq_iff nth_list_update)
  show "arena_wf ?a'"
    using assms bound by (auto simp: arena_wf_def arena_get_eq nth_list_update split: if_splits)
qed simp_all

subsection \<open>Insertion\<close>

lemma arena_insertE:
  assumes wf: "arena_wf a" and room: "arena_room a"
  obtains a' s where "arena_insert a n = Some (a', s)"
    and "arena_get a s = None" and "s \<noteq> NULL"
    and "arena_get a' = (arena_get a)(s := Some n)"
    and "arena_wf a'"
    and "length (arena_slots a') \<le> Suc (length (arena_slots a))"
proof (cases "arena_free a = []")
  case True
  let ?s = "of_nat (length (arena_slots a)) :: u32"
  let ?a' = "a\<lparr>arena_slots := arena_slots a @ [Some n]\<rparr>"
  have len: "length (arena_slots a) < 2 ^ 32 - 1" using room True by (simp add: arena_room_def)
  then have un: "unat ?s = length (arena_slots a)" by simp
  show thesis
  proof (rule that [of ?a' ?s])
    show "arena_insert a n = Some (?a', ?s)" using True by (simp add: arena_insert_def vec_pop_def)
    show "arena_get a ?s = None" using un by (simp add: arena_get_eq)
    show "?s \<noteq> NULL" using un len unat_NULL by (metis less_irrefl)
    show "arena_get ?a' = (arena_get a)(?s := Some n)"
      using un by (auto simp: arena_get_eq fun_eq_iff nth_append less_Suc_eq)
        (metis unat_eq_unat_iff)
    show "arena_wf ?a'"
      using wf len True by (auto simp: arena_wf_def nth_append less_Suc_eq)
  qed simp
next
  case False
  let ?s = "last (arena_free a)"
  let ?a' = "a\<lparr>arena_slots := (arena_slots a)[unat ?s := Some n], arena_free := butlast (arena_free a)\<rparr>"
  have s: "unat ?s < length (arena_slots a)" "arena_slots a ! unat ?s = None"
    using wf False last_in_set [OF False] by (auto simp: arena_wf_def)
  have snoc: "arena_free a = butlast (arena_free a) @ [?s]" using False by simp
  have mem: "x \<in> set (butlast (arena_free a)) \<longleftrightarrow> x \<in> set (arena_free a) \<and> x \<noteq> ?s" for x
  proof -
    have "distinct (butlast (arena_free a) @ [?s])" using wf snoc by (simp add: arena_wf_def)
    moreover have "set (arena_free a) = insert ?s (set (butlast (arena_free a)))"
      by (subst snoc) simp
    ultimately show ?thesis by auto
  qed
  show thesis
  proof (rule that [of ?a' ?s])
    show "arena_insert a n = Some (?a', ?s)"
      using False s by (simp add: arena_insert_def vec_pop_def)
    show "arena_get a ?s = None" using s by (simp add: arena_get_eq)
    show "?s \<noteq> NULL" using s wf unat_NULL by (auto simp: arena_wf_def)
    show "arena_get ?a' = (arena_get a)(?s := Some n)"
      using s by (auto simp: arena_get_eq fun_eq_iff nth_list_update)
    show "arena_wf ?a'"
      using wf s by (auto simp: arena_wf_def mem distinct_butlast nth_list_update split: if_splits)
  qed simp
qed

subsection \<open>Freeing\<close>

lemma arena_free_slotE:
  assumes wf: "arena_wf a" and live: "arena_get a s = Some n"
  obtains a' where "arena_free_slot a s = Some a'"
    and "arena_get a' = (arena_get a)(s := None)"
    and "arena_wf a'" and "arena_room a'"
    and "length (arena_slots a') = length (arena_slots a)"
proof
  let ?a' = "a\<lparr>arena_slots := (arena_slots a)[unat s := None], arena_free := arena_free a @ [s]\<rparr>"
  have bound: "unat s < length (arena_slots a)" and full: "arena_slots a ! unat s = Some n"
    using live by (auto simp: arena_get_eq split: if_splits)
  show "arena_free_slot a s = Some ?a'" using bound by (simp add: arena_free_slot_def)
  show "arena_get ?a' = (arena_get a)(s := None)"
    using bound by (auto simp: arena_get_eq fun_eq_iff nth_list_update)
  show "arena_wf ?a'" using wf bound full by (auto simp: arena_wf_def nth_list_update)
  show "arena_room ?a'" by (simp add: arena_room_def)
qed simp

subsection \<open>The number of live slots\<close>

lemma filter_nth_conv: "card {i. i < length xs \<and> P (xs ! i)} = length (filter P xs)"
  by (simp add: length_filter_conv_card)

lemma arena_len_card:
  assumes "arena_wf a"
  shows "arena_len a = card {s. arena_get a s \<noteq> None}"
proof -
  let ?n = "length (arena_slots a)"
  have small: "unat (of_nat i :: u32) = i" if "i < ?n" for i
    using that assms by (simp add: arena_wf_def)
  have img: "unat ` {s :: u32. unat s < ?n \<and> P s} = {i. i < ?n \<and> P (of_nat i)}" for P
  proof -
    have "i \<in> unat ` {s. unat s < ?n \<and> P s}" if "i < ?n" "P (of_nat i)" for i
      using that small by (intro image_eqI [of _ _ "of_nat i"]) auto
    then show ?thesis by auto
  qed
  have live: "card {s. arena_get a s \<noteq> None} = length (filter (\<lambda>x. x \<noteq> None) (arena_slots a))"
  proof -
    have "{s. arena_get a s \<noteq> None} = {s :: u32. unat s < ?n \<and> arena_slots a ! unat s \<noteq> None}"
      by (auto simp: arena_get_eq split: if_splits)
    then have "card {s. arena_get a s \<noteq> None} =
        card (unat ` {s :: u32. unat s < ?n \<and> arena_slots a ! unat s \<noteq> None})"
      by (simp add: card_image [OF inj_on_unat])
    also have "unat ` {s :: u32. unat s < ?n \<and> arena_slots a ! unat s \<noteq> None} =
        {i. i < ?n \<and> arena_slots a ! i \<noteq> None}"
      by (subst img) (auto simp: small)
    also have "card \<dots> = length (filter (\<lambda>x. x \<noteq> None) (arena_slots a))"
      by (rule filter_nth_conv)
    finally show ?thesis .
  qed
  have "length (arena_free a) = card (set (arena_free a))"
    using assms by (simp add: arena_wf_def distinct_card)
  also have "set (arena_free a) = {s :: u32. unat s < ?n \<and> arena_slots a ! unat s = None}"
    using assms by (auto simp: arena_wf_def)
  also have "card \<dots> = card (unat ` {s :: u32. unat s < ?n \<and> arena_slots a ! unat s = None})"
    by (simp add: card_image [OF inj_on_unat])
  also have "unat ` {s :: u32. unat s < ?n \<and> arena_slots a ! unat s = None} =
      {i. i < ?n \<and> arena_slots a ! i = None}"
    by (subst img) (auto simp: small)
  also have "card \<dots> = length (filter (\<lambda>x. x = None) (arena_slots a))"
    by (rule filter_nth_conv)
  finally have free: "length (arena_free a) = length (filter (\<lambda>x. x = None) (arena_slots a))" .
  show ?thesis
    unfolding arena_len_def live free
    using sum_length_filter_compl [of "\<lambda>x. x = None" "arena_slots a"] by linarith
qed

end
