(* ===== verification/Rust_Maps.thy ===== *)
theory Rust_Maps
  imports Prelude
begin

text \<open>
  The two map types of the standard library the sources use, with the operations the
  sources call on them.

  \<^item> \<open>HashMap\<close> is an association list with distinct keys. Its iteration order is
    unspecified in Rust; the sources iterate a \<open>HashMap\<close> only inside
    \<open>assert_invariants\<close> and the market-data fan-out, where the order does not matter.
  \<^item> \<open>BTreeMap\<close> is an association list sorted strictly by key, so that list order is
    iteration order, the head is \<open>keys().next()\<close> and the last element is
    \<open>keys().next_back()\<close>.

  The contract a client uses is the locale \<open>map_impl\<close>; \<open>ordered_map_impl\<close>
  extends it with the two ends of the key order. Both are interpreted on the models.
\<close>

section \<open>HashMap\<close>

type_synonym ('k, 'v) hashmap = "('k \<times> 'v) list"

definition hm_get :: "('k, 'v) hashmap \<Rightarrow> 'k \<Rightarrow> 'v option" where
  "hm_get m k = map_of m k"

fun hm_insert :: "'k \<Rightarrow> 'v \<Rightarrow> ('k, 'v) hashmap \<Rightarrow> ('k, 'v) hashmap" where
  "hm_insert k v [] = [(k, v)]"
| "hm_insert k v ((k', v') # m) =
     (if k = k' then (k, v) # m else (k', v') # hm_insert k v m)"

definition hm_remove :: "'k \<Rightarrow> ('k, 'v) hashmap \<Rightarrow> ('k, 'v) hashmap" where
  "hm_remove k m = filter (\<lambda>(k', _). k' \<noteq> k) m"

definition hm_contains :: "('k, 'v) hashmap \<Rightarrow> 'k \<Rightarrow> bool" where
  "hm_contains m k \<longleftrightarrow> hm_get m k \<noteq> None"

definition hm_ok :: "('k, 'v) hashmap \<Rightarrow> bool" where
  "hm_ok m \<longleftrightarrow> distinct (map fst m)"

lemma map_of_filter_key: "map_of (filter (\<lambda>(k', _). k' \<noteq> k) m) = (map_of m)(k := None)"
  by (induction m) (auto simp: fun_eq_iff)

lemma hm_get_insert: "hm_get (hm_insert k v m) = (hm_get m)(k := Some v)"
  by (induction k v m rule: hm_insert.induct) (auto simp: hm_get_def fun_eq_iff)

lemma fst_hm_insert: "fst ` set (hm_insert k v m) = insert k (fst ` set m)"
  by (induction k v m rule: hm_insert.induct) auto

lemma hm_ok_insert: "hm_ok m \<Longrightarrow> hm_ok (hm_insert k v m)"
  by (induction k v m rule: hm_insert.induct) (auto simp: hm_ok_def fst_hm_insert)

lemma hm_get_remove: "hm_get (hm_remove k m) = (hm_get m)(k := None)"
  by (simp add: hm_get_def hm_remove_def map_of_filter_key fun_eq_iff)

lemma hm_ok_remove: "hm_ok m \<Longrightarrow> hm_ok (hm_remove k m)"
  by (simp add: hm_ok_def hm_remove_def distinct_map_filter)

lemma length_hm_insert: "k \<notin> fst ` set m \<Longrightarrow> length (hm_insert k v m) = Suc (length m)"
  by (induction k v m rule: hm_insert.induct) auto

lemma snd_hm_insert: "snd ` set (hm_insert k v m) \<subseteq> insert v (snd ` set m)"
  by (induction k v m rule: hm_insert.induct) auto

lemma fst_hm_remove: "fst ` set (hm_remove k m) = fst ` set m - {k}"
  by (auto simp: hm_remove_def)

lemma snd_hm_remove: "snd ` set (hm_remove k m) \<subseteq> snd ` set m"
  by (auto simp: hm_remove_def)

lemma length_hm_remove: "hm_ok m \<Longrightarrow> hm_get m k \<noteq> None \<Longrightarrow> length m = Suc (length (hm_remove k m))"
proof (induction m)
  case (Cons x m)
  have "filter (\<lambda>(k', _). k' \<noteq> k) m = m" if "k \<notin> fst ` set m" using that by (induction m) auto
  then show ?case using Cons
    by (cases x) (auto simp: hm_ok_def hm_get_def hm_remove_def simp del: not_None_eq split: if_splits)
qed (simp add: hm_get_def)

lemma hm_get_None: "hm_get m k = None \<longleftrightarrow> k \<notin> fst ` set m"
  by (simp add: hm_get_def map_of_eq_None_iff)

lemma hm_remove_absent: "hm_get h k = None \<Longrightarrow> hm_remove k h = h"
  by (induction h) (auto simp: hm_get_def hm_remove_def split: if_splits)

section \<open>BTreeMap\<close>

type_synonym ('k, 'v) btreemap = "('k \<times> 'v) list"

definition bt_get :: "('k, 'v) btreemap \<Rightarrow> 'k \<Rightarrow> 'v option" where
  "bt_get m k = map_of m k"

fun bt_insert :: "'k::linorder \<Rightarrow> 'v \<Rightarrow> ('k, 'v) btreemap \<Rightarrow> ('k, 'v) btreemap" where
  "bt_insert k v [] = [(k, v)]"
| "bt_insert k v ((k', v') # m) =
     (if k < k' then (k, v) # (k', v') # m
      else if k = k' then (k, v) # m
      else (k', v') # bt_insert k v m)"

definition bt_remove :: "'k \<Rightarrow> ('k, 'v) btreemap \<Rightarrow> ('k, 'v) btreemap" where
  "bt_remove k m = filter (\<lambda>(k', _). k' \<noteq> k) m"

definition bt_first :: "('k, 'v) btreemap \<Rightarrow> ('k \<times> 'v) option" where
  "bt_first m = (case m of [] \<Rightarrow> None | e # _ \<Rightarrow> Some e)"

definition bt_last :: "('k, 'v) btreemap \<Rightarrow> ('k \<times> 'v) option" where
  "bt_last m = (if m = [] then None else Some (last m))"

definition bt_ok :: "('k::linorder, 'v) btreemap \<Rightarrow> bool" where
  "bt_ok m \<longleftrightarrow> sorted_wrt (<) (map fst m)"

lemma bt_ok_Nil [simp]: "bt_ok []"
  by (simp add: bt_ok_def)

lemma bt_ok_Cons [simp]: "bt_ok ((k, v) # m) \<longleftrightarrow> (\<forall>x \<in> set m. k < fst x) \<and> bt_ok m"
  by (auto simp: bt_ok_def)

lemma bt_ok_distinct: "bt_ok m \<Longrightarrow> distinct (map fst m)"
  by (auto simp: bt_ok_def strict_sorted_iff)

lemma dom_bt_get: "dom (bt_get m) = fst ` set m"
  using dom_map_of_conv_image_fst [of m] by (simp add: dom_def bt_get_def)

lemma bt_get_insert: "bt_get (bt_insert k v m) = (bt_get m)(k := Some v)"
  by (induction k v m rule: bt_insert.induct) (auto simp: bt_get_def fun_eq_iff)

lemma fst_bt_insert: "fst ` set (bt_insert k v m) = insert k (fst ` set m)"
  by (induction k v m rule: bt_insert.induct) auto

lemma bt_ok_insert: "bt_ok m \<Longrightarrow> bt_ok (bt_insert k v m)"
proof (induction k v m rule: bt_insert.induct)
  case (2 k v k' v' m)
  have "k' < fst x" if "x \<in> set (bt_insert k v m)" "\<not> k < k'" "k \<noteq> k'" for x
  proof -
    have "fst x \<in> insert k (fst ` set m)" using that(1) fst_bt_insert [of k v m] by (metis imageI)
    then show ?thesis using that(2,3) 2(2) by auto
  qed
  with 2 show ?case by (auto dest: less_trans)
qed simp

lemma bt_get_remove: "bt_get (bt_remove k m) = (bt_get m)(k := None)"
  by (simp add: bt_get_def bt_remove_def map_of_filter_key fun_eq_iff)

lemma bt_ok_remove: "bt_ok m \<Longrightarrow> bt_ok (bt_remove k m)"
  by (induction m) (auto simp: bt_remove_def)

lemma bt_get_Some_iff: "bt_ok m \<Longrightarrow> bt_get m k = Some v \<longleftrightarrow> (k, v) \<in> set m"
  by (simp add: bt_get_def bt_ok_distinct)

lemma bt_get_None_iff: "bt_get m k = None \<longleftrightarrow> k \<notin> fst ` set m"
  by (simp add: bt_get_def map_of_eq_None_iff)

lemma fst_set_bt_remove: "fst ` set (bt_remove k m) = fst ` set m - {k}"
  by (auto simp: bt_remove_def image_iff)

section \<open>The contracts\<close>

locale map_impl =
  fixes get :: "'m \<Rightarrow> 'k \<Rightarrow> 'v option"
    and ins :: "'k \<Rightarrow> 'v \<Rightarrow> 'm \<Rightarrow> 'm"
    and rem :: "'k \<Rightarrow> 'm \<Rightarrow> 'm"
    and ok :: "'m \<Rightarrow> bool"
  assumes get_ins: "get (ins k v m) = (get m)(k := Some v)"
    and get_rem: "get (rem k m) = (get m)(k := None)"
    and ok_ins: "ok m \<Longrightarrow> ok (ins k v m)"
    and ok_rem: "ok m \<Longrightarrow> ok (rem k m)"
begin

lemma get_ins_same [simp]: "get (ins k v m) k = Some v"
  by (simp add: get_ins)

lemma get_ins_other: "k' \<noteq> k \<Longrightarrow> get (ins k v m) k' = get m k'"
  by (simp add: get_ins)

lemma get_rem_same [simp]: "get (rem k m) k = None"
  by (simp add: get_rem)

lemma dom_ins: "dom (get (ins k v m)) = insert k (dom (get m))"
  by (simp add: get_ins)

lemma dom_rem: "dom (get (rem k m)) = dom (get m) - {k}"
  by (simp add: get_rem)

end

locale ordered_map_impl = map_impl get ins rem ok
  for get :: "'m \<Rightarrow> 'k::linorder \<Rightarrow> 'v option"
    and ins :: "'k \<Rightarrow> 'v \<Rightarrow> 'm \<Rightarrow> 'm"
    and rem :: "'k \<Rightarrow> 'm \<Rightarrow> 'm"
    and ok :: "'m \<Rightarrow> bool" +
  fixes first_entry :: "'m \<Rightarrow> ('k \<times> 'v) option"
    and last_entry :: "'m \<Rightarrow> ('k \<times> 'v) option"
  assumes first_None: "ok m \<Longrightarrow> first_entry m = None \<longleftrightarrow> get m = Map.empty"
    and last_None: "ok m \<Longrightarrow> last_entry m = None \<longleftrightarrow> get m = Map.empty"
    and first_Some: "ok m \<Longrightarrow> first_entry m = Some (k, v) \<longleftrightarrow>
      get m k = Some v \<and> (\<forall>k' \<in> dom (get m). k \<le> k')"
    and last_Some: "ok m \<Longrightarrow> last_entry m = Some (k, v) \<longleftrightarrow>
      get m k = Some v \<and> (\<forall>k' \<in> dom (get m). k' \<le> k)"
begin

text \<open>Writing back the value of an end key keeps that key at the end.\<close>

lemma first_ins_same:
  assumes "ok m" and "first_entry m = Some (k, v)"
  shows "first_entry (ins k v' m) = Some (k, v')"
  using assms first_Some [OF assms(1)] first_Some [OF ok_ins [OF assms(1)]]
  by (auto simp: get_ins)

lemma last_ins_same:
  assumes "ok m" and "last_entry m = Some (k, v)"
  shows "last_entry (ins k v' m) = Some (k, v')"
  using assms last_Some [OF assms(1)] last_Some [OF ok_ins [OF assms(1)]]
  by (auto simp: get_ins)

text \<open>Two maps with the same lookups have the same ends: the ends are determined by the lookups.\<close>

lemma ends_cong:
  assumes "ok m" and "ok m'" and "get m = get m'"
  shows "first_entry m = first_entry m'" and "last_entry m = last_entry m'"
proof -
  have "first_entry m = Some e \<longleftrightarrow> first_entry m' = Some e" for e
    using assms first_Some [of m "fst e" "snd e"] first_Some [of m' "fst e" "snd e"] by simp
  then show "first_entry m = first_entry m'" by (metis not_Some_eq)
  have "last_entry m = Some e \<longleftrightarrow> last_entry m' = Some e" for e
    using assms last_Some [of m "fst e" "snd e"] last_Some [of m' "fst e" "snd e"] by simp
  then show "last_entry m = last_entry m'" by (metis not_Some_eq)
qed

end

interpretation hm: map_impl hm_get hm_insert hm_remove hm_ok
  by unfold_locales (simp_all add: hm_get_insert hm_get_remove hm_ok_insert hm_ok_remove)

lemma bt_first_Some:
  assumes "bt_ok m"
  shows "bt_first m = Some (k, v) \<longleftrightarrow> bt_get m k = Some v \<and> (\<forall>k' \<in> dom (bt_get m). k \<le> k')"
proof (cases m)
  case Nil
  then show ?thesis by (simp add: bt_first_def bt_get_def)
next
  case (Cons e m')
  obtain k0 v0 where e: "e = (k0, v0)" by fastforce
  have dom: "dom (bt_get m) = insert k0 (fst ` set m')"
    using Cons e by (simp add: dom_bt_get)
  have lt: "\<forall>x \<in> set m'. k0 < fst x" using assms Cons e by simp
  show ?thesis
  proof
    assume "bt_first m = Some (k, v)"
    then show "bt_get m k = Some v \<and> (\<forall>k' \<in> dom (bt_get m). k \<le> k')"
      using Cons e lt dom by (auto simp: bt_first_def bt_get_def less_imp_le)
  next
    assume r: "bt_get m k = Some v \<and> (\<forall>k' \<in> dom (bt_get m). k \<le> k')"
    then have "k = k0" using lt dom by (metis antisym domI imageE insert_iff less_imp_le)
    with r show "bt_first m = Some (k, v)" using Cons e by (simp add: bt_first_def bt_get_def)
  qed
qed

lemma bt_last_Some:
  assumes "bt_ok m"
  shows "bt_last m = Some (k, v) \<longleftrightarrow> bt_get m k = Some v \<and> (\<forall>k' \<in> dom (bt_get m). k' \<le> k)"
proof (cases m rule: rev_cases)
  case Nil
  then show ?thesis by (simp add: bt_last_def bt_get_def)
next
  case (snoc m' e)
  obtain k0 v0 where e: "e = (k0, v0)" by fastforce
  have dom: "dom (bt_get m) = insert k0 (fst ` set m')"
    using snoc e by (simp add: dom_bt_get)
  have lt: "\<forall>x \<in> set m'. fst x < k0" using assms snoc e by (auto simp: bt_ok_def sorted_wrt_append)
  have get0: "bt_get m k0 = Some v0" using assms snoc e by (simp add: bt_get_Some_iff)
  show ?thesis
  proof
    assume "bt_last m = Some (k, v)"
    then show "bt_get m k = Some v \<and> (\<forall>k' \<in> dom (bt_get m). k' \<le> k)"
      using snoc e lt dom get0 by (auto simp: bt_last_def less_imp_le)
  next
    assume r: "bt_get m k = Some v \<and> (\<forall>k' \<in> dom (bt_get m). k' \<le> k)"
    then have "k = k0" using lt dom by (metis antisym domI imageE insert_iff less_imp_le)
    with r get0 show "bt_last m = Some (k, v)" using snoc e by (simp add: bt_last_def)
  qed
qed

interpretation bt: ordered_map_impl bt_get bt_insert bt_remove bt_ok bt_first bt_last
proof unfold_locales
  show "bt_first m = None \<longleftrightarrow> bt_get m = Map.empty" for m :: "('k::linorder \<times> 'v) list"
    by (cases m) (auto simp: bt_first_def bt_get_def fun_eq_iff)
  show "bt_last m = None \<longleftrightarrow> bt_get m = Map.empty" for m :: "('k::linorder \<times> 'v) list"
    by (cases m) (auto simp: bt_last_def bt_get_def fun_eq_iff)
qed (simp_all add: bt_get_insert bt_get_remove bt_ok_insert bt_ok_remove bt_first_Some bt_last_Some)

end
