(* ===== verification/Book.thy ===== *)
theory Book
  imports Arena Rust_Maps
begin

text \<open>
  The order book (\<open>book.rs\<close>): its state, its read-only queries, and \<open>rest\<close>,
  \<open>unlink\<close> and \<open>reduce_resting_qty\<close>, the three primitives every mutating
  operation is built from. This theory holds definitions only; the representation
  invariant and what the primitives do to it are in \<open>Book_Inv\<close>.
\<close>

section \<open>State\<close>

record book =
  book_bids :: "(price, level) btreemap"
  book_asks :: "(price, level) btreemap"
  book_arena :: arena
  book_order_index :: "(account_id \<times> order_id, u32) hashmap"
  book_accounts :: "(account_id, account_entry) hashmap"
  book_last_trade :: "price option"
  book_mass_cancel_scratch :: "u32 list"

definition book_new :: book where
  "book_new = \<lparr>book_bids = [], book_asks = [], book_arena = arena_new, book_order_index = [],
     book_accounts = [], book_last_trade = None, book_mass_cancel_scratch = []\<rparr>"

definition fill_state :: "qty \<Rightarrow> fill_state" where
  "fill_state resting_qty = (if resting_qty = 0 then State_Filled else State_PartiallyFilled)"

text \<open>\<open>match side { Buy => &mut self.bids, Sell => &mut self.asks }\<close>.\<close>

fun side_map :: "book \<Rightarrow> side \<Rightarrow> (price, level) btreemap" where
  "side_map b Buy = book_bids b"
| "side_map b Sell = book_asks b"

fun set_side_map :: "side \<Rightarrow> (price, level) btreemap \<Rightarrow> book \<Rightarrow> book" where
  "set_side_map Buy m b = b\<lparr>book_bids := m\<rparr>"
| "set_side_map Sell m b = b\<lparr>book_asks := m\<rparr>"

section \<open>Queries\<close>

definition best_bid :: "book \<Rightarrow> price option" where
  "best_bid b = map_option fst (bt_last (book_bids b))"

definition best_ask :: "book \<Rightarrow> price option" where
  "best_ask b = map_option fst (bt_first (book_asks b))"

definition top_of_book :: "book \<Rightarrow> touch_side \<times> touch_side" where
  "top_of_book b =
     (map_option (\<lambda>(p, l). (p, level_total_qty l)) (bt_last (book_bids b)),
      map_option (\<lambda>(p, l). (p, level_total_qty l)) (bt_first (book_asks b)))"

definition account_open_order_count :: "book \<Rightarrow> account_id \<Rightarrow> nat" where
  "account_open_order_count b a =
     (case hm_get (book_accounts b) a of None \<Rightarrow> 0 | Some e \<Rightarrow> open_order_count e)"

definition account_notional :: "book \<Rightarrow> account_id \<Rightarrow> u128" where
  "account_notional b a =
     (case hm_get (book_accounts b) a of None \<Rightarrow> 0 | Some e \<Rightarrow> entry_notional e)"

definition resting_order_snapshot :: "book \<Rightarrow> account_id \<Rightarrow> order_id \<Rightarrow> (price \<times> qty) option" where
  "resting_order_snapshot b a oid = do {
     slot \<leftarrow> hm_get (book_order_index b) (a, oid);
     node \<leftarrow> arena_get (book_arena b) slot;
     Some (node_price node, node_qty node)
   }"

section \<open>rest\<close>

text \<open>\<open>price as u128 * qty as u128\<close>.\<close>

definition notional_of :: "price \<Rightarrow> qty \<Rightarrow> u128" where
  "notional_of p q = ucast p * ucast q"

definition rest :: "book \<Rightarrow> account_id \<Rightarrow> order_id \<Rightarrow> side \<Rightarrow> price \<Rightarrow> qty \<Rightarrow> book option" where
  "rest b account oid side price qty = do {
     let e0 = (case hm_get (book_accounts b) account of
                 None \<Rightarrow> account_entry_default | Some e \<Rightarrow> e);
     let accounts = hm_insert account e0 (book_accounts b);
     let acct_idx = (of_nat (length (entry_slots e0)) :: u32);
     (arena, slot) \<leftarrow> arena_insert (book_arena b)
       \<lparr>node_id = oid, node_account = account, node_price = price, node_qty = qty,
        node_side = side, node_prev = NULL, node_next = NULL, node_acct_idx = acct_idx\<rparr>;
     entry \<leftarrow> hm_get accounts account;
     let entry = entry\<lparr>entry_slots := entry_slots entry @ [slot],
                       entry_notional := entry_notional entry + notional_of price qty\<rparr>;
     let accounts = hm_insert account entry accounts;
     let order_index = hm_insert (account, oid) slot (book_order_index b);
     let level = (case bt_get (side_map b side) price of
                    None \<Rightarrow> level_default | Some l \<Rightarrow> l);
     let old_tail = level_tail level;
     let level = level\<lparr>level_tail := slot\<rparr>;
     let level = (if old_tail = NULL then level\<lparr>level_head := slot\<rparr> else level);
     let level = level\<lparr>level_count := level_count level + 1,
                       level_total_qty := level_total_qty level + qty\<rparr>;
     arena \<leftarrow> (if old_tail \<noteq> NULL then do {
                  arena \<leftarrow> arena_modify arena old_tail (\<lambda>n. n\<lparr>node_next := slot\<rparr>);
                  arena_modify arena slot (\<lambda>n. n\<lparr>node_prev := old_tail\<rparr>)
                } else Some arena);
     Some (set_side_map side (bt_insert price level (side_map b side))
             (b\<lparr>book_arena := arena, book_order_index := order_index, book_accounts := accounts\<rparr>))
   }"

section \<open>unlink\<close>

definition unlink_level :: "level \<Rightarrow> u32 \<Rightarrow> node \<Rightarrow> level" where
  "unlink_level level slot node =
     (let level = (if level_head level = slot then level\<lparr>level_head := node_next node\<rparr> else level);
          level = (if level_tail level = slot then level\<lparr>level_tail := node_prev node\<rparr> else level)
      in level\<lparr>level_count := level_count level - 1,
               level_total_qty := level_total_qty level - node_qty node\<rparr>)"

definition unlink :: "book \<Rightarrow> u32 \<Rightarrow> book option" where
  "unlink b slot = do {
     node \<leftarrow> arena_get (book_arena b) slot;
     arena \<leftarrow> (if node_prev node \<noteq> NULL
        then arena_modify (book_arena b) (node_prev node) (\<lambda>n. n\<lparr>node_next := node_next node\<rparr>)
        else Some (book_arena b));
     arena \<leftarrow> (if node_next node \<noteq> NULL
        then arena_modify arena (node_next node) (\<lambda>n. n\<lparr>node_prev := node_prev node\<rparr>)
        else Some arena);
     level \<leftarrow> bt_get (side_map b (node_side node)) (node_price node);
     let level = unlink_level level slot node;
     let map = bt_insert (node_price node) level (side_map b (node_side node));
     let map = (if level_is_empty level then bt_remove (node_price node) map else map);
     let order_index = hm_remove (node_account node, node_id node) (book_order_index b);
     entry \<leftarrow> hm_get (book_accounts b) (node_account node);
     (removed, slots) \<leftarrow> swap_remove (unat (node_acct_idx node)) (entry_slots entry);
     let entry = entry\<lparr>entry_slots := slots,
       entry_notional := entry_notional entry - notional_of (node_price node) (node_qty node)\<rparr>;
     arena \<leftarrow> (case vec_get slots (unat (node_acct_idx node)) of
        Some moved_slot \<Rightarrow>
          arena_modify arena moved_slot (\<lambda>n. n\<lparr>node_acct_idx := node_acct_idx node\<rparr>)
      | None \<Rightarrow> Some arena);
     arena \<leftarrow> arena_free_slot arena slot;
     Some (set_side_map (node_side node) map
             (b\<lparr>book_arena := arena, book_order_index := order_index,
                book_accounts := hm_insert (node_account node) entry (book_accounts b)\<rparr>))
   }"

section \<open>reduce\_resting\_qty\<close>

definition reduce_resting_qty :: "book \<Rightarrow> u32 \<Rightarrow> side \<Rightarrow> price \<Rightarrow> u64 \<Rightarrow> book option" where
  "reduce_resting_qty b slot side price fill_qty = do {
     node \<leftarrow> arena_get (book_arena b) slot;
     arena \<leftarrow> arena_modify (book_arena b) slot (\<lambda>n. n\<lparr>node_qty := node_qty n - fill_qty\<rparr>);
     level \<leftarrow> bt_get (side_map b side) price;
     let level = level\<lparr>level_total_qty := level_total_qty level - fill_qty\<rparr>;
     entry \<leftarrow> hm_get (book_accounts b) (node_account node);
     let entry = entry\<lparr>entry_notional := entry_notional entry - notional_of price fill_qty\<rparr>;
     Some (set_side_map side (bt_insert price level (side_map b side))
             (b\<lparr>book_arena := arena,
                book_accounts := hm_insert (node_account node) entry (book_accounts b)\<rparr>))
   }"

subsection \<open>Frame facts\<close>

lemma side_map_set [frame_simps]:
  "side_map (set_side_map s m b) s' = (if s' = s then m else side_map b s')"
  by (cases s; cases s') auto

lemma set_side_map_frame [frame_simps]:
  "book_arena (set_side_map s m b) = book_arena b"
  "book_order_index (set_side_map s m b) = book_order_index b"
  "book_accounts (set_side_map s m b) = book_accounts b"
  "book_last_trade (set_side_map s m b) = book_last_trade b"
  "book_mass_cancel_scratch (set_side_map s m b) = book_mass_cancel_scratch b"
  by (cases s; simp)+

lemma side_map_update [frame_simps]:
  "side_map (book_arena_update f b) s = side_map b s"
  "side_map (book_order_index_update g b) s = side_map b s"
  "side_map (book_accounts_update h b) s = side_map b s"
  "side_map (book_last_trade_update i b) s = side_map b s"
  "side_map (book_mass_cancel_scratch_update j b) s = side_map b s"
  by (cases s; simp)+

end
