(* ===== verification/Book_Inv.thy ===== *)
theory Book_Inv
  imports Book
begin

text \<open>
  The representation invariant of the book and its preservation by \<open>rest\<close>,
  \<open>unlink\<close> and \<open>reduce_resting_qty\<close>. A ghost function \<open>Q\<close> gives, for each
  side and price, the queue of arena slots resting there, oldest first; \<open>book_rep b Q\<close>
  says that every data structure of the book agrees with \<open>Q\<close>: the doubly linked chains,
  the cached level aggregates, the order index, the account index and the free list.
\<close>

type_synonym heap = "u32 \<Rightarrow> node option"
type_synonym queues = "side \<Rightarrow> price \<Rightarrow> u32 list"

section \<open>Doubly linked chains\<close>

definition hd_or :: "'a list \<Rightarrow> 'a \<Rightarrow> 'a" where
  "hd_or xs e = (case xs of [] \<Rightarrow> e | x # _ \<Rightarrow> x)"

definition last_or :: "'a list \<Rightarrow> 'a \<Rightarrow> 'a" where
  "last_or xs p = (if xs = [] then p else last xs)"

lemma hd_or_simps [simp]: "hd_or [] e = e" "hd_or (x # xs) e = x"
  by (simp_all add: hd_or_def)

lemma last_or_simps [simp]: "last_or [] p = p" "last_or (xs @ [x]) p = x"
  "last_or (x # xs) p = last_or xs x"
  by (simp_all add: last_or_def)

lemma hd_or_append: "hd_or (xs @ ys) e = hd_or xs (hd_or ys e)"
  by (cases xs) auto

lemma hd_or_in: "xs \<noteq> [] \<Longrightarrow> hd_or xs e \<in> set xs"
  by (cases xs) auto

lemma last_or_in: "xs \<noteq> [] \<Longrightarrow> last_or xs e \<in> set xs"
  by (simp add: last_or_def)

text \<open>The chain \<open>xs\<close>: back link \<open>p\<close> before it, forward link \<open>e\<close> after it.\<close>

fun linked :: "(u32 \<Rightarrow> (u32 \<times> u32) option) \<Rightarrow> u32 \<Rightarrow> u32 list \<Rightarrow> u32 \<Rightarrow> bool" where
  "linked l p [] e = True"
| "linked l p (x # xs) e = (l x = Some (p, hd_or xs e) \<and> linked l x xs e)"

definition links :: "heap \<Rightarrow> u32 \<Rightarrow> (u32 \<times> u32) option" where
  "links h s = map_option (\<lambda>n. (node_prev n, node_next n)) (h s)"

lemma linked_append:
  "linked l p (xs @ ys) e \<longleftrightarrow> linked l p xs (hd_or ys e) \<and> linked l (last_or xs p) ys e"
  by (induction xs arbitrary: p) (auto simp: hd_or_append)

lemma linked_cong:
  "(\<And>x. x \<in> set xs \<Longrightarrow> l x = l' x) \<Longrightarrow> linked l p xs e \<longleftrightarrow> linked l' p xs e"
  by (induction xs arbitrary: p) auto

lemma linked_member:
  assumes "linked l p (xs @ s # ys) e"
  shows "l s = Some (last_or xs p, hd_or ys e)"
  using assms by (simp add: linked_append)

text \<open>Append at the tail: the old tail's forward link and the new node's back link are set.\<close>

lemma linked_snoc:
  assumes "linked l p xs e" and "s \<notin> set xs" and "distinct xs"
    and "l' s = Some (last_or xs p, e')"
    and upd: "\<And>x. x \<in> set xs \<Longrightarrow> l' x = map_option (\<lambda>(pv, nx). (pv, if x = last xs then s else nx)) (l x)"
  shows "linked l' p (xs @ [s]) e'"
proof (cases xs rule: rev_cases)
  case Nil
  then show ?thesis using assms(4) by simp
next
  case (snoc as t)
  have "linked l p as t" and "l t = Some (last_or as p, e)"
    using assms(1) snoc by (simp_all add: linked_append)
  moreover have "linked l' p as t \<longleftrightarrow> linked l p as t"
  proof (rule linked_cong)
    fix x assume "x \<in> set as"
    then show "l' x = l x" using assms(3) upd [of x] snoc by (cases "l x") auto
  qed
  ultimately show ?thesis using assms(4) upd [of t] snoc by (simp add: linked_append)
qed

text \<open>Removal from the middle: the two neighbours are linked to each other.\<close>

lemma linked_remove:
  assumes "linked l p (xs @ s # ys) e" and "distinct (xs @ s # ys)"
    and "p \<notin> set (xs @ ys)" and "e \<notin> set (xs @ ys)"
    and upd: "\<And>x. x \<in> set (xs @ ys) \<Longrightarrow> l' x = map_option (\<lambda>(pv, nx).
          (if x = hd_or ys e then last_or xs p else pv,
           if x = last_or xs p then hd_or ys e else nx)) (l x)"
  shows "linked l' p (xs @ ys) e"
proof -
  have old: "linked l p xs s" "linked l s ys e"
    using assms(1) by (simp_all add: linked_append)
  have hd_notin: "hd_or ys e \<notin> set xs"
    using assms(2,4) hd_or_in [of ys e] by (cases "ys = []") auto
  have last_notin: "last_or xs p \<notin> set ys"
    using assms(2,3) last_or_in [of xs p] by (cases "xs = []") auto
  have left: "linked l' p xs (hd_or ys e)"
  proof (cases xs rule: rev_cases)
    case (snoc as t)
    have "linked l' p as t \<longleftrightarrow> linked l p as t"
    proof (rule linked_cong)
      fix x assume x: "x \<in> set as"
      then have "x \<noteq> hd_or ys e" using hd_notin snoc by auto
      with x show "l' x = l x" using upd [of x] assms(2) snoc by (cases "l x") auto
    qed
    moreover have "t \<noteq> hd_or ys e" using hd_notin snoc by auto
    ultimately show ?thesis using old(1) upd [of t] snoc by (simp add: linked_append)
  qed simp
  have right: "linked l' (last_or xs p) ys e"
  proof (cases ys)
    case (Cons y zs)
    have "linked l' y zs e \<longleftrightarrow> linked l y zs e"
    proof (rule linked_cong)
      fix x assume x: "x \<in> set zs"
      then have "x \<noteq> last_or xs p" using last_notin Cons by auto
      with x show "l' x = l x" using upd [of x] assms(2) Cons by (cases "l x") auto
    qed
    moreover have "y \<noteq> last_or xs p" using last_notin Cons by auto
    ultimately show ?thesis using old(2) upd [of y] Cons by simp
  qed simp
  show ?thesis using left right by (simp add: linked_append)
qed

section \<open>The invariant\<close>

definition qty_at :: "heap \<Rightarrow> u32 \<Rightarrow> qty" where
  "qty_at h s = (case h s of None \<Rightarrow> 0 | Some n \<Rightarrow> node_qty n)"

definition notional_at :: "heap \<Rightarrow> u32 \<Rightarrow> u128" where
  "notional_at h s = (case h s of None \<Rightarrow> 0 | Some n \<Rightarrow> notional_of (node_price n) (node_qty n))"

definition level_view :: "heap \<Rightarrow> u32 list \<Rightarrow> level option" where
  "level_view h q = (if q = [] then None else
     Some \<lparr>level_head = hd q, level_tail = last q,
           level_total_qty = (\<Sum>s\<leftarrow>q. qty_at h s), level_count = of_nat (length q)\<rparr>)"

definition queues_ok :: "heap \<Rightarrow> queues \<Rightarrow> bool" where
  "queues_ok h Q \<longleftrightarrow>
     (\<forall>sd p s. s \<in> set (Q sd p) \<longleftrightarrow> (\<exists>n. h s = Some n \<and> node_side n = sd \<and> node_price n = p)) \<and>
     (\<forall>sd p. distinct (Q sd p)) \<and>
     (\<forall>sd p. linked (links h) NULL (Q sd p) NULL)"

definition levels_ok :: "heap \<Rightarrow> queues \<Rightarrow> book \<Rightarrow> bool" where
  "levels_ok h Q b \<longleftrightarrow>
     (\<forall>sd. bt_ok (side_map b sd)) \<and>
     (\<forall>sd p. bt_get (side_map b sd) p = level_view h (Q sd p))"

definition index_ok :: "heap \<Rightarrow> (account_id \<times> order_id, u32) hashmap \<Rightarrow> bool" where
  "index_ok h oi \<longleftrightarrow> hm_ok oi \<and>
     (\<forall>k s. hm_get oi k = Some s \<longleftrightarrow> (\<exists>n. h s = Some n \<and> k = (node_account n, node_id n)))"

definition accounts_ok :: "heap \<Rightarrow> (account_id, account_entry) hashmap \<Rightarrow> bool" where
  "accounts_ok h acc \<longleftrightarrow> hm_ok acc \<and>
     (\<forall>s n. h s = Some n \<longrightarrow> (\<exists>e. hm_get acc (node_account n) = Some e \<and>
        unat (node_acct_idx n) < length (entry_slots e) \<and>
        entry_slots e ! unat (node_acct_idx n) = s)) \<and>
     (\<forall>a e. hm_get acc a = Some e \<longrightarrow>
        (\<forall>i < length (entry_slots e). \<exists>n. h (entry_slots e ! i) = Some n \<and>
           node_account n = a \<and> unat (node_acct_idx n) = i) \<and>
        entry_notional e = (\<Sum>s\<leftarrow>entry_slots e. notional_at h s))"

definition qtys_ok :: "heap \<Rightarrow> bool" where
  "qtys_ok h \<longleftrightarrow> (\<forall>s n. h s = Some n \<longrightarrow> node_qty n \<noteq> 0)"

abbreviation heap_of :: "book \<Rightarrow> heap" where
  "heap_of b \<equiv> arena_get (book_arena b)"

definition book_rep :: "book \<Rightarrow> queues \<Rightarrow> bool" where
  "book_rep b Q \<longleftrightarrow>
     arena_wf (book_arena b) \<and>
     queues_ok (heap_of b) Q \<and>
     levels_ok (heap_of b) Q b \<and>
     index_ok (heap_of b) (book_order_index b) \<and>
     accounts_ok (heap_of b) (book_accounts b) \<and>
     qtys_ok (heap_of b)"

lemma book_repD:
  assumes "book_rep b Q"
  shows "arena_wf (book_arena b)" "queues_ok (heap_of b) Q" "levels_ok (heap_of b) Q b"
    "index_ok (heap_of b) (book_order_index b)" "accounts_ok (heap_of b) (book_accounts b)"
    "qtys_ok (heap_of b)"
  using assms by (simp_all add: book_rep_def)

lemma queues_okD:
  assumes "queues_ok h Q"
  shows "s \<in> set (Q sd p) \<longleftrightarrow> (\<exists>n. h s = Some n \<and> node_side n = sd \<and> node_price n = p)"
    and "distinct (Q sd p)" and "linked (links h) NULL (Q sd p) NULL"
  using assms unfolding queues_ok_def by blast+

lemma levels_okD:
  assumes "levels_ok h Q b"
  shows "bt_ok (side_map b sd)" and "bt_get (side_map b sd) p = level_view h (Q sd p)"
  using assms unfolding levels_ok_def by blast+

lemma index_okD:
  assumes "index_ok h oi"
  shows "hm_ok oi" and "hm_get oi k = Some s \<longleftrightarrow> (\<exists>n. h s = Some n \<and> k = (node_account n, node_id n))"
  using assms unfolding index_ok_def by blast+

lemma accounts_okI:
  assumes "hm_ok acc"
    and "\<And>s n. h s = Some n \<Longrightarrow> \<exists>e. hm_get acc (node_account n) = Some e \<and>
        unat (node_acct_idx n) < length (entry_slots e) \<and>
        entry_slots e ! unat (node_acct_idx n) = s"
    and "\<And>a e. hm_get acc a = Some e \<Longrightarrow>
        (\<forall>i < length (entry_slots e). \<exists>n. h (entry_slots e ! i) = Some n \<and>
           node_account n = a \<and> unat (node_acct_idx n) = i) \<and>
        entry_notional e = (\<Sum>s\<leftarrow>entry_slots e. notional_at h s)"
  shows "accounts_ok h acc"
  using assms by (simp add: accounts_ok_def)

lemma accounts_ok_liveD:
  assumes "accounts_ok h acc" and "h s = Some n"
  obtains e where "hm_get acc (node_account n) = Some e"
    and "unat (node_acct_idx n) < length (entry_slots e)"
    and "entry_slots e ! unat (node_acct_idx n) = s"
  using assms unfolding accounts_ok_def by blast

lemma accounts_ok_slotD:
  assumes "accounts_ok h acc" and "hm_get acc a = Some e" and "i < length (entry_slots e)"
  obtains n where "h (entry_slots e ! i) = Some n" "node_account n = a" "unat (node_acct_idx n) = i"
  using assms unfolding accounts_ok_def by blast

lemma accounts_ok_notional:
  "accounts_ok h acc \<Longrightarrow> hm_get acc a = Some e \<Longrightarrow>
     entry_notional e = (\<Sum>s\<leftarrow>entry_slots e. notional_at h s)"
  unfolding accounts_ok_def by blast

text \<open>The slots an account lists are distinct: each names its own position.\<close>

lemma accounts_ok_distinct:
  assumes "accounts_ok h acc" and "hm_get acc a = Some e"
  shows "distinct (entry_slots e)"
proof (unfold distinct_conv_nth, intro allI impI)
  fix i j assume ij: "i < length (entry_slots e)" "j < length (entry_slots e)" "i \<noteq> j"
  obtain n where "h (entry_slots e ! i) = Some n" "node_account n = a" "unat (node_acct_idx n) = i"
    by (rule accounts_ok_slotD [OF assms ij(1)])
  moreover obtain m where
    "h (entry_slots e ! j) = Some m" "node_account m = a" "unat (node_acct_idx m) = j"
    by (rule accounts_ok_slotD [OF assms ij(2)])
  ultimately show "entry_slots e ! i \<noteq> entry_slots e ! j" using ij(3) by (metis option.inject)
qed

lemma book_rep_new: "book_rep book_new (\<lambda>_ _. [])"
proof -
  have "side_map book_new sd = []" for sd by (cases sd) (simp_all add: book_new_def)
  then show ?thesis
    by (simp add: book_rep_def queues_ok_def levels_ok_def index_ok_def accounts_ok_def qtys_ok_def
        level_view_def hm_ok_def hm_get_def bt_get_def book_new_def)
qed

text \<open>The ghost queues are determined by the book: they are what following the links reads.\<close>

lemma linked_unique:
  assumes "linked l p xs NULL" and "linked l p' ys NULL" and "hd_or xs NULL = hd_or ys NULL"
    and "NULL \<notin> set xs" and "NULL \<notin> set ys"
  shows "xs = ys"
  using assms
proof (induction xs arbitrary: ys p p')
  case Nil
  then show ?case by (cases ys) auto
next
  case (Cons x xs)
  then obtain zs where ys: "ys = x # zs" by (cases ys) auto
  with Cons show ?case by auto
qed

lemma queue_no_NULL:
  assumes "book_rep b Q"
  shows "NULL \<notin> set (Q sd p)"
  by (simp add: queues_okD(1) [OF book_repD(2) [OF assms]] arena_get_NULL [OF book_repD(1) [OF assms]])

lemma book_rep_unique:
  assumes "book_rep b Q" and "book_rep b R"
  shows "Q = R"
proof (intro ext)
  fix sd p
  have "level_view (heap_of b) (Q sd p) = level_view (heap_of b) (R sd p)"
    using levels_okD(2) [OF book_repD(3)] assms by metis
  then have "hd_or (Q sd p) NULL = hd_or (R sd p) NULL"
    by (cases "Q sd p"; cases "R sd p") (auto simp: level_view_def)
  then show "Q sd p = R sd p"
    using linked_unique [of "links (heap_of b)" NULL "Q sd p" NULL "R sd p"]
      queues_okD(3) [OF book_repD(2) [OF assms(1)]] queues_okD(3) [OF book_repD(2) [OF assms(2)]]
      queue_no_NULL [OF assms(1)] queue_no_NULL [OF assms(2)] by blast
qed

end
