(* ===== verification/Book_Prims.thy ===== *)
theory Book_Prims
  imports Book_Inv
begin

text \<open>
  \<open>rest\<close>, \<open>unlink\<close> and \<open>reduce_resting_qty\<close> do not panic on a book that
  satisfies the representation invariant, keep it, and change the ghost queues by appending a
  slot, deleting a slot, and not at all.
\<close>

section \<open>Guarded arena writes\<close>

definition upd_at :: "u32 \<Rightarrow> (node \<Rightarrow> node) \<Rightarrow> heap \<Rightarrow> heap" where
  "upd_at t f h = (\<lambda>x. map_option (\<lambda>m. if x = t then f m else m) (h x))"

lemma arena_modify_upd_at:
  assumes "arena_wf a" and "arena_get a t = Some m"
  obtains a' where "arena_modify a t f = Some a'" and "arena_get a' = upd_at t f (arena_get a)"
    and "arena_wf a'" and "arena_free a' = arena_free a"
    and "length (arena_slots a') = length (arena_slots a)"
proof -
  obtain a' where a': "arena_modify a t f = Some a'" "arena_get a' = (arena_get a)(t := Some (f m))"
    "arena_free a' = arena_free a" "length (arena_slots a') = length (arena_slots a)"
    "arena_wf a'"
    using assms by (rule arena_modifyE [where f = f])
  moreover have "(arena_get a)(t := Some (f m)) = upd_at t f (arena_get a)"
    using assms(2) by (auto simp: upd_at_def fun_eq_iff option.map_ident)
  ultimately show thesis using that [of a'] by simp
qed

lemma upd_at_NULL:
  assumes "arena_wf a" shows "upd_at NULL f (arena_get a) = arena_get a"
proof
  fix x show "upd_at NULL f (arena_get a) x = arena_get a x"
    using live_not_NULL [OF assms, of x] by (cases "arena_get a x") (auto simp: upd_at_def)
qed

text \<open>Writing through a link that may be \<open>NULL\<close>.\<close>

lemma modify_linkE:
  assumes wf: "arena_wf a" and live: "t \<noteq> NULL \<Longrightarrow> arena_get a t \<noteq> None"
  obtains a' where "(if t \<noteq> NULL then arena_modify a t f else Some a) = Some a'"
    and "arena_get a' = upd_at t f (arena_get a)" and "arena_wf a'"
    and "arena_free a' = arena_free a" and "length (arena_slots a') = length (arena_slots a)"
proof (cases "t = NULL")
  case True
  then show thesis using that [of a] wf by (simp add: upd_at_NULL)
next
  case False
  then obtain m where "arena_get a t = Some m" using live by auto
  with wf obtain a' where "arena_modify a t f = Some a'" "arena_get a' = upd_at t f (arena_get a)"
    "arena_wf a'" "arena_free a' = arena_free a"
    "length (arena_slots a') = length (arena_slots a)"
    by (rule arena_modify_upd_at [where f = f])
  then show thesis using that [of a'] wf False by simp
qed

lemma upd_at_eq_None [simp]: "upd_at t f h x = None \<longleftrightarrow> h x = None"
  by (simp add: upd_at_def)

section \<open>The account index under an update\<close>

text \<open>What the invariant says of one account, and what it needs of the nodes of all the others.\<close>

definition entry_ok :: "heap \<Rightarrow> account_id \<Rightarrow> account_entry \<Rightarrow> bool" where
  "entry_ok h a e \<longleftrightarrow>
     (\<forall>i < length (entry_slots e). \<exists>n. h (entry_slots e ! i) = Some n \<and>
        node_account n = a \<and> unat (node_acct_idx n) = i) \<and>
     entry_notional e = (\<Sum>s\<leftarrow>entry_slots e. notional_at h s)"

definition foreign_view :: "account_id \<Rightarrow> heap \<Rightarrow> u32 \<Rightarrow> (account_id \<times> u32 \<times> u128) option" where
  "foreign_view a h x = (case h x of None \<Rightarrow> None | Some n \<Rightarrow>
     if node_account n = a then None else Some (node_account n, node_acct_idx n, notional_at h x))"

lemma foreign_view_Some:
  "foreign_view a h x = Some (c, i, v) \<longleftrightarrow>
     (\<exists>n. h x = Some n \<and> node_account n = c \<and> c \<noteq> a \<and> node_acct_idx n = i \<and> notional_at h x = v)"
  by (auto simp: foreign_view_def split: option.splits)

lemma accounts_ok_entry: "accounts_ok h acc \<Longrightarrow> hm_get acc a = Some e \<Longrightarrow> entry_ok h a e"
  by (simp add: accounts_ok_def entry_ok_def)

lemma entry_ok_cong:
  assumes ok: "entry_ok h c e" and c: "c \<noteq> a" and view: "\<And>x. foreign_view a h' x = foreign_view a h x"
  shows "entry_ok h' c e"
proof -
  have at: "\<exists>n. h' (entry_slots e ! i) = Some n \<and> node_account n = c \<and> unat (node_acct_idx n) = i \<and>
      notional_at h' (entry_slots e ! i) = notional_at h (entry_slots e ! i)"
    if i: "i < length (entry_slots e)" for i
  proof -
    obtain n where "h (entry_slots e ! i) = Some n" "node_account n = c" "unat (node_acct_idx n) = i"
      using ok i unfolding entry_ok_def by blast
    then have "foreign_view a h' (entry_slots e ! i) =
        Some (c, node_acct_idx n, notional_at h (entry_slots e ! i))" "unat (node_acct_idx n) = i"
      using c by (simp_all add: view foreign_view_Some)
    then show ?thesis by (auto simp: foreign_view_Some)
  qed
  then have "(\<Sum>x\<leftarrow>entry_slots e. notional_at h' x) = (\<Sum>x\<leftarrow>entry_slots e. notional_at h x)"
    by (intro sum_list_map_cong) (auto simp: in_set_conv_nth)
  then show ?thesis using ok at by (fastforce simp: entry_ok_def)
qed

lemma accounts_ok_update:
  assumes acc: "accounts_ok h acc" and new: "entry_ok h' a e'"
    and view: "\<And>x. foreign_view a h' x = foreign_view a h x"
    and own: "\<And>x n. h' x = Some n \<Longrightarrow> node_account n = a \<Longrightarrow> x \<in> set (entry_slots e')"
  shows "accounts_ok h' (hm_insert a e' acc)"
proof (rule accounts_okI)
  show "hm_ok (hm_insert a e' acc)" using acc by (simp add: accounts_ok_def hm.ok_ins)
next
  fix x n assume x: "h' x = Some n"
  show "\<exists>e. hm_get (hm_insert a e' acc) (node_account n) = Some e \<and>
      unat (node_acct_idx n) < length (entry_slots e) \<and> entry_slots e ! unat (node_acct_idx n) = x"
  proof (cases "node_account n = a")
    case True
    then obtain i where "i < length (entry_slots e')" "entry_slots e' ! i = x"
      using own [OF x] by (auto simp: in_set_conv_nth)
    then show ?thesis using True new x by (auto simp: entry_ok_def)
  next
    case False
    then have "foreign_view a h x = Some (node_account n, node_acct_idx n, notional_at h' x)"
      using x view [of x] by (simp add: foreign_view_def [of a h'])
    then obtain m where "h x = Some m" "node_account m = node_account n" "node_acct_idx m = node_acct_idx n"
      by (auto simp: foreign_view_Some)
    moreover obtain e where "hm_get acc (node_account m) = Some e"
      "unat (node_acct_idx m) < length (entry_slots e)" "entry_slots e ! unat (node_acct_idx m) = x"
      using acc \<open>h x = Some m\<close> by (rule accounts_ok_liveD)
    ultimately show ?thesis using False by (simp add: hm.get_ins)
  qed
next
  fix c e assume "hm_get (hm_insert a e' acc) c = Some e"
  then have "entry_ok h' c e"
    using new entry_ok_cong [OF accounts_ok_entry [OF acc] _ view] by (auto simp: hm.get_ins split: if_splits)
  then show "(\<forall>i < length (entry_slots e). \<exists>n. h' (entry_slots e ! i) = Some n \<and>
      node_account n = c \<and> unat (node_acct_idx n) = i) \<and>
      entry_notional e = (\<Sum>s\<leftarrow>entry_slots e. notional_at h' s)"
    by (simp add: entry_ok_def)
qed

lemma own_slots:
  assumes "accounts_ok h acc" and "hm_get acc a = Some e" and "h x = Some n" and "node_account n = a"
  shows "x \<in> set (entry_slots e)"
  using accounts_ok_liveD [OF assms(1,3)] assms(2,4) nth_mem by (metis option.inject)

section \<open>unlink\<close>

definition unlink_heap :: "heap \<Rightarrow> u32 \<Rightarrow> node \<Rightarrow> u32 option \<Rightarrow> heap" where
  "unlink_heap h s n mv x = (if x = s then None else map_option (\<lambda>m. m\<lparr>
       node_prev := (if x = node_next n then node_prev n else node_prev m),
       node_next := (if x = node_prev n then node_next n else node_next m),
       node_acct_idx := (if mv = Some x then node_acct_idx n else node_acct_idx m)\<rparr>) (h x))"

lemma unlink_heap_eq_Some:
  "unlink_heap h s n mv x = Some m' \<longleftrightarrow> x \<noteq> s \<and> (\<exists>m. h x = Some m \<and> m\<lparr>
       node_prev := (if x = node_next n then node_prev n else node_prev m),
       node_next := (if x = node_prev n then node_next n else node_next m),
       node_acct_idx := (if mv = Some x then node_acct_idx n else node_acct_idx m)\<rparr> = m')"
  by (simp add: unlink_heap_def)

lemma unlink_heap_SomeE:
  assumes "unlink_heap h s n mv x = Some m'"
  obtains m where "x \<noteq> s" and "h x = Some m" and "node_qty m' = node_qty m"
    and "node_account m' = node_account m"
    and "node_acct_idx m' = (if mv = Some x then node_acct_idx n else node_acct_idx m)"
proof -
  obtain m where "x \<noteq> s" "h x = Some m" and m': "m' = m\<lparr>
       node_prev := (if x = node_next n then node_prev n else node_prev m),
       node_next := (if x = node_prev n then node_next n else node_next m),
       node_acct_idx := (if mv = Some x then node_acct_idx n else node_acct_idx m)\<rparr>"
    using assms unfolding unlink_heap_eq_Some by blast
  then show thesis by (intro that [of m]) (simp_all add: m')
qed

definition del_slot :: "queues \<Rightarrow> u32 \<Rightarrow> queues" where
  "del_slot Q s = (\<lambda>sd p. removeAll s (Q sd p))"

text \<open>The parts of the book around a live slot.\<close>

lemma book_rep_split:
  assumes "book_rep b Q" and "heap_of b s = Some n"
  obtains xs ys where "Q (node_side n) (node_price n) = xs @ s # ys"
    and "distinct (xs @ s # ys)"
    and "node_prev n = last_or xs NULL" and "node_next n = hd_or ys NULL"
proof -
  note q = queues_okD [OF book_repD(2) [OF assms(1)]]
  have "s \<in> set (Q (node_side n) (node_price n))" using assms(2) by (simp add: q(1))
  then obtain xs ys where Q: "Q (node_side n) (node_price n) = xs @ s # ys"
    by (meson split_list)
  have "links (heap_of b) s = Some (last_or xs NULL, hd_or ys NULL)"
    using q(3) [of "node_side n" "node_price n"] unfolding Q by (rule linked_member)
  then show thesis
    using that [OF Q] q(2) [of "node_side n" "node_price n"] assms(2) Q by (simp add: links_def)
qed

lemma neighbour_live:
  assumes rep: "book_rep b Q" and live: "heap_of b s = Some n"
  shows "node_prev n \<noteq> NULL \<Longrightarrow> heap_of b (node_prev n) \<noteq> None"
    and "node_next n \<noteq> NULL \<Longrightarrow> heap_of b (node_next n) \<noteq> None"
proof -
  obtain xs ys where Q: "Q (node_side n) (node_price n) = xs @ s # ys"
    and pv: "node_prev n = last_or xs NULL" and nx: "node_next n = hd_or ys NULL"
    using rep live by (rule book_rep_split)
  have mem: "x \<in> set (xs @ s # ys) \<Longrightarrow> heap_of b x \<noteq> None" for x
    using queues_okD(1) [OF book_repD(2) [OF rep], of x "node_side n" "node_price n"] Q by auto
  show "node_prev n \<noteq> NULL \<Longrightarrow> heap_of b (node_prev n) \<noteq> None"
    using pv mem [of "node_prev n"] last_or_in [of xs NULL] by (cases "xs = []") auto
  show "node_next n \<noteq> NULL \<Longrightarrow> heap_of b (node_next n) \<noteq> None"
    using nx mem [of "node_next n"] hd_or_in [of ys NULL] by (cases "ys = []") auto
qed

text \<open>The moved slot of the account gets the freed position.\<close>

lemma modify_movedE:
  assumes wf: "arena_wf a" and live: "\<And>t. mv = Some t \<Longrightarrow> arena_get a t \<noteq> None"
  obtains a' where "(case mv of Some t \<Rightarrow> arena_modify a t (\<lambda>m. m\<lparr>node_acct_idx := i\<rparr>) | None \<Rightarrow> Some a) = Some a'"
    and "arena_get a' = (\<lambda>x. map_option (\<lambda>m. if Some x = mv then m\<lparr>node_acct_idx := i\<rparr> else m) (arena_get a x))"
    and "arena_wf a'" and "length (arena_slots a') = length (arena_slots a)"
proof (cases mv)
  case None
  then show thesis using that [of a] wf by (simp add: option.map_ident)
next
  case (Some t)
  then obtain m where "arena_get a t = Some m" using live by blast
  with wf obtain a' where "arena_modify a t (\<lambda>m. m\<lparr>node_acct_idx := i\<rparr>) = Some a'"
    "arena_get a' = upd_at t (\<lambda>m. m\<lparr>node_acct_idx := i\<rparr>) (arena_get a)"
    "arena_wf a'" "length (arena_slots a') = length (arena_slots a)"
    by (rule arena_modify_upd_at)
  then show thesis using that [of a'] Some by (auto simp: upd_at_def fun_eq_iff)
qed

text \<open>The four steps of \<open>unlink\<close> on the arena: two links, the moved slot, the free list.\<close>

lemma unlink_arenaE:
  assumes wf: "arena_wf a" and live: "arena_get a s = Some n"
    and pv: "node_prev n \<noteq> NULL \<Longrightarrow> arena_get a (node_prev n) \<noteq> None"
    and nx: "node_next n \<noteq> NULL \<Longrightarrow> arena_get a (node_next n) \<noteq> None"
    and moved: "\<And>t. mv = Some t \<Longrightarrow> arena_get a t \<noteq> None"
  obtains a1 a2 a3 a4 where "(if node_prev n \<noteq> NULL then
        arena_modify a (node_prev n) (\<lambda>m. m\<lparr>node_next := node_next n\<rparr>) else Some a) = Some a1"
    and "(if node_next n \<noteq> NULL then
        arena_modify a1 (node_next n) (\<lambda>m. m\<lparr>node_prev := node_prev n\<rparr>) else Some a1) = Some a2"
    and "(case mv of Some t \<Rightarrow> arena_modify a2 t (\<lambda>m. m\<lparr>node_acct_idx := node_acct_idx n\<rparr>)
        | None \<Rightarrow> Some a2) = Some a3"
    and "arena_free_slot a3 s = Some a4" and "arena_get a4 = unlink_heap (arena_get a) s n mv"
    and "arena_wf a4" and "arena_room a4" and "length (arena_slots a4) = length (arena_slots a)"
proof -
  obtain a1 where a1: "(if node_prev n \<noteq> NULL then
        arena_modify a (node_prev n) (\<lambda>m. m\<lparr>node_next := node_next n\<rparr>) else Some a) = Some a1"
    "arena_get a1 = upd_at (node_prev n) (\<lambda>m. m\<lparr>node_next := node_next n\<rparr>) (arena_get a)"
    "arena_wf a1" "length (arena_slots a1) = length (arena_slots a)"
    using wf pv by (rule modify_linkE)
  have nx1: "node_next n \<noteq> NULL \<Longrightarrow> arena_get a1 (node_next n) \<noteq> None" using nx a1(2) by simp
  obtain a2 where a2: "(if node_next n \<noteq> NULL then
        arena_modify a1 (node_next n) (\<lambda>m. m\<lparr>node_prev := node_prev n\<rparr>) else Some a1) = Some a2"
    "arena_get a2 = upd_at (node_next n) (\<lambda>m. m\<lparr>node_prev := node_prev n\<rparr>) (arena_get a1)"
    "arena_wf a2" "length (arena_slots a2) = length (arena_slots a1)"
    using a1(3) nx1 by (rule modify_linkE)
  have moved2: "\<And>t. mv = Some t \<Longrightarrow> arena_get a2 t \<noteq> None" using moved a2(2) a1(2) by simp
  obtain a3 where a3: "(case mv of Some t \<Rightarrow> arena_modify a2 t (\<lambda>m. m\<lparr>node_acct_idx := node_acct_idx n\<rparr>)
      | None \<Rightarrow> Some a2) = Some a3"
    "arena_get a3 = (\<lambda>x. map_option (\<lambda>m. if Some x = mv
        then m\<lparr>node_acct_idx := node_acct_idx n\<rparr> else m) (arena_get a2 x))"
    "arena_wf a3" "length (arena_slots a3) = length (arena_slots a2)"
    using a2(3) moved2 by (rule modify_movedE)
  obtain n3 where "arena_get a3 s = Some n3" using live a1(2) a2(2) a3(2) by (auto simp: upd_at_def)
  then obtain a4 where a4: "arena_free_slot a3 s = Some a4" "arena_get a4 = (arena_get a3)(s := None)"
    "arena_wf a4" "arena_room a4" "length (arena_slots a4) = length (arena_slots a3)"
    using a3(3) arena_free_slotE by metis
  have "arena_get a4 x = unlink_heap (arena_get a) s n mv x" for x
    unfolding a4(2) a3(2) a2(2) a1(2) unlink_heap_def upd_at_def
    by (cases "arena_get a x"; cases "x = s"; cases "x = node_prev n"; cases "x = node_next n";
        cases "mv = Some x") simp_all
  then show thesis using that [OF a1(1) a2(1) a3(1) a4(1) _ a4(3,4)] a4(5) a3(4) a2(4) a1(4) by auto
qed

lemma unlinkE:
  assumes rep: "book_rep b Q" and live: "heap_of b s = Some n"
  obtains b' e slots mv l where "unlink b s = Some b'"
    and "hm_get (book_accounts b) (node_account n) = Some e"
    and "swap_remove (unat (node_acct_idx n)) (entry_slots e) = Some (s, slots)"
    and "mv = vec_get slots (unat (node_acct_idx n))"
    and "level_view (heap_of b) (Q (node_side n) (node_price n)) = Some l"
    and "heap_of b' = unlink_heap (heap_of b) s n mv"
    and "arena_wf (book_arena b')" and "arena_room (book_arena b')"
    and "length (arena_slots (book_arena b')) = length (arena_slots (book_arena b))"
    and "side_map b' = (\<lambda>sd. if sd = node_side n then
          (let l' = unlink_level l s n; m = bt_insert (node_price n) l' (side_map b sd)
           in if level_is_empty l' then bt_remove (node_price n) m else m) else side_map b sd)"
    and "book_order_index b' = hm_remove (node_account n, node_id n) (book_order_index b)"
    and "book_accounts b' = hm_insert (node_account n)
          (e\<lparr>entry_slots := slots,
             entry_notional := entry_notional e - notional_of (node_price n) (node_qty n)\<rparr>)
          (book_accounts b)"
    and "book_last_trade b' = book_last_trade b"
proof -
  note acc = book_repD(5) [OF rep]
  have "s \<in> set (Q (node_side n) (node_price n))"
    using live by (simp add: queues_okD(1) [OF book_repD(2) [OF rep]])
  then obtain l where l: "level_view (heap_of b) (Q (node_side n) (node_price n)) = Some l"
    by (cases "Q (node_side n) (node_price n)") (auto simp: level_view_def)
  have bl: "bt_get (side_map b (node_side n)) (node_price n) = Some l"
    using levels_okD(2) [OF book_repD(3) [OF rep]] l by simp
  obtain e where e: "hm_get (book_accounts b) (node_account n) = Some e"
    "unat (node_acct_idx n) < length (entry_slots e)"
    "entry_slots e ! unat (node_acct_idx n) = s"
    using acc live by (rule accounts_ok_liveD)
  obtain slots where sw: "swap_remove (unat (node_acct_idx n)) (entry_slots e) = Some (s, slots)"
    using e by (simp add: swap_remove_def)
  define mv where "mv = vec_get slots (unat (node_acct_idx n))"
  have moved: "heap_of b t \<noteq> None" if "mv = Some t" for t
  proof -
    have "t \<in> set slots" using that by (metis mv_def vec_get_Some nth_mem)
    then have "t \<in> set (entry_slots e)" using set_swap_remove(1) [OF sw accounts_ok_distinct [OF acc e(1)]] by blast
    then show ?thesis using accounts_ok_slotD [OF acc e(1)] by (metis in_set_conv_nth option.discI)
  qed
  obtain a1 a2 a3 a4 where ar: "(if node_prev n \<noteq> NULL then
        arena_modify (book_arena b) (node_prev n) (\<lambda>m. m\<lparr>node_next := node_next n\<rparr>)
        else Some (book_arena b)) = Some a1"
    "(if node_next n \<noteq> NULL then
        arena_modify a1 (node_next n) (\<lambda>m. m\<lparr>node_prev := node_prev n\<rparr>) else Some a1) = Some a2"
    "(case mv of Some t \<Rightarrow> arena_modify a2 t (\<lambda>m. m\<lparr>node_acct_idx := node_acct_idx n\<rparr>)
        | None \<Rightarrow> Some a2) = Some a3"
    "arena_free_slot a3 s = Some a4" "arena_get a4 = unlink_heap (heap_of b) s n mv"
    "arena_wf a4" "arena_room a4" "length (arena_slots a4) = length (arena_slots (book_arena b))"
    using book_repD(1) [OF rep] live neighbour_live [OF rep live] moved by (rule unlink_arenaE)
  let ?l' = "unlink_level l s n"
  let ?m = "bt_insert (node_price n) ?l' (side_map b (node_side n))"
  have "unlink b s = Some (set_side_map (node_side n)
      (if level_is_empty ?l' then bt_remove (node_price n) ?m else ?m)
      (b\<lparr>book_arena := a4,
         book_order_index := hm_remove (node_account n, node_id n) (book_order_index b),
         book_accounts := hm_insert (node_account n) (e\<lparr>entry_slots := slots,
           entry_notional := entry_notional e - notional_of (node_price n) (node_qty n)\<rparr>)
           (book_accounts b)\<rparr>))"
    unfolding unlink_def live Option.bind.bind_lunit ar(1,2) bl e(1) sw Let_def prod.case
      mv_def [symmetric] ar(3,4) ..
  then show thesis
    by (rule that [OF _ e(1) sw mv_def l]) (simp_all add: frame_simps ar Let_def fun_eq_iff)
qed

lemma unlink_heap_at [simp]: "unlink_heap h s n mv s = None"
  by (simp add: unlink_heap_def)

lemma unlink_heap_None: "unlink_heap h s n mv x = None \<longleftrightarrow> x = s \<or> h x = None"
  by (simp add: unlink_heap_def)

text \<open>Everything but the links and the account position of the other nodes is kept.\<close>

lemma unlink_heap_keeps:
  assumes "x \<noteq> s"
  shows "qty_at (unlink_heap h s n mv) x = qty_at h x"
    and "notional_at (unlink_heap h s n mv) x = notional_at h x"
  using assms by (simp_all add: qty_at_def notional_at_def unlink_heap_def split: option.split)

lemma queue_length:
  assumes "book_rep b Q"
  shows "length (Q sd p) \<le> length (arena_slots (book_arena b))"
proof -
  have "length (Q sd p) = card (unat ` set (Q sd p))"
    by (simp add: card_image inj_on_unat distinct_card queues_okD(2) [OF book_repD(2) [OF assms]])
  also have "\<dots> \<le> card {..< length (arena_slots (book_arena b))}"
  proof (rule card_mono)
    show "unat ` set (Q sd p) \<subseteq> {..< length (arena_slots (book_arena b))}"
      by (auto simp: queues_okD(1) [OF book_repD(2) [OF assms]] dest: arena_get_bound)
  qed simp
  finally show ?thesis by simp
qed

lemma arena_slots_bound: "book_rep b Q \<Longrightarrow> length (arena_slots (book_arena b)) < 2 ^ 32"
  by (simp add: book_rep_def arena_wf_def)

lemma unlink_queues_ok:
  assumes rep: "book_rep b Q" and live: "heap_of b s = Some n"
  shows "queues_ok (unlink_heap (heap_of b) s n mv) (del_slot Q s)"
proof -
  let ?h = "heap_of b" and ?h' = "unlink_heap (heap_of b) s n mv"
  note q = queues_okD [OF book_repD(2) [OF rep]]
  obtain xs ys where Q: "Q (node_side n) (node_price n) = xs @ s # ys" and dist: "distinct (xs @ s # ys)"
    and pv: "node_prev n = last_or xs NULL" and nx: "node_next n = hd_or ys NULL"
    using rep live by (rule book_rep_split)
  have nul: "NULL \<notin> set (xs @ ys)"
    using queue_no_NULL [OF rep, of "node_side n" "node_price n"] Q by simp
  have link: "links ?h' x = map_option (\<lambda>(pv, nx).
      (if x = hd_or ys NULL then last_or xs NULL else pv,
       if x = last_or xs NULL then hd_or ys NULL else nx)) (links ?h x)" if "x \<noteq> s" for x
    using that pv nx by (cases "?h x") (auto simp: links_def unlink_heap_def)
  have "linked (links ?h') NULL (del_slot Q s sd p) NULL" for sd p
  proof (cases "sd = node_side n \<and> p = node_price n")
    case True
    have "linked (links ?h') NULL (xs @ ys) NULL"
    proof (rule linked_remove)
      show "linked (links ?h) NULL (xs @ s # ys) NULL" using q(3) Q by metis
      show "links ?h' x = map_option (\<lambda>(pv, nx). (if x = hd_or ys NULL then last_or xs NULL else pv,
          if x = last_or xs NULL then hd_or ys NULL else nx)) (links ?h x)" if "x \<in> set (xs @ ys)" for x
        using link [of x] that dist by auto
    qed (use dist nul in auto)
    then show ?thesis using True Q dist by (simp add: del_slot_def)
  next
    case False
    have notin: "x \<notin> set (Q (node_side n) (node_price n))" if "x \<in> set (Q sd p)" for x
      using that False by (auto simp: q(1))
    have s: "s \<notin> set (Q sd p)" using notin Q by auto
    have "linked (links ?h') NULL (Q sd p) NULL \<longleftrightarrow> linked (links ?h) NULL (Q sd p) NULL"
    proof (rule linked_cong)
      fix x assume x: "x \<in> set (Q sd p)"
      then have "x \<noteq> s" "x \<noteq> NULL" using s queue_no_NULL [OF rep] by auto
      moreover have "x \<noteq> last_or xs NULL" "x \<noteq> hd_or ys NULL"
        using notin [OF x] Q \<open>x \<noteq> NULL\<close> last_or_in [of xs NULL] hd_or_in [of ys NULL]
        by (cases "xs = []"; cases "ys = []"; auto)+
      ultimately show "links ?h' x = links ?h x"
        using link [of x] by (cases "links ?h x") auto
    qed
    then show ?thesis using q(3) s by (simp add: del_slot_def)
  qed
  moreover have "x \<in> set (del_slot Q s sd p) \<longleftrightarrow>
      (\<exists>m. ?h' x = Some m \<and> node_side m = sd \<and> node_price m = p)" for sd p x
    by (cases "?h x") (auto simp: del_slot_def q(1) unlink_heap_def)
  moreover have "distinct (del_slot Q s sd p)" for sd p
    by (simp add: del_slot_def distinct_removeAll q(2))
  ultimately show ?thesis by (simp add: queues_ok_def)
qed

text \<open>The cached aggregates of the level after the removal.\<close>

lemma unlink_level_view:
  assumes l: "level_view h (xs @ s # ys) = Some l" and live: "h s = Some n"
    and dist: "distinct (xs @ s # ys)"
    and "node_prev n = last_or xs NULL" and "node_next n = hd_or ys NULL"
    and len: "length (xs @ s # ys) < 2 ^ 32"
  shows "(if level_is_empty (unlink_level l s n) then None else Some (unlink_level l s n)) =
     level_view (unlink_heap h s n mv) (xs @ ys)"
proof -
  have sums: "(\<Sum>x\<leftarrow>xs @ ys. qty_at (unlink_heap h s n mv) x) =
      (\<Sum>x\<leftarrow>xs @ s # ys. qty_at h x) - node_qty n"
  proof -
    have "(\<Sum>x\<leftarrow>xs @ ys. qty_at (unlink_heap h s n mv) x) = (\<Sum>x\<leftarrow>xs @ ys. qty_at h x)"
      using dist by (intro sum_list_map_cong unlink_heap_keeps(1)) auto
    moreover have "qty_at h s = node_qty n" using live by (simp add: qty_at_def)
    ultimately show ?thesis by simp
  qed
  have count: "level_count (unlink_level l s n) = of_nat (length (xs @ ys))"
    using l by (auto simp: level_view_def unlink_level_def Let_def)
  have empty: "level_is_empty (unlink_level l s n) \<longleftrightarrow> xs @ ys = []"
  proof -
    have "unat (of_nat (length (xs @ ys)) :: u32) = length (xs @ ys)"
      using len by (intro unat_of_nat_u32) simp
    then have "(of_nat (length (xs @ ys)) :: u32) = 0 \<longleftrightarrow> length (xs @ ys) = 0"
      by (metis unat_eq_zero)
    then show ?thesis unfolding level_is_empty_def count by simp
  qed
  show ?thesis
  proof (cases "xs @ ys = []")
    case True
    then show ?thesis by (simp add: empty level_view_def)
  next
    case False
    have "unlink_level l s n = \<lparr>level_head = hd (xs @ ys), level_tail = last (xs @ ys),
        level_total_qty = (\<Sum>x\<leftarrow>xs @ ys. qty_at (unlink_heap h s n mv) x),
        level_count = of_nat (length (xs @ ys))\<rparr>"
    proof -
      have hd: "(if hd (xs @ s # ys) = s then node_next n else hd (xs @ s # ys)) = hd (xs @ ys)"
        using False dist assms(5) by (cases xs; cases ys) auto
      have last: "(if last (xs @ s # ys) = s then node_prev n else last (xs @ s # ys)) = last (xs @ ys)"
        using False dist assms(4) by (cases ys rule: rev_cases; cases xs rule: rev_cases) auto
      show ?thesis
        using l hd last unfolding sums
        by (auto simp: level_view_def unlink_level_def Let_def)
    qed
    then have "level_view (unlink_heap h s n mv) (xs @ ys) = Some (unlink_level l s n)"
      using False by (simp add: level_view_def)
    then show ?thesis using False empty by simp
  qed
qed

lemma unlink_index_ok:
  assumes idx: "index_ok h oi" and live: "h s = Some n"
  shows "index_ok (unlink_heap h s n mv) (hm_remove (node_account n, node_id n) oi)"
proof -
  note i = index_okD [OF idx]
  have uniq: "x = s" if "h x = Some m" "node_account m = node_account n" "node_id m = node_id n" for x m
    using i(2) [of "(node_account n, node_id n)" s] i(2) [of "(node_account n, node_id n)" x]
      that live by auto
  have "hm_get (hm_remove (node_account n, node_id n) oi) k = Some x \<longleftrightarrow>
      (\<exists>m. unlink_heap h s n mv x = Some m \<and> k = (node_account m, node_id m))" for k x
    using uniq [of x] live by (cases "h x") (auto simp: hm.get_rem i(2) unlink_heap_def)
  then show ?thesis using hm.ok_rem [OF i(1)] by (simp add: index_ok_def)
qed

text \<open>The account's slots after \<open>swap_remove\<close>: the last one has moved into the gap.\<close>

lemma unlink_entry_ok:
  assumes ok: "entry_ok h a e" and dist: "distinct (entry_slots e)" and live: "h s = Some n" and a: "a = node_account n"
    and sw: "swap_remove (unat (node_acct_idx n)) (entry_slots e) = Some (s, slots)"
    and mv: "mv = vec_get slots (unat (node_acct_idx n))"
  shows "entry_ok (unlink_heap h s n mv) a (e\<lparr>entry_slots := slots,
      entry_notional := entry_notional e - notional_of (node_price n) (node_qty n)\<rparr>)"
    and "mv = Some x \<Longrightarrow> h x = Some m \<Longrightarrow> node_account m = a"
proof -
  let ?h' = "unlink_heap h s n mv" and ?i = "unat (node_acct_idx n)" and ?last = "entry_slots e ! length slots"
  have i: "?i < length (entry_slots e)" and slots: "slots = butlast ((entry_slots e)[?i := last (entry_slots e)])"
    using sw by (auto simp: swap_remove_def split: if_splits)
  have len: "length (entry_slots e) = Suc (length slots)" using i by (simp add: slots)
  have last: "last (entry_slots e) = ?last" using len by (subst last_conv_nth) auto
  have nth: "slots ! j = (if j = ?i then ?last else entry_slots e ! j)" if "j < length slots" for j
    using nth_swap_removed [OF i, of j, folded slots, unfolded last] that by (simp add: len)
  have set: "set slots = set (entry_slots e) - {s}" by (rule set_swap_remove(1) [OF sw dist])
  have slot: "\<exists>m. h (entry_slots e ! j) = Some m \<and> node_account m = a \<and> unat (node_acct_idx m) = j"
    if "j \<le> length slots" for j using ok that len by (simp add: entry_ok_def)
  have mv_eq: "mv = (if ?i < length slots then Some ?last else None)" using nth [of ?i] by (simp add: mv vec_get_def)
  have "\<exists>m. ?h' (slots ! j) = Some m \<and> node_account m = a \<and> unat (node_acct_idx m) = j" if j: "j < length slots" for j
  proof -
    have ne: "slots ! j \<noteq> s" using set nth_mem [OF j] by blast
    obtain m where m: "h (entry_slots e ! j) = Some m" "node_account m = a" "unat (node_acct_idx m) = j"
      using slot [OF less_imp_le [OF j]] by blast
    obtain l where l: "h ?last = Some l" "node_account l = a" "unat (node_acct_idx l) = length slots"
      using slot [OF order.refl] by blast
    have "entry_slots e ! j \<noteq> ?last"
    proof
      assume "entry_slots e ! j = ?last"
      then show False using m l j by simp
    qed
    then show ?thesis using nth [OF j] ne j m l mv_eq by (cases "j = ?i") (simp_all add: unlink_heap_def)
  qed
  moreover have "(\<Sum>x\<leftarrow>slots. notional_at ?h' x) = (\<Sum>x\<leftarrow>slots. notional_at h x)"
    using set by (intro sum_list_map_cong unlink_heap_keeps(2)) auto
  moreover have "(\<Sum>x\<leftarrow>slots. notional_at h x) = entry_notional e - notional_of (node_price n) (node_qty n)"
    using sum_swap_remove [OF sw, of "notional_at h"] ok live by (simp add: notional_at_def entry_ok_def)
  ultimately show "entry_ok ?h' a (e\<lparr>entry_slots := slots,
      entry_notional := entry_notional e - notional_of (node_price n) (node_qty n)\<rparr>)"
    by (simp add: entry_ok_def)
  show "node_account m = a" if "mv = Some x" "h x = Some m" for x m
    using that slot [of "length slots"] by (auto simp: mv_eq split: if_splits)
qed

lemma unlink_accounts_ok:
  assumes acc: "accounts_ok h acc" and live: "h s = Some n"
    and e: "hm_get acc (node_account n) = Some e"
    and sw: "swap_remove (unat (node_acct_idx n)) (entry_slots e) = Some (s, slots)"
    and mv: "mv = vec_get slots (unat (node_acct_idx n))"
  shows "accounts_ok (unlink_heap h s n mv)
    (hm_insert (node_account n) (e\<lparr>entry_slots := slots,
       entry_notional := entry_notional e - notional_of (node_price n) (node_qty n)\<rparr>) acc)"
proof (rule accounts_ok_update [OF acc])
  note dist = accounts_ok_distinct [OF acc e]
  note entry = unlink_entry_ok [OF accounts_ok_entry [OF acc e] dist live refl sw mv]
  show "entry_ok (unlink_heap h s n mv) (node_account n) (e\<lparr>entry_slots := slots,
      entry_notional := entry_notional e - notional_of (node_price n) (node_qty n)\<rparr>)" by (rule entry(1))
  show "foreign_view (node_account n) (unlink_heap h s n mv) x = foreign_view (node_account n) h x" for x
  proof (cases "x = s \<or> h x = None")
    case True
    then show ?thesis using live by (auto simp: foreign_view_def unlink_heap_def)
  next
    case False
    then obtain m where m: "x \<noteq> s" "h x = Some m" by blast
    then have "mv = Some x \<longrightarrow> node_account m = node_account n" using entry(2) by blast
    then show ?thesis using m unlink_heap_keeps(2) [OF m(1)] by (simp add: foreign_view_def unlink_heap_def)
  qed
  show "x \<in> set (entry_slots (e\<lparr>entry_slots := slots,
      entry_notional := entry_notional e - notional_of (node_price n) (node_qty n)\<rparr>))"
    if "unlink_heap h s n mv x = Some m" "node_account m = node_account n" for x m
    using own_slots [OF acc e] that set_swap_remove(1) [OF sw dist] by (auto elim: unlink_heap_SomeE)
qed

theorem unlink_rep:
  assumes rep: "book_rep b Q" and live: "heap_of b s = Some n"
  obtains b' mv where "unlink b s = Some b'" and "book_rep b' (del_slot Q s)"
    and "heap_of b' = unlink_heap (heap_of b) s n mv"
    and "arena_room (book_arena b')"
    and "length (arena_slots (book_arena b')) = length (arena_slots (book_arena b))"
    and "book_last_trade b' = book_last_trade b"
proof -
  obtain b' e slots mv l where u: "unlink b s = Some b'"
    and e: "hm_get (book_accounts b) (node_account n) = Some e"
    and sw: "swap_remove (unat (node_acct_idx n)) (entry_slots e) = Some (s, slots)"
    and mv: "mv = vec_get slots (unat (node_acct_idx n))"
    and l: "level_view (heap_of b) (Q (node_side n) (node_price n)) = Some l"
    and heap: "heap_of b' = unlink_heap (heap_of b) s n mv"
    and wf: "arena_wf (book_arena b')" and room: "arena_room (book_arena b')"
    and len: "length (arena_slots (book_arena b')) = length (arena_slots (book_arena b))"
    and maps: "side_map b' = (\<lambda>sd. if sd = node_side n then
          (let l' = unlink_level l s n; m = bt_insert (node_price n) l' (side_map b sd)
           in if level_is_empty l' then bt_remove (node_price n) m else m) else side_map b sd)"
    and oi: "book_order_index b' = hm_remove (node_account n, node_id n) (book_order_index b)"
    and acc: "book_accounts b' = hm_insert (node_account n) (e\<lparr>entry_slots := slots,
        entry_notional := entry_notional e - notional_of (node_price n) (node_qty n)\<rparr>) (book_accounts b)"
    and lt: "book_last_trade b' = book_last_trade b"
    using rep live by (rule unlinkE)
  obtain xs ys where Q: "Q (node_side n) (node_price n) = xs @ s # ys" "distinct (xs @ s # ys)"
    "node_prev n = last_or xs NULL" "node_next n = hd_or ys NULL"
    using rep live by (rule book_rep_split)
  note lev = levels_okD [OF book_repD(3) [OF rep]] and q = queues_okD [OF book_repD(2) [OF rep]]
  have view: "(if level_is_empty (unlink_level l s n) then None else Some (unlink_level l s n)) =
      level_view (heap_of b') (xs @ ys)"
    unfolding heap
  proof (rule unlink_level_view)
    show "length (xs @ s # ys) < 2 ^ 32"
      using queue_length [OF rep, of "node_side n" "node_price n"] arena_slots_bound [OF rep] Q(1) by simp
  qed (use l Q live in simp_all)
  have "bt_get (side_map b' sd) p = level_view (heap_of b') (del_slot Q s sd p)" for sd p
  proof (cases "sd = node_side n \<and> p = node_price n")
    case True
    then show ?thesis using maps view Q(1,2)
      by (auto simp: Let_def bt.get_ins bt.get_rem del_slot_def split: if_splits)
  next
    case False
    have "bt_get (side_map b' sd) p = bt_get (side_map b sd) p"
      using maps False by (auto simp: Let_def bt.get_ins bt.get_rem)
    moreover have "s \<notin> set (Q sd p)" using False live by (auto simp: q(1))
    moreover have "level_view (heap_of b') (Q sd p) = level_view (heap_of b) (Q sd p)"
      using \<open>s \<notin> set (Q sd p)\<close> unfolding level_view_def heap
      by (metis (mono_tags, lifting) sum_list_map_cong unlink_heap_keeps(1))
    ultimately show ?thesis by (simp add: lev(2) del_slot_def)
  qed
  moreover have "bt_ok (side_map b' sd)" for sd
    using lev(1) maps by (simp add: Let_def bt.ok_ins bt.ok_rem)
  ultimately have "levels_ok (heap_of b') (del_slot Q s) b'" by (simp add: levels_ok_def)
  moreover have "qtys_ok (heap_of b')"
    unfolding qtys_ok_def heap
    by (metis unlink_heap_SomeE book_repD(6) [OF rep, unfolded qtys_ok_def])
  ultimately have "book_rep b' (del_slot Q s)"
    unfolding book_rep_def using wf heap oi acc unlink_queues_ok [OF rep live]
      unlink_index_ok [OF book_repD(4) [OF rep] live]
      unlink_accounts_ok [OF book_repD(5) [OF rep] live e sw mv] by simp
  then show thesis using that u heap room len lt by blast
qed

section \<open>Changing a resting quantity in place\<close>

abbreviation with_qty :: "heap \<Rightarrow> u32 \<Rightarrow> node \<Rightarrow> qty \<Rightarrow> heap" where
  "with_qty h s n q \<equiv> h(s := Some (n\<lparr>node_qty := q\<rparr>))"

lemma with_qty_queues_ok:
  assumes "queues_ok h Q" and "h s = Some n"
  shows "queues_ok (with_qty h s n q) Q"
proof -
  have "links (with_qty h s n q) = links h" using assms(2) by (auto simp: links_def fun_eq_iff)
  moreover have "(\<exists>m. with_qty h s n q x = Some m \<and> node_side m = sd \<and> node_price m = p) \<longleftrightarrow>
      (\<exists>m. h x = Some m \<and> node_side m = sd \<and> node_price m = p)" for x sd p
    using assms(2) by auto
  ultimately show ?thesis using assms(1) unfolding queues_ok_def by presburger
qed

lemma with_qty_accounts_ok:
  assumes acc: "accounts_ok h acc" and live: "h s = Some n" and e: "hm_get acc (node_account n) = Some e"
  shows "accounts_ok (with_qty h s n q) (hm_insert (node_account n) (e\<lparr>entry_notional :=
     entry_notional e - notional_of (node_price n) (node_qty n) + notional_of (node_price n) q\<rparr>) acc)"
    (is "accounts_ok ?h' (hm_insert _ ?e' acc)")
proof (rule accounts_ok_update [OF acc])
  have "(\<Sum>x\<leftarrow>entry_slots e. notional_at ?h' x) =
      (\<Sum>x\<leftarrow>entry_slots e. notional_at h x) - notional_at h s + notional_at ?h' s"
    using own_slots [OF acc e live refl]
    by (intro sum_list_update_at accounts_ok_distinct [OF acc e]) (auto simp: notional_at_def)
  then have "entry_notional ?e' = (\<Sum>x\<leftarrow>entry_slots e. notional_at ?h' x)"
    using accounts_ok_notional [OF acc e] live by (simp add: notional_at_def)
  moreover have "\<exists>m. ?h' (entry_slots e ! i) = Some m \<and> node_account m = node_account n \<and> unat (node_acct_idx m) = i"
    if i: "i < length (entry_slots e)" for i
  proof -
    obtain m where "h (entry_slots e ! i) = Some m" "node_account m = node_account n" "unat (node_acct_idx m) = i"
      using acc e i by (rule accounts_ok_slotD)
    then show ?thesis using live by (cases "entry_slots e ! i = s") simp_all
  qed
  ultimately show "entry_ok ?h' (node_account n) ?e'" by (simp add: entry_ok_def)
  show "foreign_view (node_account n) ?h' x = foreign_view (node_account n) h x" for x
    using live by (cases "x = s"; cases "h x") (simp_all add: foreign_view_def notional_at_def)
  show "x \<in> set (entry_slots ?e')" if "?h' x = Some m" "node_account m = node_account n" for x m
    using that own_slots [OF acc e, of x] live by (auto split: if_splits)
qed

lemma set_qty_rep:
  assumes rep: "book_rep b Q" and live: "heap_of b s = Some n" and q: "q \<noteq> 0"
    and l: "bt_get (side_map b (node_side n)) (node_price n) = Some l"
    and e: "hm_get (book_accounts b) (node_account n) = Some e"
    and wf: "arena_wf (book_arena b')"
    and heap: "heap_of b' = with_qty (heap_of b) s n q"
    and maps: "side_map b' = (\<lambda>sd. if sd = node_side n then bt_insert (node_price n)
       (l\<lparr>level_total_qty := level_total_qty l - node_qty n + q\<rparr>) (side_map b sd) else side_map b sd)"
    and oi: "book_order_index b' = book_order_index b"
    and acc: "book_accounts b' = hm_insert (node_account n) (e\<lparr>entry_notional :=
       entry_notional e - notional_of (node_price n) (node_qty n) + notional_of (node_price n) q\<rparr>)
       (book_accounts b)"
  shows "book_rep b' Q"
proof -
  note lev = levels_okD [OF book_repD(3) [OF rep]] and qu = queues_okD [OF book_repD(2) [OF rep]]
  have "bt_get (side_map b' sd) p = level_view (heap_of b') (Q sd p)" for sd p
  proof (cases "sd = node_side n \<and> p = node_price n")
    case True
    have s: "s \<in> set (Q sd p)" using True live by (simp add: qu(1))
    have "(\<Sum>x\<leftarrow>Q sd p. qty_at (heap_of b') x) =
        (\<Sum>x\<leftarrow>Q sd p. qty_at (heap_of b) x) - qty_at (heap_of b) s + qty_at (heap_of b') s"
      by (rule sum_list_update_at) (auto simp: qu(2) s heap qty_at_def)
    then have "(\<Sum>x\<leftarrow>Q sd p. qty_at (heap_of b') x) = level_total_qty l - node_qty n + q"
      using lev(2) [of sd p] l True live s by (auto simp: level_view_def heap qty_at_def split: if_splits)
    then show ?thesis using lev(2) [of sd p] l True s maps
      by (auto simp: level_view_def bt.get_ins split: if_splits)
  next
    case False
    have "s \<notin> set (Q sd p)" using False live by (auto simp: qu(1))
    then have "(\<Sum>x\<leftarrow>Q sd p. qty_at (heap_of b') x) = (\<Sum>x\<leftarrow>Q sd p. qty_at (heap_of b) x)"
      by (intro sum_list_map_cong) (auto simp: heap qty_at_def)
    then show ?thesis using lev(2) [of sd p] maps False by (auto simp: level_view_def bt.get_ins)
  qed
  moreover have "bt_ok (side_map b' sd)" for sd using lev(1) maps by (simp add: bt.ok_ins)
  moreover have "index_ok (heap_of b') (book_order_index b)"
  proof -
    have "(\<exists>m. heap_of b' x = Some m \<and> k = (node_account m, node_id m)) \<longleftrightarrow>
        (\<exists>m. heap_of b x = Some m \<and> k = (node_account m, node_id m))" for k x
      using live by (auto simp: heap)
    then show ?thesis using book_repD(4) [OF rep] by (simp add: index_ok_def)
  qed
  moreover have "qtys_ok (heap_of b')" using book_repD(6) [OF rep] q by (simp add: qtys_ok_def heap)
  ultimately show ?thesis
    using wf oi acc with_qty_queues_ok [OF book_repD(2) [OF rep] live, of q]
      with_qty_accounts_ok [OF book_repD(5) [OF rep] live e, of q] heap
    by (simp add: book_rep_def levels_ok_def)
qed

text \<open>The widening product is exact, so subtracting the filled part is exact too.\<close>

lemma ucast_sub_128:
  fixes q f :: u64
  assumes "f \<le> q"
  shows "(ucast (q - f) :: u128) = ucast q - ucast f"
proof -
  have "unat (ucast (q - f) :: u128) = unat q - unat f"
    using assms by (simp add: unat_sub)
  moreover have "unat ((ucast q :: u128) - ucast f) = unat q - unat f"
    using assms by (subst unat_sub) (simp_all add: word_le_nat_alt)
  ultimately show ?thesis by (metis unat_eq_unat_iff)
qed

lemma notional_of_sub: "f \<le> q \<Longrightarrow> notional_of p (q - f) = notional_of p q - notional_of p f"
  by (simp add: notional_of_def ucast_sub_128 right_diff_distrib)

text \<open>The level and the account entry of a live node exist.\<close>

lemma live_level:
  assumes "book_rep b Q" and "heap_of b s = Some n"
  obtains l where "bt_get (side_map b (node_side n)) (node_price n) = Some l"
proof -
  have "s \<in> set (Q (node_side n) (node_price n))"
    using assms(2) by (simp add: queues_okD(1) [OF book_repD(2) [OF assms(1)]])
  then have "level_view (heap_of b) (Q (node_side n) (node_price n)) \<noteq> None"
    by (auto simp: level_view_def)
  then show thesis using that levels_okD(2) [OF book_repD(3) [OF assms(1)]] by auto
qed

theorem reduce_rep:
  assumes rep: "book_rep b Q" and live: "heap_of b s = Some n" and f: "f < node_qty n"
  obtains b' where "reduce_resting_qty b s (node_side n) (node_price n) f = Some b'"
    and "book_rep b' Q"
    and "heap_of b' = with_qty (heap_of b) s n (node_qty n - f)"
    and "length (arena_slots (book_arena b')) = length (arena_slots (book_arena b))"
    and "arena_free (book_arena b') = arena_free (book_arena b)"
    and "book_last_trade b' = book_last_trade b"
proof -
  obtain a' where a': "arena_modify (book_arena b) s (\<lambda>n. n\<lparr>node_qty := node_qty n - f\<rparr>) = Some a'"
    "arena_get a' = (heap_of b)(s := Some (n\<lparr>node_qty := node_qty n - f\<rparr>))"
    "arena_free a' = arena_free (book_arena b)"
    "length (arena_slots a') = length (arena_slots (book_arena b))" "arena_wf a'"
    using book_repD(1) [OF rep] live by (rule arena_modifyE)
  obtain l where l: "bt_get (side_map b (node_side n)) (node_price n) = Some l"
    using rep live by (rule live_level)
  obtain e where e: "hm_get (book_accounts b) (node_account n) = Some e"
    using book_repD(5) [OF rep] live by (rule accounts_ok_liveD)
  define b' where "b' = set_side_map (node_side n) (bt_insert (node_price n)
      (l\<lparr>level_total_qty := level_total_qty l - f\<rparr>) (side_map b (node_side n)))
      (b\<lparr>book_arena := a', book_accounts := hm_insert (node_account n)
        (e\<lparr>entry_notional := entry_notional e - notional_of (node_price n) f\<rparr>) (book_accounts b)\<rparr>)"
  have red: "reduce_resting_qty b s (node_side n) (node_price n) f = Some b'"
    by (simp add: reduce_resting_qty_def live a'(1) l e b'_def)
  have "book_rep b' Q"
  proof (rule set_qty_rep [OF rep live _ l e])
    show "node_qty n - f \<noteq> 0" using f by simp
    show "side_map b' = (\<lambda>sd. if sd = node_side n then bt_insert (node_price n)
       (l\<lparr>level_total_qty := level_total_qty l - node_qty n + (node_qty n - f)\<rparr>) (side_map b sd)
       else side_map b sd)"
      by (auto simp: b'_def frame_simps fun_eq_iff)
    show "book_accounts b' = hm_insert (node_account n) (e\<lparr>entry_notional :=
       entry_notional e - notional_of (node_price n) (node_qty n) +
       notional_of (node_price n) (node_qty n - f)\<rparr>) (book_accounts b)"
      using f by (simp add: b'_def frame_simps notional_of_sub order.strict_implies_order)
  qed (simp_all add: b'_def frame_simps a')
  then show thesis using that [OF red] a' by (simp add: b'_def frame_simps)
qed

section \<open>rest\<close>

definition add_slot :: "queues \<Rightarrow> side \<Rightarrow> price \<Rightarrow> u32 \<Rightarrow> queues" where
  "add_slot Q sd p s = Q(sd := (Q sd)(p := Q sd p @ [s]))"

lemma add_slot_apply: "add_slot Q sd p s sd' p' = (if sd' = sd \<and> p' = p then Q sd p @ [s] else Q sd' p')"
  by (auto simp: add_slot_def)

definition rest_heap :: "heap \<Rightarrow> u32 \<Rightarrow> u32 \<Rightarrow> node \<Rightarrow> heap" where
  "rest_heap h t s n = (\<lambda>x. if x = s then Some (n\<lparr>node_prev := t\<rparr>)
     else map_option (\<lambda>m. if x = t then m\<lparr>node_next := s\<rparr> else m) (h x))"

lemma rest_heap_keeps:
  assumes "x \<noteq> s"
  shows "qty_at (rest_heap h t s n) x = qty_at h x"
    and "notional_at (rest_heap h t s n) x = notional_at h x"
  using assms by (auto simp: qty_at_def notional_at_def rest_heap_def split: option.split)

lemma rest_heap_SomeE:
  assumes "rest_heap h t s n x = Some m'" and "x \<noteq> s"
  obtains m where "h x = Some m" and "node_account m' = node_account m" and "node_id m' = node_id m"
    and "node_side m' = node_side m" and "node_price m' = node_price m" and "node_qty m' = node_qty m"
    and "node_acct_idx m' = node_acct_idx m"
  using assms by (cases "h x") (auto simp: rest_heap_def split: if_splits)

lemma rest_queues_ok:
  assumes q: "queues_ok h Q" and nul: "\<And>sd p. NULL \<notin> set (Q sd p)"
    and fresh: "h s = None" and nx: "node_next n = NULL"
    and sd: "node_side n = sd" and p: "node_price n = p"
  shows "queues_ok (rest_heap h (last_or (Q sd p) NULL) s n) (add_slot Q sd p s)"
proof -
  let ?t = "last_or (Q sd p) NULL" and ?Q' = "add_slot Q sd p s"
  let ?h' = "rest_heap h ?t s n"
  note qu = queues_okD [OF q]
  have s: "s \<notin> set (Q sd' p')" for sd' p' using fresh by (simp add: qu(1))
  have link: "links ?h' x = map_option (\<lambda>(pv, nx). (pv, if x = ?t then s else nx)) (links h x)"
    if "x \<noteq> s" for x
    using that by (cases "h x") (auto simp: links_def rest_heap_def)
  have "linked (links ?h') NULL (?Q' sd' p') NULL" for sd' p'
  proof (cases "sd' = sd \<and> p' = p")
    case True
    have "linked (links ?h') NULL (Q sd p @ [s]) NULL"
    proof (rule linked_snoc)
      show "links ?h' x = map_option (\<lambda>(pv, nx). (pv, if x = last (Q sd p) then s else nx)) (links h x)"
        if x: "x \<in> set (Q sd p)" for x
      proof -
        have "x \<noteq> s" and "Q sd p \<noteq> []" using x s by auto
        then show ?thesis using link [of x] by (simp add: last_or_def)
      qed
      show "links ?h' s = Some (?t, NULL)" by (simp add: links_def rest_heap_def nx)
    qed (use qu s in auto)
    then show ?thesis using True by (simp add: add_slot_apply)
  next
    case False
    have "linked (links ?h') NULL (Q sd' p') NULL \<longleftrightarrow> linked (links h) NULL (Q sd' p') NULL"
    proof (rule linked_cong)
      fix x assume x: "x \<in> set (Q sd' p')"
      then have "x \<notin> set (Q sd p)" using False by (auto simp: qu(1))
      then have "x \<noteq> ?t" using x nul [of sd' p'] last_or_in [of "Q sd p" NULL] by (cases "Q sd p = []") auto
      then show "links ?h' x = links h x"
        using x s link [of x] by (cases "links h x") auto
    qed
    then show ?thesis using False qu(3) by (auto simp: add_slot_apply)
  qed
  moreover have "x \<in> set (?Q' sd' p') \<longleftrightarrow>
      (\<exists>m. ?h' x = Some m \<and> node_side m = sd' \<and> node_price m = p')" for sd' p' x
    using s sd p fresh by (cases "h x"; cases "x = s") (auto simp: add_slot_apply qu(1) rest_heap_def)
  moreover have "distinct (?Q' sd' p')" for sd' p' using qu(2) s by (simp add: add_slot_apply)
  ultimately show ?thesis by (simp add: queues_ok_def)
qed

lemma rest_index_ok:
  assumes idx: "index_ok h oi" and fresh: "h s = None" and new: "hm_get oi (node_account n, node_id n) = None"
  shows "index_ok (rest_heap h t s n) (hm_insert (node_account n, node_id n) s oi)"
proof -
  note i = index_okD [OF idx]
  have none: "h x = Some m \<Longrightarrow> (node_account m, node_id m) \<noteq> (node_account n, node_id n)" for x m
    using i(2) [of "(node_account n, node_id n)" x] new by auto
  have "hm_get (hm_insert (node_account n, node_id n) s oi) k = Some x \<longleftrightarrow>
      (\<exists>m. rest_heap h t s n x = Some m \<and> k = (node_account m, node_id m))" for k x
    using none [of x] fresh
    by (cases "x = s"; cases "h x") (auto simp: hm.get_ins i(2) rest_heap_def)
  then show ?thesis using hm.ok_ins [OF i(1)] by (simp add: index_ok_def)
qed

lemma account_slots_length:
  assumes "accounts_ok (arena_get a) acc" and "hm_get acc c = Some e"
  shows "length (entry_slots e) \<le> length (arena_slots a)"
proof -
  have "length (entry_slots e) = card (unat ` set (entry_slots e))"
    by (simp add: card_image inj_on_unat distinct_card accounts_ok_distinct [OF assms])
  also have "\<dots> \<le> card {..< length (arena_slots a)}"
  proof (rule card_mono)
    show "unat ` set (entry_slots e) \<subseteq> {..< length (arena_slots a)}"
    proof
      fix i assume "i \<in> unat ` set (entry_slots e)"
      then obtain j where "j < length (entry_slots e)" "i = unat (entry_slots e ! j)"
        by (auto simp: in_set_conv_nth)
      then show "i \<in> {..< length (arena_slots a)}"
        using accounts_ok_slotD [OF assms] arena_get_bound by (metis lessThan_iff)
    qed
  qed simp
  finally show ?thesis by simp
qed

lemma rest_entry_ok:
  assumes ok: "entry_ok h (node_account n) e" and fresh: "h s = None"
    and idx: "unat (node_acct_idx n) = length (entry_slots e)"
  shows "entry_ok (rest_heap h t s n) (node_account n) (e\<lparr>entry_slots := entry_slots e @ [s],
      entry_notional := entry_notional e + notional_of (node_price n) (node_qty n)\<rparr>)"
proof -
  let ?h' = "rest_heap h t s n"
  have old: "\<exists>m. h (entry_slots e ! i) = Some m \<and> node_account m = node_account n \<and> unat (node_acct_idx m) = i"
    if "i < length (entry_slots e)" for i using ok that by (simp add: entry_ok_def)
  have ne: "x \<noteq> s" if "x \<in> set (entry_slots e)" for x using that old fresh by (force simp: in_set_conv_nth)
  have new: "?h' s = Some (n\<lparr>node_prev := t\<rparr>)" by (simp add: rest_heap_def)
  have "\<exists>m. ?h' ((entry_slots e @ [s]) ! i) = Some m \<and> node_account m = node_account n \<and> unat (node_acct_idx m) = i"
    if "i < Suc (length (entry_slots e))" for i
  proof (cases "i = length (entry_slots e)")
    case True
    then show ?thesis using new idx by simp
  next
    case False
    then have i: "i < length (entry_slots e)" using that by simp
    then obtain m where "h (entry_slots e ! i) = Some m" "node_account m = node_account n" "unat (node_acct_idx m) = i"
      using old by blast
    then show ?thesis using ne [OF nth_mem [OF i]] i
      by (cases "entry_slots e ! i = t") (simp_all add: rest_heap_def nth_append)
  qed
  moreover have "(\<Sum>x\<leftarrow>entry_slots e. notional_at ?h' x) = (\<Sum>x\<leftarrow>entry_slots e. notional_at h x)"
    using ne by (intro sum_list_map_cong rest_heap_keeps(2))
  moreover have "notional_at ?h' s = notional_of (node_price n) (node_qty n)" using new by (simp add: notional_at_def)
  ultimately show ?thesis using ok by (simp add: entry_ok_def)
qed

lemma rest_accounts_ok:
  assumes acc: "accounts_ok h acc" and fresh: "h s = None"
    and e0: "e0 = (case hm_get acc (node_account n) of None \<Rightarrow> account_entry_default | Some e \<Rightarrow> e)"
    and idx: "unat (node_acct_idx n) = length (entry_slots e0)"
  shows "accounts_ok (rest_heap h t s n) (hm_insert (node_account n)
     (e0\<lparr>entry_slots := entry_slots e0 @ [s],
         entry_notional := entry_notional e0 + notional_of (node_price n) (node_qty n)\<rparr>) acc)"
    (is "accounts_ok ?h' (hm_insert ?a ?e' acc)")
proof (rule accounts_ok_update [OF acc])
  have "entry_ok h ?a e0"
    using e0 accounts_ok_entry [OF acc, of ?a] by (cases "hm_get acc ?a") (auto simp: entry_ok_def account_entry_default_def)
  then show "entry_ok ?h' ?a ?e'" using fresh idx by (rule rest_entry_ok)
  show "foreign_view ?a ?h' x = foreign_view ?a h x" for x
    using fresh rest_heap_keeps(2) [of x s h t n]
    by (cases "x = s"; cases "h x") (simp_all add: foreign_view_def rest_heap_def)
  show "x \<in> set (entry_slots ?e')" if x: "?h' x = Some m" and m: "node_account m = ?a" for x m
  proof (cases "x = s")
    case False
    with x obtain m0 where m0: "h x = Some m0" "node_account m = node_account m0" by (rule rest_heap_SomeE)
    obtain e where "hm_get acc (node_account m0) = Some e" using acc m0(1) by (rule accounts_ok_liveD)
    then show ?thesis using own_slots [OF acc _ m0(1)] m0(2) m e0 by simp
  qed simp
qed

text \<open>The cached aggregates of the level after the append.\<close>

lemma rest_level_view:
  assumes old: "(case bt_get m p of None \<Rightarrow> level_default | Some l \<Rightarrow> l) = l"
    and get: "bt_get m p = level_view h q"
    and s: "s \<notin> set q" and nul: "NULL \<notin> set q"
  shows "level_view (rest_heap h t s n) (q @ [s]) =
      Some \<lparr>level_head = (if level_tail l = NULL then s else level_head l), level_tail = s,
            level_total_qty = level_total_qty l + node_qty n, level_count = level_count l + 1\<rparr>"
    and "level_tail l = last_or q NULL"
proof -
  have tail: "level_tail l = last_or q NULL"
    using old get by (cases "q = []") (auto simp: level_view_def level_default_def last_or_def)
  have "(\<Sum>x\<leftarrow>q. qty_at (rest_heap h t s n) x) = (\<Sum>x\<leftarrow>q. qty_at h x)"
    using s by (intro sum_list_map_cong rest_heap_keeps(1)) auto
  moreover have "qty_at (rest_heap h t s n) s = node_qty n" by (simp add: qty_at_def rest_heap_def)
  moreover have "last q \<noteq> NULL" if "q \<noteq> []" using that nul last_in_set [OF that] by metis
  ultimately show "level_view (rest_heap h t s n) (q @ [s]) =
      Some \<lparr>level_head = (if level_tail l = NULL then s else level_head l), level_tail = s,
            level_total_qty = level_total_qty l + node_qty n, level_count = level_count l + 1\<rparr>"
    using old get by (cases "q = []") (auto simp: level_view_def level_default_def)
  show "level_tail l = last_or q NULL" by (rule tail)
qed

text \<open>The arena after the insertion and the two link writes.\<close>

lemma rest_arenaE:
  assumes wf: "arena_wf a" and room: "arena_room a" and live: "t \<noteq> NULL \<Longrightarrow> arena_get a t \<noteq> None"
    and pv: "node_prev n = NULL"
  obtains a1 a' s where "arena_insert a n = Some (a1, s)" and "arena_get a s = None"
    and "(if t \<noteq> NULL then do {
            a2 \<leftarrow> arena_modify a1 t (\<lambda>m. m\<lparr>node_next := s\<rparr>);
            arena_modify a2 s (\<lambda>m. m\<lparr>node_prev := t\<rparr>)
          } else Some a1) = Some a'"
    and "arena_get a' = rest_heap (arena_get a) t s n" and "arena_wf a'" and "s \<noteq> NULL"
    and "length (arena_slots a') \<le> Suc (length (arena_slots a))"
proof -
  obtain a1 s where a1: "arena_insert a n = Some (a1, s)" "arena_get a s = None" "s \<noteq> NULL"
    "arena_get a1 = (arena_get a)(s := Some n)" "arena_wf a1"
    "length (arena_slots a1) \<le> Suc (length (arena_slots a))"
    using wf room by (rule arena_insertE)
  show thesis
  proof (cases "t = NULL")
    case True
    have "arena_get a1 = rest_heap (arena_get a) t s n"
    proof
      fix x show "arena_get a1 x = rest_heap (arena_get a) t s n x"
        using a1(4) True pv live_not_NULL [OF wf, of x]
        by (cases "arena_get a x") (auto simp: rest_heap_def)
    qed
    then show thesis using that [OF a1(1,2) _ _ a1(5,3,6)] True by simp
  next
    case False
    then obtain m where m: "arena_get a t = Some m" using live by auto
    then have "t \<noteq> s" using a1(2) by auto
    then have "arena_get a1 t = Some m" using m a1(4) by simp
    with a1(5) obtain a2 where a2: "arena_modify a1 t (\<lambda>m. m\<lparr>node_next := s\<rparr>) = Some a2"
      "arena_get a2 = (arena_get a1)(t := Some (m\<lparr>node_next := s\<rparr>))"
      "length (arena_slots a2) = length (arena_slots a1)" "arena_wf a2"
      by (rule arena_modifyE)
    have "arena_get a2 s = Some n" using a2(2) a1(4) \<open>t \<noteq> s\<close> by simp
    with a2(4) obtain a3 where a3: "arena_modify a2 s (\<lambda>m. m\<lparr>node_prev := t\<rparr>) = Some a3"
      "arena_get a3 = (arena_get a2)(s := Some (n\<lparr>node_prev := t\<rparr>))"
      "length (arena_slots a3) = length (arena_slots a2)" "arena_wf a3"
      by (rule arena_modifyE)
    have "arena_get a3 = rest_heap (arena_get a) t s n"
    proof
      fix x show "arena_get a3 x = rest_heap (arena_get a) t s n x"
        using a3(2) a2(2) a1(4) m \<open>t \<noteq> s\<close> by (cases "arena_get a x") (auto simp: rest_heap_def)
    qed
    then show thesis using that [OF a1(1,2) _ _ a3(4) a1(3)] False a2 a3 a1(6) by simp
  qed
qed

definition new_node :: "account_id \<Rightarrow> order_id \<Rightarrow> side \<Rightarrow> price \<Rightarrow> qty \<Rightarrow> u32 \<Rightarrow> node" where
  "new_node a oid sd p q i = \<lparr>node_id = oid, node_account = a, node_price = p, node_qty = q,
     node_side = sd, node_prev = NULL, node_next = NULL, node_acct_idx = i\<rparr>"

lemma new_node_simps [simp]:
  "node_id (new_node a oid sd p q i) = oid" "node_account (new_node a oid sd p q i) = a"
  "node_price (new_node a oid sd p q i) = p" "node_qty (new_node a oid sd p q i) = q"
  "node_side (new_node a oid sd p q i) = sd" "node_prev (new_node a oid sd p q i) = NULL"
  "node_next (new_node a oid sd p q i) = NULL" "node_acct_idx (new_node a oid sd p q i) = i"
  by (simp_all add: new_node_def)

text \<open>\<open>rest\<close> on the whole book: the fields it leaves.\<close>

lemma restE:
  assumes rep: "book_rep b Q" and room: "arena_room (book_arena b)"
  obtains b' s i e0 l where "rest b a oid sd p q = Some b'" and "heap_of b s = None" and "arena_wf (book_arena b')"
    and "heap_of b' = rest_heap (heap_of b) (last_or (Q sd p) NULL) s (new_node a oid sd p q i)"
    and "e0 = (case hm_get (book_accounts b) a of None \<Rightarrow> account_entry_default | Some e \<Rightarrow> e)"
    and "unat i = length (entry_slots e0)"
    and "l = (case bt_get (side_map b sd) p of None \<Rightarrow> level_default | Some l \<Rightarrow> l)"
    and "side_map b' = (side_map b)(sd := bt_insert p
      \<lparr>level_head = (if level_tail l = NULL then s else level_head l), level_tail = s,
       level_total_qty = level_total_qty l + q, level_count = level_count l + 1\<rparr> (side_map b sd))"
    and "book_order_index b' = hm_insert (a, oid) s (book_order_index b)"
    and "book_accounts b' = hm_insert a (e0\<lparr>entry_slots := entry_slots e0 @ [s],
      entry_notional := entry_notional e0 + notional_of p q\<rparr>) (hm_insert a e0 (book_accounts b))"
    and "length (arena_slots (book_arena b')) \<le> Suc (length (arena_slots (book_arena b)))"
    and "book_last_trade b' = book_last_trade b"
proof -
  define e0 where "e0 = (case hm_get (book_accounts b) a of None \<Rightarrow> account_entry_default | Some e \<Rightarrow> e)"
  define i where "i = (of_nat (length (entry_slots e0)) :: u32)"
  define n where "n = new_node a oid sd p q i"
  define l where "l = (case bt_get (side_map b sd) p of None \<Rightarrow> level_default | Some l \<Rightarrow> l)"
  have "length (entry_slots e0) < 2 ^ 32"
    using account_slots_length [OF book_repD(5) [OF rep], of a] arena_slots_bound [OF rep]
    by (cases "hm_get (book_accounts b) a") (auto simp: e0_def account_entry_default_def)
  then have idx: "unat i = length (entry_slots e0)" by (simp add: i_def)
  have tail: "level_tail l = last_or (Q sd p) NULL"
    using levels_okD(2) [OF book_repD(3) [OF rep], of sd p] by (cases "Q sd p = []")
      (auto simp: l_def level_view_def level_default_def last_or_def)
  have pv: "node_prev n = NULL" by (simp add: n_def)
  have "last_or (Q sd p) NULL \<noteq> NULL \<Longrightarrow> heap_of b (last_or (Q sd p) NULL) \<noteq> None"
    using queues_okD(1) [OF book_repD(2) [OF rep], of "last_or (Q sd p) NULL" sd p] last_or_in [of "Q sd p" NULL]
    by (cases "Q sd p = []") auto
  then obtain a1 s a' where ar: "arena_insert (book_arena b) n = Some (a1, s)" "heap_of b s = None"
    "(if last_or (Q sd p) NULL \<noteq> NULL then do {
        a2 \<leftarrow> arena_modify a1 (last_or (Q sd p) NULL) (\<lambda>m. m\<lparr>node_next := s\<rparr>);
        arena_modify a2 s (\<lambda>m. m\<lparr>node_prev := last_or (Q sd p) NULL\<rparr>)
      } else Some a1) = Some a'"
    "arena_get a' = rest_heap (heap_of b) (last_or (Q sd p) NULL) s n" "arena_wf a'"
    "length (arena_slots a') \<le> Suc (length (arena_slots (book_arena b)))"
    using rest_arenaE [OF book_repD(1) [OF rep] room _ pv] by blast
  define l' where "l' = \<lparr>level_head = (if level_tail l = NULL then s else level_head l), level_tail = s,
      level_total_qty = level_total_qty l + q, level_count = level_count l + 1\<rparr>"
  define e' where "e' = e0\<lparr>entry_slots := entry_slots e0 @ [s],
      entry_notional := entry_notional e0 + notional_of p q\<rparr>"
  have "rest b a oid sd p q = Some (set_side_map sd (bt_insert p l' (side_map b sd))
      (b\<lparr>book_arena := a', book_order_index := hm_insert (a, oid) s (book_order_index b),
         book_accounts := hm_insert a e' (hm_insert a e0 (book_accounts b))\<rparr>))"
    unfolding rest_def Let_def e0_def [symmetric] i_def [symmetric] l_def [symmetric]
      new_node_def [symmetric] n_def [symmetric] ar(1)
    using ar(3) unfolding tail [symmetric]
    by (cases l; cases "level_tail l = NULL") (auto simp: bind_eq_Some_iff l'_def e'_def)
  then show thesis
    by (rule that [OF _ ar(2) _ _ e0_def idx l_def])
      (simp_all add: frame_simps ar n_def l'_def e'_def fun_eq_iff)
qed

text \<open>The level that gains an order, and those that do not.\<close>

lemma rest_levels_ok:
  assumes lev: "levels_ok h Q b" and fresh: "\<And>sd p. s \<notin> set (Q sd p)" and nul: "\<And>sd p. NULL \<notin> set (Q sd p)"
    and n: "node_qty n = q" and l: "l = (case bt_get (side_map b sd) p of None \<Rightarrow> level_default | Some l \<Rightarrow> l)"
    and maps: "side_map b' = (side_map b)(sd := bt_insert p
      \<lparr>level_head = (if level_tail l = NULL then s else level_head l), level_tail = s,
       level_total_qty = level_total_qty l + q, level_count = level_count l + 1\<rparr> (side_map b sd))"
  shows "levels_ok (rest_heap h t s n) (add_slot Q sd p s) b'"
proof -
  let ?h' = "rest_heap h t s n"
  note lv = levels_okD [OF lev]
  have "level_view ?h' (Q sd' p') = level_view h (Q sd' p')" for sd' p'
  proof -
    have "(\<Sum>x\<leftarrow>Q sd' p'. qty_at ?h' x) = (\<Sum>x\<leftarrow>Q sd' p'. qty_at h x)"
      using fresh [of sd' p'] by (intro sum_list_map_cong rest_heap_keeps(1)) auto
    then show ?thesis by (simp add: level_view_def)
  qed
  then have "bt_get (side_map b' sd') p' = level_view ?h' (add_slot Q sd p s sd' p')" for sd' p'
    using lv(2) rest_level_view(1) [OF l [symmetric] lv(2) fresh nul, of t n] n
    by (auto simp: maps bt.get_ins add_slot_apply)
  moreover have "bt_ok (side_map b' sd')" for sd' using lv(1) by (simp add: maps bt.ok_ins)
  ultimately show ?thesis by (simp add: levels_ok_def)
qed

lemma rest_qtys_ok:
  assumes "qtys_ok h" and "node_qty n \<noteq> 0"
  shows "qtys_ok (rest_heap h t s n)"
  unfolding qtys_ok_def
proof (intro allI impI)
  fix x m assume m: "rest_heap h t s n x = Some m"
  show "node_qty m \<noteq> 0"
  proof (cases "x = s")
    case True
    then show ?thesis using m assms(2) by (auto simp: rest_heap_def)
  next
    case False
    obtain m0 where "h x = Some m0" "node_qty m = node_qty m0" using m False by (metis rest_heap_SomeE)
    then show ?thesis using assms(1) by (simp add: qtys_ok_def)
  qed
qed

theorem rest_rep:
  assumes rep: "book_rep b Q" and room: "arena_room (book_arena b)"
    and new: "hm_get (book_order_index b) (a, oid) = None" and q: "q \<noteq> 0"
  obtains b' s i where "rest b a oid sd p q = Some b'" and "book_rep b' (add_slot Q sd p s)"
    and "heap_of b s = None"
    and "heap_of b' = rest_heap (heap_of b) (last_or (Q sd p) NULL) s (new_node a oid sd p q i)"
    and "length (arena_slots (book_arena b')) \<le> Suc (length (arena_slots (book_arena b)))"
    and "book_last_trade b' = book_last_trade b"
proof (rule restE [OF rep room, of a oid sd p q])
  fix b' s i l and e0 :: account_entry
  let ?n = "new_node a oid sd p q i"
  let ?e' = "e0\<lparr>entry_slots := entry_slots e0 @ [s], entry_notional := entry_notional e0 + notional_of p q\<rparr>"
  assume run: "rest b a oid sd p q = Some b'" and s: "heap_of b s = None" and wf: "arena_wf (book_arena b')"
    and heap: "heap_of b' = rest_heap (heap_of b) (last_or (Q sd p) NULL) s ?n"
    and e0: "e0 = (case hm_get (book_accounts b) a of None \<Rightarrow> account_entry_default | Some e \<Rightarrow> e)"
    and idx: "unat i = length (entry_slots e0)"
    and l: "l = (case bt_get (side_map b sd) p of None \<Rightarrow> level_default | Some l \<Rightarrow> l)"
    and maps: "side_map b' = (side_map b)(sd := bt_insert p
      \<lparr>level_head = (if level_tail l = NULL then s else level_head l), level_tail = s,
       level_total_qty = level_total_qty l + q, level_count = level_count l + 1\<rparr> (side_map b sd))"
    and oi: "book_order_index b' = hm_insert (a, oid) s (book_order_index b)"
    and accs: "book_accounts b' = hm_insert a ?e' (hm_insert a e0 (book_accounts b))"
    and rest: "length (arena_slots (book_arena b')) \<le> Suc (length (arena_slots (book_arena b)))"
      "book_last_trade b' = book_last_trade b"
  note acc = book_repD(5) [OF rep] and nul = queue_no_NULL [OF rep]
  have fresh: "s \<notin> set (Q sd' p')" for sd' p' using s by (simp add: queues_okD(1) [OF book_repD(2) [OF rep]])
  have "levels_ok (heap_of b') (add_slot Q sd p s) b'"
    unfolding heap by (rule rest_levels_ok [OF book_repD(3) [OF rep] fresh nul _ l maps]) simp
  moreover have "queues_ok (heap_of b') (add_slot Q sd p s)"
    unfolding heap by (rule rest_queues_ok [OF book_repD(2) [OF rep] nul s]) simp_all
  moreover have "index_ok (heap_of b') (book_order_index b')"
    unfolding heap oi using rest_index_ok [OF book_repD(4) [OF rep] s, of ?n] new by simp
  moreover have "accounts_ok (heap_of b') (hm_insert a ?e' (book_accounts b))"
    unfolding heap using rest_accounts_ok [OF acc s, of e0 ?n] idx e0 by simp
  moreover have "hm_get (book_accounts b') = hm_get (hm_insert a ?e' (book_accounts b))"
    by (simp add: accs hm.get_ins)
  moreover have "hm_ok (book_accounts b')" using acc by (simp add: accs accounts_ok_def hm.ok_ins)
  moreover have "qtys_ok (heap_of b')"
    unfolding heap by (rule rest_qtys_ok [OF book_repD(6) [OF rep]]) (simp add: q)
  ultimately have "book_rep b' (add_slot Q sd p s)" using wf by (simp add: book_rep_def accounts_ok_def)
  then show thesis using that [OF run _ s heap] rest by blast
qed

end
