(* ===== verification/Book_Abs.thy ===== *)
theory Book_Abs
  imports Book_Prims
begin

text \<open>
  The abstract view of a book: for each side one list of resting orders in priority order,
  best price first and oldest first within a price. \<open>queue_of\<close> reads the queue of a
  level by following its links, \<open>resting\<close> concatenates the queues in priority order,
  and \<open>book_inv\<close> is the representation invariant with the ghost queues read off the
  book. The lemmas say what each primitive does to the view.
\<close>

record rorder =
  r_account :: account_id
  r_id :: order_id
  r_price :: price
  r_qty :: qty

definition rkey :: "rorder \<Rightarrow> account_id \<times> order_id" where
  "rkey r = (r_account r, r_id r)"

definition order_of :: "node \<Rightarrow> rorder" where
  "order_of n = \<lparr>r_account = node_account n, r_id = node_id n, r_price = node_price n, r_qty = node_qty n\<rparr>"

lemma order_of_simps [simp]:
  "r_account (order_of n) = node_account n" "r_id (order_of n) = node_id n"
  "r_price (order_of n) = node_price n" "r_qty (order_of n) = node_qty n"
  "rkey (order_of n) = (node_account n, node_id n)"
  by (simp_all add: order_of_def rkey_def)

section \<open>Reading the queues\<close>

fun chain :: "heap \<Rightarrow> nat \<Rightarrow> u32 \<Rightarrow> u32 list" where
  "chain h 0 c = []"
| "chain h (Suc k) c = (case h c of None \<Rightarrow> [] | Some n \<Rightarrow> c # chain h k (node_next n))"

definition queue_of :: "book \<Rightarrow> queues" where
  "queue_of b sd p = (case bt_get (side_map b sd) p of
     None \<Rightarrow> []
   | Some l \<Rightarrow> chain (heap_of b) (length (arena_slots (book_arena b))) (level_head l))"

lemma chain_linked:
  assumes "linked (links h) p q NULL" and "h NULL = None" and "length q \<le> k"
  shows "chain h k (hd_or q NULL) = q"
  using assms
proof (induction q arbitrary: p k)
  case Nil
  then show ?case by (cases k) auto
next
  case (Cons x q)
  then obtain k' where k: "k = Suc k'" "length q \<le> k'" by (cases k) auto
  obtain n where "h x = Some n" "node_next n = hd_or q NULL" using Cons.prems(1) by (auto simp: links_def)
  then show ?case using Cons k by auto
qed

lemma queue_of_eq: "book_rep b Q \<Longrightarrow> queue_of b = Q"
proof (intro ext)
  fix sd p assume rep: "book_rep b Q"
  have "chain (heap_of b) (length (arena_slots (book_arena b))) (hd_or (Q sd p) NULL) = Q sd p"
    using queues_okD(3) [OF book_repD(2) [OF rep]] arena_get_NULL [OF book_repD(1) [OF rep]]
      queue_length [OF rep] by (rule chain_linked)
  then show "queue_of b sd p = Q sd p"
    using levels_okD(2) [OF book_repD(3) [OF rep], of sd p]
    by (cases "Q sd p") (auto simp: queue_of_def level_view_def)
qed

definition book_inv :: "book \<Rightarrow> bool" where
  "book_inv b \<longleftrightarrow> book_rep b (queue_of b)"

lemma book_invI [inv_intros]: "book_rep b Q \<Longrightarrow> book_inv b"
  by (simp add: book_inv_def queue_of_eq)

lemma book_inv_new [simp]: "book_inv book_new"
  using book_rep_new by (rule book_invI)

text \<open>Fields outside the representation.\<close>

lemma book_rep_cong:
  assumes "book_arena b' = book_arena b" and "side_map b' = side_map b"
    and "book_order_index b' = book_order_index b" and "book_accounts b' = book_accounts b"
  shows "book_rep b' Q \<longleftrightarrow> book_rep b Q" and "queue_of b' = queue_of b"
proof -
  show "book_rep b' Q \<longleftrightarrow> book_rep b Q" using assms by (simp add: book_rep_def levels_ok_def)
  show "queue_of b' = queue_of b"
    unfolding queue_of_def fun_eq_iff assms(1,2) by simp
qed

section \<open>The priority lists\<close>

fun prio_prices :: "book \<Rightarrow> side \<Rightarrow> price list" where
  "prio_prices b Buy = rev (map fst (book_bids b))"
| "prio_prices b Sell = map fst (book_asks b)"

definition prio_slots :: "book \<Rightarrow> side \<Rightarrow> u32 list" where
  "prio_slots b sd = concat (map (queue_of b sd) (prio_prices b sd))"

definition orders_at :: "heap \<Rightarrow> u32 list \<Rightarrow> rorder list" where
  "orders_at h q = map (\<lambda>s. order_of (the (h s))) q"

lemma orders_at_append: "orders_at h (xs @ ys) = orders_at h xs @ orders_at h ys"
  by (simp add: orders_at_def)

lemma orders_at_Cons: "orders_at h (x # xs) = orders_at h [x] @ orders_at h xs"
  by (simp add: orders_at_def)

definition resting :: "book \<Rightarrow> side \<Rightarrow> rorder list" where
  "resting b sd = orders_at (heap_of b) (prio_slots b sd)"

text \<open>\<open>ahead sd p p'\<close>: on side \<open>sd\<close>, price \<open>p\<close> is at least as good as \<open>p'\<close>.\<close>

fun ahead :: "side \<Rightarrow> price \<Rightarrow> price \<Rightarrow> bool" where
  "ahead Buy p p' \<longleftrightarrow> p' \<le> p"
| "ahead Sell p p' \<longleftrightarrow> p \<le> p'"

lemma ahead_refl [simp]: "ahead sd p p" by (cases sd) auto

lemma ahead_trans: "ahead sd p q \<Longrightarrow> ahead sd q r \<Longrightarrow> ahead sd p r" by (cases sd) auto

lemma ahead_total: "ahead sd p q \<or> ahead sd q p" by (cases sd) auto

lemma ahead_antisym: "ahead sd p q \<Longrightarrow> ahead sd q p \<Longrightarrow> p = q" by (cases sd) auto

definition strictly_ahead :: "side \<Rightarrow> price \<Rightarrow> price \<Rightarrow> bool" where
  "strictly_ahead sd p q \<longleftrightarrow> ahead sd p q \<and> p \<noteq> q"

lemma strictly_ahead_iff: "strictly_ahead sd p q \<longleftrightarrow> \<not> ahead sd q p"
  by (cases sd) (auto simp: strictly_ahead_def)

lemma ahead_weaken: "\<not> ahead sd q p \<Longrightarrow> ahead sd p q"
  using ahead_total by blast

lemma prio_prices_set: "set (prio_prices b sd) = fst ` set (side_map b sd)"
  by (cases sd) auto

lemma prio_prices_sorted:
  assumes "bt_ok (side_map b sd)"
  shows "sorted_wrt (strictly_ahead sd) (prio_prices b sd)"
proof (cases sd)
  case Buy
  then have "sorted_wrt (<) (map fst (book_bids b))" using assms by (simp add: bt_ok_def)
  then have "sorted_wrt (\<lambda>p q. q < p) (rev (map fst (book_bids b)))" by (simp add: sorted_wrt_rev)
  then have "sorted_wrt (strictly_ahead Buy) (rev (map fst (book_bids b)))"
    by (rule sorted_wrt_mono_rel [rotated]) (auto simp: strictly_ahead_def)
  then show ?thesis using Buy by simp
next
  case Sell
  then have "sorted_wrt (<) (map fst (book_asks b))" using assms by (simp add: bt_ok_def)
  then have "sorted_wrt (strictly_ahead Sell) (map fst (book_asks b))"
    by (rule sorted_wrt_mono_rel [rotated]) (auto simp: strictly_ahead_def)
  then show ?thesis using Sell by simp
qed

text \<open>The prices of a side are exactly the prices with a non-empty queue.\<close>

lemma prio_prices_queue:
  assumes "book_rep b Q"
  shows "p \<in> set (prio_prices b sd) \<longleftrightarrow> Q sd p \<noteq> []"
proof -
  have "p \<in> set (prio_prices b sd) \<longleftrightarrow> bt_get (side_map b sd) p \<noteq> None"
    by (simp add: prio_prices_set bt_get_None_iff del: not_None_eq)
  then show ?thesis using levels_okD(2) [OF book_repD(3) [OF assms]] by (simp add: level_view_def)
qed

text \<open>
  A sorted list of prices that covers the non-empty queues gives the same priority list as the
  prices of the book: empty queues contribute nothing.
\<close>

lemma sorted_wrt_strictly_unique:
  assumes "sorted_wrt (strictly_ahead sd) xs" and "sorted_wrt (strictly_ahead sd) ys"
    and "set xs = set ys"
  shows "xs = ys"
  using assms
proof (induction xs arbitrary: ys)
  case Nil
  then show ?case by simp
next
  case (Cons x xs)
  then obtain y zs where ys: "ys = y # zs" by (cases ys) auto
  have "x = y"
    using Cons.prems ys by (auto simp: strictly_ahead_def dest: ahead_antisym)
  moreover have "x \<notin> set xs" "y \<notin> set zs" using Cons.prems ys by (auto simp: strictly_ahead_def)
  ultimately show ?case using Cons ys by (metis insert_ident list.simps(15) sorted_wrt.simps(2))
qed

lemma sorted_strictly_distinct: "sorted_wrt (strictly_ahead sd) xs \<Longrightarrow> distinct xs"
  by (induction xs) (auto simp: strictly_ahead_def)

lemma prio_slots_eq:
  assumes rep: "book_rep b Q" and sorted: "sorted_wrt (strictly_ahead sd) ps"
    and cover: "\<And>p. Q sd p \<noteq> [] \<Longrightarrow> p \<in> set ps"
  shows "prio_slots b sd = concat (map (Q sd) ps)"
proof -
  have "prio_prices b sd = filter (\<lambda>p. Q sd p \<noteq> []) ps"
  proof (rule sorted_wrt_strictly_unique)
    show "sorted_wrt (strictly_ahead sd) (prio_prices b sd)"
      by (rule prio_prices_sorted [OF levels_okD(1) [OF book_repD(3) [OF rep]]])
    show "sorted_wrt (strictly_ahead sd) (filter (\<lambda>p. Q sd p \<noteq> []) ps)"
      using sorted by (rule sorted_wrt_filter)
    show "set (prio_prices b sd) = set (filter (\<lambda>p. Q sd p \<noteq> []) ps)"
      using prio_prices_queue [OF rep] cover by auto
  qed
  then show ?thesis
    using concat_map_filter_empty [of ps "\<lambda>p. Q sd p \<noteq> []" "Q sd"]
    by (simp add: prio_slots_def queue_of_eq [OF rep])
qed

lemma prio_slots_rep:
  "book_rep b Q \<Longrightarrow> prio_slots b sd = concat (map (Q sd) (prio_prices b sd))"
  by (simp add: prio_slots_def queue_of_eq)

lemma set_prio_slots:
  assumes "book_rep b Q"
  shows "s \<in> set (prio_slots b sd) \<longleftrightarrow> (\<exists>n. heap_of b s = Some n \<and> node_side n = sd)"
  using prio_prices_queue [OF assms, of _ sd] queues_okD(1) [OF book_repD(2) [OF assms], of s sd]
  by (force simp: prio_slots_rep [OF assms])

lemma distinct_prio_slots:
  assumes "book_rep b Q"
  shows "distinct (prio_slots b sd)"
  unfolding prio_slots_rep [OF assms]
proof (rule distinct_concat_map)
  show "distinct (prio_prices b sd)"
    by (rule sorted_strictly_distinct
        [OF prio_prices_sorted [OF levels_okD(1) [OF book_repD(3) [OF assms]]]])
  show "distinct (Q sd p)" for p by (rule queues_okD(2) [OF book_repD(2) [OF assms]])
  show "set (Q sd p) \<inter> set (Q sd p') = {}" if "p \<noteq> p'" for p p'
    using that queues_okD(1) [OF book_repD(2) [OF assms]] by fastforce
qed

lemma sorted_prio_slots:
  assumes "book_rep b Q"
  shows "sorted_wrt (\<lambda>s t. ahead sd (node_price (the (heap_of b s))) (node_price (the (heap_of b t))))
    (prio_slots b sd)"
  unfolding prio_slots_rep [OF assms]
proof (rule sorted_wrt_concat_map)
  show "sorted_wrt (strictly_ahead sd) (prio_prices b sd)"
    by (rule prio_prices_sorted [OF levels_okD(1) [OF book_repD(3) [OF assms]]])
qed (auto simp: queues_okD(1) [OF book_repD(2) [OF assms]] strictly_ahead_def intro!: sorted_wrt_all)

lemma key_unique:
  assumes "book_rep b Q" and "heap_of b s = Some n" and "heap_of b t = Some m"
    and "node_account n = node_account m" and "node_id n = node_id m"
  shows "s = t"
  using index_okD(2) [OF book_repD(4) [OF assms(1)], of "(node_account n, node_id n)"] assms
  by (metis option.inject)

text \<open>Orders rest in price priority, under distinct keys, with nonzero quantities.\<close>

definition prio_sorted :: "side \<Rightarrow> rorder list \<Rightarrow> bool" where
  "prio_sorted sd = sorted_wrt (\<lambda>r r'. ahead sd (r_price r) (r_price r'))"

lemma resting_sorted: "book_rep b Q \<Longrightarrow> prio_sorted sd (resting b sd)"
  using sorted_prio_slots by (simp add: prio_sorted_def resting_def orders_at_def sorted_wrt_map)

lemma resting_memE:
  assumes "book_rep b Q" and "r \<in> set (resting b sd)"
  obtains s n where "heap_of b s = Some n" and "node_side n = sd" and "r = order_of n"
  using assms set_prio_slots [OF assms(1), of _ sd]
  by (fastforce simp: resting_def orders_at_def)

lemma resting_memI:
  assumes "book_rep b Q" and "heap_of b s = Some n"
  shows "order_of n \<in> set (resting b (node_side n))"
proof -
  have "s \<in> set (prio_slots b (node_side n))" using assms set_prio_slots by blast
  then show ?thesis using assms(2) by (force simp: resting_def orders_at_def)
qed

lemma resting_qty: "book_rep b Q \<Longrightarrow> r \<in> set (resting b sd) \<Longrightarrow> r_qty r \<noteq> 0"
  using book_repD(6) by (fastforce simp: qtys_ok_def elim: resting_memE)

lemma resting_keys_distinct:
  assumes "book_rep b Q"
  shows "distinct (map rkey (resting b sd))"
proof -
  have "inj_on (\<lambda>s. rkey (order_of (the (heap_of b s)))) (set (prio_slots b sd))"
    using key_unique [OF assms] set_prio_slots [OF assms, of _ sd] by (auto intro!: inj_onI)
  then show ?thesis using distinct_prio_slots [OF assms]
    by (simp add: resting_def orders_at_def distinct_map comp_def)
qed

lemma resting_keys_disjoint:
  assumes "book_rep b Q" and "r \<in> set (resting b sd)" and "r' \<in> set (resting b sd')"
    and "rkey r = rkey r'"
  shows "sd = sd'" and "r = r'"
proof -
  obtain s n t m where "heap_of b s = Some n" "node_side n = sd" "r = order_of n"
    "heap_of b t = Some m" "node_side m = sd'" "r' = order_of m"
    using assms(1-3) by (metis resting_memE)
  moreover from this have "s = t" using assms key_unique [OF assms(1)] by simp
  ultimately show "sd = sd'" "r = r'" by simp_all
qed

lemma resting_index:
  assumes "book_rep b Q"
  shows "hm_contains (book_order_index b) k \<longleftrightarrow> (\<exists>sd. k \<in> rkey ` set (resting b sd))"
proof -
  have "hm_contains (book_order_index b) k \<longleftrightarrow>
      (\<exists>s n. heap_of b s = Some n \<and> k = (node_account n, node_id n))"
    unfolding hm_contains_def using index_okD(2) [OF book_repD(4) [OF assms], of k]
    by (metis not_None_eq)
  also have "\<dots> \<longleftrightarrow> (\<exists>sd. k \<in> rkey ` set (resting b sd))"
  proof
    assume "\<exists>s n. heap_of b s = Some n \<and> k = (node_account n, node_id n)"
    then show "\<exists>sd. k \<in> rkey ` set (resting b sd)"
      using resting_memI [OF assms] by (metis image_eqI order_of_simps(5))
  next
    assume "\<exists>sd. k \<in> rkey ` set (resting b sd)"
    then obtain sd r where "r \<in> set (resting b sd)" "k = rkey r" by blast
    then show "\<exists>s n. heap_of b s = Some n \<and> k = (node_account n, node_id n)"
      using resting_memE [OF assms] by (metis order_of_simps(5))
  qed
  finally show ?thesis .
qed

section \<open>What the primitives do to the view\<close>

definition drop_key :: "account_id \<times> order_id \<Rightarrow> rorder list \<Rightarrow> rorder list" where
  "drop_key k = filter (\<lambda>r. rkey r \<noteq> k)"

definition set_qty :: "account_id \<times> order_id \<Rightarrow> qty \<Rightarrow> rorder list \<Rightarrow> rorder list" where
  "set_qty k q = map (\<lambda>r. if rkey r = k then r\<lparr>r_qty := q\<rparr> else r)"

definition a_rest :: "side \<Rightarrow> rorder \<Rightarrow> rorder list \<Rightarrow> rorder list" where
  "a_rest sd r rs = takeWhile (\<lambda>x. ahead sd (r_price x) (r_price r)) rs @
     r # dropWhile (\<lambda>x. ahead sd (r_price x) (r_price r)) rs"

lemma unlink_resting:
  assumes rep: "book_rep b Q" and live: "heap_of b s = Some n"
    and rep': "book_rep b' (del_slot Q s)" and heap: "heap_of b' = unlink_heap (heap_of b) s n mv"
  shows "resting b' sd = drop_key (node_account n, node_id n) (resting b sd)"
proof -
  have "prio_slots b' sd = concat (map (del_slot Q s sd) (prio_prices b sd))"
  proof (rule prio_slots_eq [OF rep'])
    show "sorted_wrt (strictly_ahead sd) (prio_prices b sd)"
      by (rule prio_prices_sorted [OF levels_okD(1) [OF book_repD(3) [OF rep]]])
    show "p \<in> set (prio_prices b sd)" if "del_slot Q s sd p \<noteq> []" for p
      using that prio_prices_queue [OF rep] by (auto simp: del_slot_def)
  qed
  then have slots: "prio_slots b' sd = filter (\<lambda>x. x \<noteq> s) (prio_slots b sd)"
    by (simp add: prio_slots_rep [OF rep] del_slot_def filter_concat_map removeAll_filter_not_eq
        neq_commute)
  have same: "order_of (the (heap_of b' x)) = order_of (the (heap_of b x))"
    if "x \<in> set (prio_slots b sd)" "x \<noteq> s" for x
    using that set_prio_slots [OF rep, of x sd] by (auto simp: heap unlink_heap_def order_of_def)
  have key: "rkey (order_of (the (heap_of b x))) \<noteq> (node_account n, node_id n) \<longleftrightarrow> x \<noteq> s"
    if "x \<in> set (prio_slots b sd)" for x
    using that set_prio_slots [OF rep, of x sd] live key_unique [OF rep, of x _ s n] by auto
  have "resting b' sd = map (\<lambda>x. order_of (the (heap_of b x))) (filter (\<lambda>x. x \<noteq> s) (prio_slots b sd))"
    unfolding resting_def orders_at_def slots using same by (intro map_cong) auto
  also have "filter (\<lambda>x. x \<noteq> s) (prio_slots b sd) =
      filter (\<lambda>x. rkey (order_of (the (heap_of b x))) \<noteq> (node_account n, node_id n)) (prio_slots b sd)"
    using key by (intro filter_cong) auto
  finally show ?thesis by (simp add: drop_key_def resting_def orders_at_def filter_map comp_def)
qed

lemma prio_slots_same:
  assumes "book_rep b Q" and "book_rep b' Q"
  shows "prio_slots b' sd = prio_slots b sd"
  unfolding prio_slots_rep [OF assms(1)]
proof (rule prio_slots_eq [OF assms(2)])
  show "sorted_wrt (strictly_ahead sd) (prio_prices b sd)"
    by (rule prio_prices_sorted [OF levels_okD(1) [OF book_repD(3) [OF assms(1)]]])
qed (simp add: prio_prices_queue [OF assms(1)])

lemma set_qty_resting:
  assumes rep: "book_rep b Q" and live: "heap_of b s = Some n" and rep': "book_rep b' Q"
    and heap: "heap_of b' = with_qty (heap_of b) s n q"
  shows "resting b' sd = set_qty (node_account n, node_id n) q (resting b sd)"
  unfolding resting_def orders_at_def prio_slots_same [OF rep rep'] set_qty_def map_map
proof (rule map_cong [OF refl])
  fix x assume "x \<in> set (prio_slots b sd)"
  then obtain m where m: "heap_of b x = Some m" using set_prio_slots [OF rep] by blast
  then show "order_of (the (heap_of b' x)) =
      ((\<lambda>r. if rkey r = (node_account n, node_id n) then r\<lparr>r_qty := q\<rparr> else r) \<circ>
       (\<lambda>s. order_of (the (heap_of b s)))) x"
    using live key_unique [OF rep m live] by (auto simp: heap order_of_def rkey_def)
qed

text \<open>Inserting at the end of one queue is inserting behind every order at least as good.\<close>

lemma insert_price_sorted:
  assumes "sorted_wrt (strictly_ahead sd) ps"
  obtains as bs where "sorted_wrt (strictly_ahead sd) (as @ p # bs)"
    and "set ps \<subseteq> set (as @ p # bs)" and "set (as @ p # bs) \<subseteq> insert p (set ps)"
proof -
  let ?as = "filter (\<lambda>x. strictly_ahead sd x p) ps" and ?bs = "filter (\<lambda>x. strictly_ahead sd p x) ps"
  have sep: "strictly_ahead sd x y" if "strictly_ahead sd x p" "strictly_ahead sd p y" for x y
    using that ahead_trans ahead_antisym unfolding strictly_ahead_def by metis
  have tot: "x = p \<or> strictly_ahead sd x p \<or> strictly_ahead sd p x" for x
    using ahead_total [of sd x p] by (auto simp: strictly_ahead_def)
  have "sorted_wrt (strictly_ahead sd) (?as @ p # ?bs)"
    using assms sep by (auto simp: sorted_wrt_append sorted_wrt_filter)
  moreover have "set ps \<subseteq> set (?as @ p # ?bs)" using tot by auto
  ultimately show thesis using that [of ?as ?bs] by auto
qed

lemma rest_resting:
  assumes rep: "book_rep b Q" and fresh: "heap_of b s = None"
    and rep': "book_rep b' (add_slot Q sd p s)"
    and heap: "heap_of b' = rest_heap (heap_of b) t s (new_node a oid sd p q i)"
  shows "resting b' sd = a_rest sd \<lparr>r_account = a, r_id = oid, r_price = p, r_qty = q\<rparr> (resting b sd)"
    and "resting b' (opposite sd) = resting b (opposite sd)"
proof -
  note sorted = prio_prices_sorted [OF levels_okD(1) [OF book_repD(3) [OF rep]]]
  have notin: "s \<notin> set (Q sd' p')" for sd' p'
    using fresh by (simp add: queues_okD(1) [OF book_repD(2) [OF rep]])
  have same: "order_of (the (heap_of b' x)) = order_of (the (heap_of b x))"
    if "x \<in> set (Q sd' p')" for x sd' p'
    using that notin queues_okD(1) [OF book_repD(2) [OF rep], of x sd' p']
    by (auto simp: heap rest_heap_def order_of_def)
  then have at: "orders_at (heap_of b') (concat (map (Q sd') ps)) =
      orders_at (heap_of b) (concat (map (Q sd') ps))" for sd' ps
    by (simp add: orders_at_def)
  obtain as bs where ps: "sorted_wrt (strictly_ahead sd) (as @ p # bs)"
    and cov: "set (prio_prices b sd) \<subseteq> set (as @ p # bs)"
    using insert_price_sorted [OF sorted] by metis
  have old: "prio_slots b sd = concat (map (Q sd) (as @ p # bs))"
    by (rule prio_slots_eq [OF rep ps]) (use cov prio_prices_queue [OF rep] in blast)
  have "prio_slots b' sd = concat (map (add_slot Q sd p s sd) (as @ p # bs))"
    by (rule prio_slots_eq [OF rep' ps])
      (use cov prio_prices_queue [OF rep] in \<open>auto simp: add_slot_apply split: if_splits\<close>)
  moreover have "map (add_slot Q sd p s sd) xs = map (Q sd) xs" if "p \<notin> set xs" for xs
    using that by (intro map_cong [OF refl]) (auto simp: add_slot_apply)
  moreover have "p \<notin> set as" "p \<notin> set bs" using sorted_strictly_distinct [OF ps] by auto
  ultimately have new: "prio_slots b' sd = concat (map (Q sd) (as @ [p])) @ s # concat (map (Q sd) bs)"
    by (simp add: add_slot_apply)
  have prices: "\<forall>x \<in> set as. ahead sd x p" "\<forall>x \<in> set bs. \<not> ahead sd x p"
    using ps by (simp_all add: sorted_wrt_append strictly_ahead_iff ahead_weaken)
  have front: "\<forall>x \<in> set (orders_at (heap_of b) (concat (map (Q sd) (as @ [p])))). ahead sd (r_price x) p"
    and rear: "\<forall>x \<in> set (orders_at (heap_of b) (concat (map (Q sd) bs))). \<not> ahead sd (r_price x) p"
    using prices queues_okD(1) [OF book_repD(2) [OF rep]] by (auto simp: orders_at_def)
  show "resting b' sd = a_rest sd \<lparr>r_account = a, r_id = oid, r_price = p, r_qty = q\<rparr> (resting b sd)"
  proof -
    have "orders_at (heap_of b') [s] = [\<lparr>r_account = a, r_id = oid, r_price = p, r_qty = q\<rparr>]"
      by (simp add: orders_at_def heap rest_heap_def order_of_def)
    then have "resting b' sd = orders_at (heap_of b) (concat (map (Q sd) (as @ [p]))) @
        \<lparr>r_account = a, r_id = oid, r_price = p, r_qty = q\<rparr> #
        orders_at (heap_of b) (concat (map (Q sd) bs))"
      unfolding resting_def new using at [of sd "as @ [p]"] at [of sd bs]
      by (simp only: orders_at_append orders_at_Cons [of _ s "concat (map (Q sd) bs)"]
          append_Cons append_Nil)
    moreover have "resting b sd = orders_at (heap_of b) (concat (map (Q sd) (as @ [p]))) @
        orders_at (heap_of b) (concat (map (Q sd) bs))"
      by (simp add: resting_def old orders_at_append)
    ultimately show ?thesis unfolding a_rest_def using while_split [OF front rear] by simp
  qed
  have "prio_slots b' (opposite sd) = concat (map (add_slot Q sd p s (opposite sd)) (prio_prices b (opposite sd)))"
    by (rule prio_slots_eq [OF rep' sorted]) (simp add: add_slot_apply prio_prices_queue [OF rep])
  then have "prio_slots b' (opposite sd) = prio_slots b (opposite sd)"
    by (simp add: add_slot_apply prio_slots_rep [OF rep] cong: map_cong)
  then show "resting b' (opposite sd) = resting b (opposite sd)"
    using at [of "opposite sd" "prio_prices b (opposite sd)"]
    by (simp add: resting_def prio_slots_rep [OF rep])
qed

section \<open>The best order\<close>

definition best_entry :: "book \<Rightarrow> side \<Rightarrow> (price \<times> level) option" where
  "best_entry b sd = (case sd of Buy \<Rightarrow> bt_last (book_bids b) | Sell \<Rightarrow> bt_first (book_asks b))"

lemma best_entry_prio:
  "map_option fst (best_entry b sd) = (case prio_prices b sd of [] \<Rightarrow> None | p # _ \<Rightarrow> Some p)"
proof (cases sd)
  case Buy
  then show ?thesis
    by (cases "book_bids b" rule: rev_cases) (simp_all add: best_entry_def bt_last_def)
next
  case Sell
  then show ?thesis
    by (cases "book_asks b") (simp_all add: best_entry_def bt_first_def)
qed

lemma best_entry_get: "bt_ok (side_map b sd) \<Longrightarrow> best_entry b sd = Some (p, l) \<Longrightarrow>
    bt_get (side_map b sd) p = Some l"
  by (cases sd) (simp_all add: best_entry_def bt.first_Some bt.last_Some)

lemma best_entry_None:
  assumes "book_rep b Q"
  shows "best_entry b sd = None \<longleftrightarrow> resting b sd = []"
proof -
  have "best_entry b sd = None \<longleftrightarrow> prio_prices b sd = []"
    using best_entry_prio [of b sd] by (auto split: list.splits)
  also have "\<dots> \<longleftrightarrow> resting b sd = []"
    using prio_prices_queue [OF assms, of _ sd]
    by (cases "prio_prices b sd") (auto simp: resting_def orders_at_def prio_slots_rep [OF assms])
  finally show ?thesis .
qed

text \<open>The head of the best level is the order of highest priority.\<close>

lemma best_entry_Some:
  assumes rep: "book_rep b Q" and "best_entry b sd = Some (p, l)"
  obtains n rs where "heap_of b (level_head l) = Some n" and "node_side n = sd" and "node_price n = p"
    and "resting b sd = order_of n # rs" and "level_head l \<noteq> NULL"
    and "bt_get (side_map b sd) p = Some l" and "level_head l = hd (Q sd p)"
proof -
  note lev = levels_okD [OF book_repD(3) [OF rep]]
  obtain ps where ps: "prio_prices b sd = p # ps"
    using best_entry_prio [of b sd] assms(2) by (cases "prio_prices b sd") auto
  have ne: "Q sd p \<noteq> []" using prio_prices_queue [OF rep, of p sd] ps by simp
  have get: "bt_get (side_map b sd) p = Some l" using best_entry_get [OF lev(1) assms(2)] .
  then have head: "level_head l = hd (Q sd p)" using lev(2) [of sd p] ne by (auto simp: level_view_def)
  then have "level_head l \<in> set (Q sd p)" using ne by simp
  then obtain n where n: "heap_of b (level_head l) = Some n" "node_side n = sd" "node_price n = p"
    using queues_okD(1) [OF book_repD(2) [OF rep]] by blast
  have "resting b sd = order_of n # tl (resting b sd)"
    using ps ne n(1) unfolding head
    by (cases "Q sd p") (auto simp: resting_def orders_at_def prio_slots_rep [OF rep])
  then show thesis
    using that n get head live_not_NULL [OF book_repD(1) [OF rep] n(1)] by metis
qed

lemma best_bid_resting:
  assumes "book_rep b Q"
  shows "map_option fst (best_entry b sd) = (case resting b sd of [] \<Rightarrow> None | r # _ \<Rightarrow> Some (r_price r))"
proof (cases "best_entry b sd")
  case None
  then show ?thesis using best_entry_None [OF assms] by simp
next
  case (Some e)
  then show ?thesis by (cases e) (auto elim: best_entry_Some [OF assms])
qed

text \<open>Distinct keys: dropping the key of the head drops the head only.\<close>

lemma drop_key_absent: "k \<notin> rkey ` set rs \<Longrightarrow> drop_key k rs = rs"
  by (auto simp: drop_key_def filter_id_conv)

lemma drop_key_head:
  "distinct (map rkey (r # rs)) \<Longrightarrow> drop_key (rkey r) (r # rs) = rs"
  using drop_key_absent [of "rkey r" rs] by (simp add: drop_key_def)

lemma set_qty_absent: "k \<notin> rkey ` set rs \<Longrightarrow> set_qty k q rs = rs"
  by (auto simp: set_qty_def intro!: map_idI)

lemma set_qty_head:
  "distinct (map rkey (r # rs)) \<Longrightarrow> set_qty (rkey r) q (r # rs) = r\<lparr>r_qty := q\<rparr> # rs"
  using set_qty_absent [of "rkey r" rs q] by (simp add: set_qty_def)

end
