(* ===== verification/Matching.thy ===== *)
theory Matching
  imports Book
begin

text \<open>
  The matching operations of \<open>book.rs\<close>: \<open>sweep\<close>, the FOK and PostOnly
  prechecks, the five submits, \<open>modify\<close>, \<open>cancel\<close> and \<open>mass_cancel\<close>.
  The \<open>emit\<close> closure is the list of events an operation returns, in emission order.
  Loops whose end depends on the book are partial functions into \<open>option\<close>:
  \<^const>\<open>None\<close> is a panic or a loop that does not end.
\<close>

type_synonym 'a emitting = "('a \<times> event list) option"

section \<open>sweep\<close>

text \<open>
  The best price of the side opposite to an aggressor, if it crosses the aggressor's limit
  (\<open>keys().next().copied().filter(..)\<close>).
\<close>

definition crossing_level :: "book \<Rightarrow> side \<Rightarrow> price \<Rightarrow> price option" where
  "crossing_level b side price =
     (case side of
        Buy \<Rightarrow> (case bt_first (book_asks b) of
                  Some (ask, _) \<Rightarrow> if ask \<le> price then Some ask else None
                | None \<Rightarrow> None)
      | Sell \<Rightarrow> (case bt_last (book_bids b) of
                  Some (bid, _) \<Rightarrow> if price \<le> bid then Some bid else None
                | None \<Rightarrow> None))"

text \<open>The three events of one execution: taker fill, maker fill, trade print.\<close>

definition fill_events ::
    "account_id \<Rightarrow> order_id \<Rightarrow> side \<Rightarrow> account_id \<Rightarrow> order_id \<Rightarrow> price \<Rightarrow> qty \<Rightarrow> qty \<Rightarrow> qty \<Rightarrow> event list" where
  "fill_events account oid side maker_account maker_id fill_price fill_qty remaining maker_resting =
     [Filled account oid side fill_price fill_qty remaining (fill_state remaining),
      Filled maker_account maker_id (opposite side) fill_price fill_qty maker_resting
        (fill_state maker_resting),
      Trade fill_price fill_qty side]"

text \<open>
  The inner loop of \<open>sweep\<close>: consume the chain of one level. It ends when nothing
  remains (\<open>break 'levels\<close>) or the level is gone (\<open>continue 'levels\<close>); the
  outer loop tells the two apart by \<open>remaining\<close>.
\<close>

partial_function (option) sweep_level ::
    "account_id \<Rightarrow> order_id \<Rightarrow> side \<Rightarrow> price \<Rightarrow> book \<Rightarrow> u64 \<Rightarrow> (book \<times> u64) emitting" where
  "sweep_level account oid side level_price b remaining =
     (if remaining = 0 then Some ((b, remaining), [])
      else case bt_get (side_map b (opposite side)) level_price of
        None \<Rightarrow> Some ((b, remaining), [])
      | Some level \<Rightarrow>
          if level_head level = NULL then Some ((b, remaining), [])
          else do {
            let maker_slot = level_head level;
            maker \<leftarrow> arena_get (book_arena b) maker_slot;
            if node_account maker = account then do {
              b' \<leftarrow> unlink b maker_slot;
              (r, out) \<leftarrow> sweep_level account oid side level_price b' remaining;
              Some (r, Cancelled (node_account maker) (node_id maker) # out)
            } else do {
              let fill_qty = min remaining (node_qty maker);
              let remaining' = remaining - fill_qty;
              let fill_price = node_price maker;
              let b1 = b\<lparr>book_last_trade := Some fill_price\<rparr>;
              let maker_resting = node_qty maker - fill_qty;
              b' \<leftarrow> (if fill_qty = node_qty maker then unlink b1 maker_slot
                     else reduce_resting_qty b1 maker_slot (opposite side) level_price fill_qty);
              (r, out) \<leftarrow> sweep_level account oid side level_price b' remaining';
              Some (r, fill_events account oid side (node_account maker) (node_id maker)
                         fill_price fill_qty remaining' maker_resting @ out)
            }
          })"

declare sweep_level.simps [code]

partial_function (option) sweep ::
    "account_id \<Rightarrow> order_id \<Rightarrow> side \<Rightarrow> price \<Rightarrow> book \<Rightarrow> u64 \<Rightarrow> (book \<times> u64) emitting" where
  "sweep account oid side price b remaining =
     (if remaining = 0 then Some ((b, remaining), [])
      else case crossing_level b side price of
        None \<Rightarrow> Some ((b, remaining), [])
      | Some level_price \<Rightarrow> do {
          ((b', remaining'), out) \<leftarrow> sweep_level account oid side level_price b remaining;
          (r, out') \<leftarrow> sweep account oid side price b' remaining';
          Some (r, out @ out')
        })"

declare sweep.simps [code]

section \<open>The FOK precheck\<close>

text \<open>Walk one chain from \<open>cursor\<close>; the result carries the updated \<open>needed\<close>.\<close>

partial_function (option) level_foreign_qty ::
    "book \<Rightarrow> account_id \<Rightarrow> u32 \<Rightarrow> u64 \<Rightarrow> (bool \<times> u64) option" where
  "level_foreign_qty b account cursor needed =
     (if cursor = NULL then Some (False, needed)
      else do {
        node \<leftarrow> arena_get (book_arena b) cursor;
        if node_account node \<noteq> account then
          (let needed' = needed - min needed (node_qty node)
           in if needed' = 0 then Some (True, needed')
              else level_foreign_qty b account (node_next node) needed')
        else level_foreign_qty b account (node_next node) needed
      })"

declare level_foreign_qty.simps [code]

fun fillable_levels ::
    "book \<Rightarrow> account_id \<Rightarrow> (price \<Rightarrow> bool) \<Rightarrow> (price \<times> level) list \<Rightarrow> u64 \<Rightarrow> bool option" where
  "fillable_levels b account beyond [] needed = Some (needed = 0)"
| "fillable_levels b account beyond ((level_price, level) # levels) needed =
     (if beyond level_price then Some (needed = 0)
      else do {
        (done, needed') \<leftarrow> level_foreign_qty b account (level_head level) needed;
        if done then Some True else fillable_levels b account beyond levels needed'
      })"

definition is_fillable :: "book \<Rightarrow> account_id \<Rightarrow> side \<Rightarrow> price \<Rightarrow> qty \<Rightarrow> bool option" where
  "is_fillable b account side price qty =
     (case side of
        Buy \<Rightarrow> fillable_levels b account (\<lambda>level_price. price < level_price) (book_asks b) qty
      | Sell \<Rightarrow> fillable_levels b account (\<lambda>level_price. level_price < price) (rev (book_bids b)) qty)"

section \<open>The PostOnly precheck\<close>

partial_function (option) stp_clear_crossing_self_orders ::
    "account_id \<Rightarrow> side \<Rightarrow> price \<Rightarrow> book \<Rightarrow> (book \<times> bool) emitting" where
  "stp_clear_crossing_self_orders account side price b =
     (case crossing_level b side price of
        None \<Rightarrow> Some ((b, False), [])
      | Some level_price \<Rightarrow>
          (case bt_get (side_map b (opposite side)) level_price of
             None \<Rightarrow> stp_clear_crossing_self_orders account side price b
           | Some level \<Rightarrow>
               if level_head level = NULL then stp_clear_crossing_self_orders account side price b
               else do {
                 node \<leftarrow> arena_get (book_arena b) (level_head level);
                 if node_account node = account then do {
                   b' \<leftarrow> unlink b (level_head level);
                   (r, out) \<leftarrow> stp_clear_crossing_self_orders account side price b';
                   Some (r, Cancelled (node_account node) (node_id node) # out)
                 } else Some ((b, True), [])
               }))"

declare stp_clear_crossing_self_orders.simps [code]

section \<open>Submits\<close>

definition submit_gtc ::
    "book \<Rightarrow> account_id \<Rightarrow> order_id \<Rightarrow> side \<Rightarrow> price \<Rightarrow> qty \<Rightarrow> book emitting" where
  "submit_gtc b account oid side price qty =
     (if hm_contains (book_order_index b) (account, oid)
      then Some (b, [Rejected account oid DuplicateOrderId])
      else do {
        ((b, remaining), out) \<leftarrow> sweep account oid side price b qty;
        b \<leftarrow> (if 0 < remaining then rest b account oid side price remaining else Some b);
        Some (b, out @ [Accepted account oid remaining])
      })"

definition submit_ioc ::
    "book \<Rightarrow> account_id \<Rightarrow> order_id \<Rightarrow> side \<Rightarrow> price \<Rightarrow> qty \<Rightarrow> book emitting" where
  "submit_ioc b account oid side price qty =
     (if hm_contains (book_order_index b) (account, oid)
      then Some (b, [Rejected account oid DuplicateOrderId])
      else do {
        ((b, remaining), out) \<leftarrow> sweep account oid side price b qty;
        Some (b, out @ [Accepted account oid 0])
      })"

definition submit_fok ::
    "book \<Rightarrow> account_id \<Rightarrow> order_id \<Rightarrow> side \<Rightarrow> price \<Rightarrow> qty \<Rightarrow> book emitting" where
  "submit_fok b account oid side price qty =
     (if hm_contains (book_order_index b) (account, oid)
      then Some (b, [Rejected account oid DuplicateOrderId])
      else do {
        fillable \<leftarrow> is_fillable b account side price qty;
        if \<not> fillable then Some (b, [Rejected account oid NotFullyFillable])
        else do {
          ((b, remaining), out) \<leftarrow> sweep account oid side price b qty;
          Some (b, out @ [Accepted account oid 0])
        }
      })"

definition market_bound :: "side \<Rightarrow> price" where
  "market_bound side = (case side of Buy \<Rightarrow> 18446744073709551615 | Sell \<Rightarrow> 0)"

definition submit_market ::
    "book \<Rightarrow> account_id \<Rightarrow> order_id \<Rightarrow> side \<Rightarrow> qty \<Rightarrow> book emitting" where
  "submit_market b account oid side qty =
     (if hm_contains (book_order_index b) (account, oid)
      then Some (b, [Rejected account oid DuplicateOrderId])
      else do {
        ((b, remaining), out) \<leftarrow> sweep account oid side (market_bound side) b qty;
        Some (b, out @ [Accepted account oid 0])
      })"

definition submit_postonly ::
    "book \<Rightarrow> account_id \<Rightarrow> order_id \<Rightarrow> side \<Rightarrow> price \<Rightarrow> qty \<Rightarrow> book emitting" where
  "submit_postonly b account oid side price qty =
     (if hm_contains (book_order_index b) (account, oid)
      then Some (b, [Rejected account oid DuplicateOrderId])
      else do {
        ((b, would_cross), out) \<leftarrow> stp_clear_crossing_self_orders account side price b;
        if would_cross then Some (b, out @ [Rejected account oid WouldCross])
        else do {
          b \<leftarrow> rest b account oid side price qty;
          Some (b, out @ [Accepted account oid qty])
        }
      })"

section \<open>modify, cancel, mass\_cancel\<close>

text \<open>The amend that retains queue position: quantity updated in place.\<close>

definition modify_in_place :: "book \<Rightarrow> u32 \<Rightarrow> node \<Rightarrow> qty \<Rightarrow> book option" where
  "modify_in_place b slot node new_qty = do {
     let old_qty = node_qty node;
     arena \<leftarrow> arena_modify (book_arena b) slot (\<lambda>n. n\<lparr>node_qty := new_qty\<rparr>);
     level \<leftarrow> bt_get (side_map b (node_side node)) (node_price node);
     let level = level\<lparr>level_total_qty := level_total_qty level - old_qty + new_qty\<rparr>;
     entry \<leftarrow> hm_get (book_accounts b) (node_account node);
     let entry = entry\<lparr>entry_notional := entry_notional entry
       - notional_of (node_price node) old_qty + notional_of (node_price node) new_qty\<rparr>;
     Some (set_side_map (node_side node)
             (bt_insert (node_price node) level (side_map b (node_side node)))
             (b\<lparr>book_arena := arena,
                book_accounts := hm_insert (node_account node) entry (book_accounts b)\<rparr>))
   }"

definition modify ::
    "book \<Rightarrow> account_id \<Rightarrow> order_id \<Rightarrow> price \<Rightarrow> qty \<Rightarrow> book emitting" where
  "modify b account oid new_price new_qty =
     (if new_qty = 0 then Some (b, [Rejected account oid ZeroQuantity])
      else case hm_get (book_order_index b) (account, oid) of
        None \<Rightarrow> Some (b, [Rejected account oid UnknownOrderId])
      | Some slot \<Rightarrow> do {
          node \<leftarrow> arena_get (book_arena b) slot;
          let price_changed = (new_price \<noteq> node_price node);
          let qty_increased = (node_qty node < new_qty);
          if \<not> price_changed \<and> \<not> qty_increased then do {
            b \<leftarrow> modify_in_place b slot node new_qty;
            Some (b, [Replaced account oid new_qty True])
          } else do {
            b \<leftarrow> unlink b slot;
            ((b, remaining), out) \<leftarrow> sweep account oid (node_side node) new_price b new_qty;
            b \<leftarrow> (if 0 < remaining
                  then rest b account oid (node_side node) new_price remaining else Some b);
            Some (b, Replaced account oid new_qty False # out)
          }
        })"

definition cancel :: "book \<Rightarrow> account_id \<Rightarrow> order_id \<Rightarrow> book emitting" where
  "cancel b account oid =
     (case hm_get (book_order_index b) (account, oid) of
        Some slot \<Rightarrow> do {
          b \<leftarrow> unlink b slot;
          Some (b, [Cancelled account oid])
        }
      | None \<Rightarrow> Some (b, [Rejected account oid UnknownOrderId]))"

fun mass_cancel_loop :: "account_id \<Rightarrow> book \<Rightarrow> u32 list \<Rightarrow> book emitting" where
  "mass_cancel_loop account b [] = Some (b, [])"
| "mass_cancel_loop account b (slot # slots) = do {
     node \<leftarrow> arena_get (book_arena b) slot;
     b \<leftarrow> unlink b slot;
     (b, out) \<leftarrow> mass_cancel_loop account b slots;
     Some (b, Cancelled account (node_id node) # out)
   }"

definition mass_cancel :: "book \<Rightarrow> account_id \<Rightarrow> book emitting" where
  "mass_cancel b account =
     (case hm_get (book_accounts b) account of
        None \<Rightarrow> Some (b, [])
      | Some entry \<Rightarrow>
          (let b = b\<lparr>book_mass_cancel_scratch := entry_slots entry\<rparr>
           in mass_cancel_loop account b (book_mass_cancel_scratch b)))"

end
