(* ===== verification/Matching_Spec.thy ===== *)
theory Matching_Spec
  imports Book_Abs Matching
begin

text \<open>
  What the matching operations promise, stated on the abstract book: one priority list of
  resting orders per side and the last trade price. \<open>a_sweep\<close> consumes the opposite list
  from the front; every operation is a few lines over it. The lemmas are the economic
  properties: quantity is conserved, nobody trades with themselves, every execution is at the
  maker's price and within the taker's limit, and a book that is not crossed stays so.
\<close>

record abook =
  a_orders :: "side \<Rightarrow> rorder list"
  a_last :: "price option"

definition abs_book :: "book \<Rightarrow> abook" where
  "abs_book b = \<lparr>a_orders = resting b, a_last = book_last_trade b\<rparr>"

text \<open>An aggressor on \<open>side\<close> with limit \<open>limit\<close> crosses a resting price.\<close>

definition crosses :: "side \<Rightarrow> price \<Rightarrow> price \<Rightarrow> bool" where
  "crosses side limit p \<longleftrightarrow> ahead (opposite side) p limit"

definition order_for :: "account_id \<Rightarrow> order_id \<Rightarrow> price \<Rightarrow> qty \<Rightarrow> rorder" where
  "order_for a oid p q = \<lparr>r_account = a, r_id = oid, r_price = p, r_qty = q\<rparr>"

section \<open>The abstract operations\<close>

fun a_sweep :: "account_id \<Rightarrow> order_id \<Rightarrow> side \<Rightarrow> price \<Rightarrow> rorder list \<Rightarrow> price option \<Rightarrow> u64 \<Rightarrow>
    (rorder list \<times> price option \<times> u64) \<times> event list" where
  "a_sweep a oid side limit [] lt rem = (([], lt, rem), [])"
| "a_sweep a oid side limit (r # rs) lt rem =
     (if rem = 0 \<or> \<not> crosses side limit (r_price r) then ((r # rs, lt, rem), [])
      else if r_account r = a then
        (let (st, out) = a_sweep a oid side limit rs lt rem
         in (st, Cancelled a (r_id r) # out))
      else
        (let f = min rem (r_qty r);
             fills = fill_events a oid side (r_account r) (r_id r) (r_price r) f (rem - f) (r_qty r - f)
         in if f = r_qty r then
              (let (st, out) = a_sweep a oid side limit rs (Some (r_price r)) (rem - f)
               in (st, fills @ out))
            else ((r\<lparr>r_qty := r_qty r - f\<rparr> # rs, Some (r_price r), rem - f), fills)))"

definition a_match :: "abook \<Rightarrow> account_id \<Rightarrow> order_id \<Rightarrow> side \<Rightarrow> price \<Rightarrow> qty \<Rightarrow>
    (abook \<times> u64) \<times> event list" where
  "a_match ab a oid side limit q =
     (case a_sweep a oid side limit (a_orders ab (opposite side)) (a_last ab) q of
        ((rs, lt, rem), out) \<Rightarrow>
          ((\<lparr>a_orders = (a_orders ab)(opposite side := rs), a_last = lt\<rparr>, rem), out))"

definition a_add :: "side \<Rightarrow> rorder \<Rightarrow> abook \<Rightarrow> abook" where
  "a_add side r ab = ab\<lparr>a_orders := (a_orders ab)(side := a_rest side r (a_orders ab side))\<rparr>"

definition a_drop :: "account_id \<times> order_id \<Rightarrow> abook \<Rightarrow> abook" where
  "a_drop k ab = ab\<lparr>a_orders := \<lambda>sd. drop_key k (a_orders ab sd)\<rparr>"

definition a_present :: "abook \<Rightarrow> account_id \<times> order_id \<Rightarrow> bool" where
  "a_present ab k \<longleftrightarrow> k \<in> rkey ` (set (a_orders ab Buy) \<union> set (a_orders ab Sell))"

text \<open>The quantity other accounts rest at crossing prices (unbounded: no wrap-around).\<close>

definition foreign_qty :: "account_id \<Rightarrow> side \<Rightarrow> price \<Rightarrow> rorder list \<Rightarrow> nat" where
  "foreign_qty a side limit rs =
     (\<Sum>r\<leftarrow>filter (\<lambda>r. r_account r \<noteq> a) (takeWhile (\<lambda>r. crosses side limit (r_price r)) rs). unat (r_qty r))"

text \<open>STP of a PostOnly order: own crossing orders are dropped from the front.\<close>

fun a_stp :: "account_id \<Rightarrow> side \<Rightarrow> price \<Rightarrow> rorder list \<Rightarrow> (rorder list \<times> bool) \<times> event list" where
  "a_stp a side limit [] = (([], False), [])"
| "a_stp a side limit (r # rs) =
     (if \<not> crosses side limit (r_price r) then ((r # rs, False), [])
      else if r_account r = a then
        (let (st, out) = a_stp a side limit rs in (st, Cancelled a (r_id r) # out))
      else ((r # rs, True), []))"

definition a_submit_gtc :: "abook \<Rightarrow> account_id \<Rightarrow> order_id \<Rightarrow> side \<Rightarrow> price \<Rightarrow> qty \<Rightarrow> abook \<times> event list" where
  "a_submit_gtc ab a oid side p q =
     (if a_present ab (a, oid) then (ab, [Rejected a oid DuplicateOrderId])
      else case a_match ab a oid side p q of ((ab', rem), out) \<Rightarrow>
        (if rem = 0 then ab' else a_add side (order_for a oid p rem) ab', out @ [Accepted a oid rem]))"

definition a_submit_ioc :: "abook \<Rightarrow> account_id \<Rightarrow> order_id \<Rightarrow> side \<Rightarrow> price \<Rightarrow> qty \<Rightarrow> abook \<times> event list" where
  "a_submit_ioc ab a oid side p q =
     (if a_present ab (a, oid) then (ab, [Rejected a oid DuplicateOrderId])
      else case a_match ab a oid side p q of ((ab', rem), out) \<Rightarrow> (ab', out @ [Accepted a oid 0]))"

definition a_submit_fok :: "abook \<Rightarrow> account_id \<Rightarrow> order_id \<Rightarrow> side \<Rightarrow> price \<Rightarrow> qty \<Rightarrow> abook \<times> event list" where
  "a_submit_fok ab a oid side p q =
     (if a_present ab (a, oid) then (ab, [Rejected a oid DuplicateOrderId])
      else if foreign_qty a side p (a_orders ab (opposite side)) < unat q
      then (ab, [Rejected a oid NotFullyFillable])
      else case a_match ab a oid side p q of ((ab', rem), out) \<Rightarrow> (ab', out @ [Accepted a oid 0]))"

definition a_submit_postonly :: "abook \<Rightarrow> account_id \<Rightarrow> order_id \<Rightarrow> side \<Rightarrow> price \<Rightarrow> qty \<Rightarrow> abook \<times> event list" where
  "a_submit_postonly ab a oid side p q =
     (if a_present ab (a, oid) then (ab, [Rejected a oid DuplicateOrderId])
      else case a_stp a side p (a_orders ab (opposite side)) of ((rs, cross), out) \<Rightarrow>
        let ab' = ab\<lparr>a_orders := (a_orders ab)(opposite side := rs)\<rparr>
        in if cross then (ab', out @ [Rejected a oid WouldCross])
           else (a_add side (order_for a oid p q) ab', out @ [Accepted a oid q]))"

definition a_find :: "abook \<Rightarrow> account_id \<times> order_id \<Rightarrow> (side \<times> rorder) option" where
  "a_find ab k = (case find (\<lambda>r. rkey r = k) (a_orders ab Buy) of
       Some r \<Rightarrow> Some (Buy, r)
     | None \<Rightarrow> map_option (Pair Sell) (find (\<lambda>r. rkey r = k) (a_orders ab Sell)))"

definition a_modify :: "abook \<Rightarrow> account_id \<Rightarrow> order_id \<Rightarrow> price \<Rightarrow> qty \<Rightarrow> abook \<times> event list" where
  "a_modify ab a oid p q =
     (if q = 0 then (ab, [Rejected a oid ZeroQuantity])
      else case a_find ab (a, oid) of
        None \<Rightarrow> (ab, [Rejected a oid UnknownOrderId])
      | Some (side, r) \<Rightarrow>
          if p = r_price r \<and> q \<le> r_qty r
          then (ab\<lparr>a_orders := \<lambda>sd. set_qty (a, oid) q (a_orders ab sd)\<rparr>, [Replaced a oid q True])
          else case a_match (a_drop (a, oid) ab) a oid side p q of ((ab', rem), out) \<Rightarrow>
            (if rem = 0 then ab' else a_add side (order_for a oid p rem) ab', Replaced a oid q False # out))"

definition a_cancel :: "abook \<Rightarrow> account_id \<Rightarrow> order_id \<Rightarrow> abook \<times> event list" where
  "a_cancel ab a oid =
     (if a_present ab (a, oid) then (a_drop (a, oid) ab, [Cancelled a oid])
      else (ab, [Rejected a oid UnknownOrderId]))"

section \<open>Reading the events\<close>

fun traded :: "event list \<Rightarrow> nat" where
  "traded [] = 0"
| "traded (Trade p q s # out) = unat q + traded out"
| "traded (e # out) = traded out"

text \<open>The fills of the orders on one side: key, price, quantity, quantity left.\<close>

fun fills_on :: "side \<Rightarrow> event list \<Rightarrow> ((account_id \<times> order_id) \<times> price \<times> qty \<times> qty) list" where
  "fills_on sd [] = []"
| "fills_on sd (Filled a oid s p q left st # out) =
     (if s = sd then ((a, oid), p, q, left) # fills_on sd out else fills_on sd out)"
| "fills_on sd (e # out) = fills_on sd out"

lemma traded_append [simp]: "traded (xs @ ys) = traded xs + traded ys"
  by (induction xs rule: traded.induct) auto

lemma fills_on_append [simp]: "fills_on sd (xs @ ys) = fills_on sd xs @ fills_on sd ys"
  by (induction sd xs rule: fills_on.induct) auto

lemma fill_events_read [simp]:
  "traded (fill_events a oid side m mid p f rem left) = unat f"
  "fills_on side (fill_events a oid side m mid p f rem left) = [((a, oid), p, f, rem)]"
  "fills_on (opposite side) (fill_events a oid side m mid p f rem left) = [((m, mid), p, f, left)]"
  by (simp_all add: fill_events_def)

definition full_fill :: "rorder \<Rightarrow> (account_id \<times> order_id) \<times> price \<times> qty \<times> qty" where
  "full_fill r = (rkey r, r_price r, r_qty r, 0)"

section \<open>Properties of the sweep\<close>

lemma crosses_ahead: "ahead (opposite side) p q \<Longrightarrow> crosses side limit q \<Longrightarrow> crosses side limit p"
  using ahead_trans by (auto simp: crosses_def)

lemma sweep_cases:
  obtains (stop) "rem = 0 \<or> \<not> crosses side limit (r_price r)"
    | (own) "rem \<noteq> 0" "crosses side limit (r_price r)" "r_account r = a"
    | (full) "rem \<noteq> 0" "crosses side limit (r_price r)" "r_account r \<noteq> a" "r_qty r \<le> rem"
    | (part) "rem \<noteq> 0" "crosses side limit (r_price r)" "r_account r \<noteq> a" "rem < r_qty r"
  by fastforce

text \<open>
  The four ways a sweep goes on, as an induction rule: it stops, cancels an own order, fills a maker
  in full and goes on, or fills one in part and is done.
\<close>

lemma a_sweep_induct [consumes 1, case_names stop own full part]:
  assumes "a_sweep a oid side limit rs lt rem = ((rs', lt', rem'), out)"
    and "\<And>rs lt rem. rs = [] \<or> rem = 0 \<or> \<not> crosses side limit (r_price (hd rs)) \<Longrightarrow> P rs lt rem rs lt rem []"
    and "\<And>r rs lt rem rs' lt' rem' out. \<lbrakk>rem \<noteq> 0; crosses side limit (r_price r); r_account r = a;
      a_sweep a oid side limit rs lt rem = ((rs', lt', rem'), out); P rs lt rem rs' lt' rem' out\<rbrakk> \<Longrightarrow>
      P (r # rs) lt rem rs' lt' rem' (Cancelled a (r_id r) # out)"
    and "\<And>r rs lt rem rs' lt' rem' out. \<lbrakk>rem \<noteq> 0; crosses side limit (r_price r); r_account r \<noteq> a; r_qty r \<le> rem;
      a_sweep a oid side limit rs (Some (r_price r)) (rem - r_qty r) = ((rs', lt', rem'), out);
      P rs (Some (r_price r)) (rem - r_qty r) rs' lt' rem' out\<rbrakk> \<Longrightarrow>
      P (r # rs) lt rem rs' lt' rem'
        (fill_events a oid side (r_account r) (r_id r) (r_price r) (r_qty r) (rem - r_qty r) 0 @ out)"
    and "\<And>r rs lt rem. \<lbrakk>rem \<noteq> 0; crosses side limit (r_price r); r_account r \<noteq> a; rem < r_qty r\<rbrakk> \<Longrightarrow>
      P (r # rs) lt rem (r\<lparr>r_qty := r_qty r - rem\<rparr> # rs) (Some (r_price r)) 0
        (fill_events a oid side (r_account r) (r_id r) (r_price r) rem 0 (r_qty r - rem))"
  shows "P rs lt rem rs' lt' rem' out"
  using assms(1)
proof (induction rs arbitrary: lt rem out)
  case Nil
  then show ?case using assms(2) [of "[]"] by auto
next
  case (Cons r rs)
  from sweep_cases [where rem = rem and side = side and limit = limit and r = r and a = a] show ?case
  proof cases
    case stop
    then show ?thesis using Cons.prems assms(2) [of "r # rs"] by auto
  next
    case own
    then show ?thesis using Cons.prems assms(3) [OF own] Cons.IH by (auto split: prod.splits)
  next
    case full
    then show ?thesis using Cons.prems assms(4) [OF full] Cons.IH by (auto simp: Let_def split: prod.splits)
  next
    case part
    then have "min rem (r_qty r) = rem" "rem \<noteq> r_qty r" by auto
    then show ?thesis using Cons.prems assms(5) [OF part] part by (auto simp: Let_def)
  qed
qed

lemma a_sweep_conserves:
  assumes "a_sweep a oid side limit rs lt rem = ((rs', lt', rem'), out)"
  shows "traded out + unat rem' = unat rem"
  using assms by (induction rule: a_sweep_induct) (simp_all add: unat_sub word_le_nat_alt)

text \<open>
  Price-time priority, \<open>in_priority a side limit rs rs' rem' fs\<close>: from the priority list
  \<open>rs\<close>, account \<open>a\<close> consumed a prefix of crossing orders. Its own orders produced no
  fill, the others were filled in full in list order, each at its own price; at most one further
  order was filled in part, and only when nothing of the aggressor remained. \<open>rs'\<close> is
  what is left.
\<close>

definition in_priority :: "account_id \<Rightarrow> side \<Rightarrow> price \<Rightarrow> rorder list \<Rightarrow> rorder list \<Rightarrow> u64 \<Rightarrow>
    ((account_id \<times> order_id) \<times> price \<times> qty \<times> qty) list \<Rightarrow> bool" where
  "in_priority a side limit rs rs' rem' fs \<longleftrightarrow> (\<exists>pre post.
     rs = pre @ post \<and> (\<forall>r \<in> set pre. crosses side limit (r_price r)) \<and>
     (rs' = post \<and> fs = map full_fill (filter (\<lambda>r. r_account r \<noteq> a) pre) \<or>
      (\<exists>r tl f. post = r # tl \<and> crosses side limit (r_price r) \<and> r_account r \<noteq> a \<and>
         0 < f \<and> f < r_qty r \<and> rem' = 0 \<and> rs' = r\<lparr>r_qty := r_qty r - f\<rparr> # tl \<and>
         fs = map full_fill (filter (\<lambda>r. r_account r \<noteq> a) pre) @
              [(rkey r, r_price r, f, r_qty r - f)])))"

lemma in_priority_stop: "in_priority a side limit rs rs rem []"
  unfolding in_priority_def by (intro exI [of _ "[]"] exI [of _ rs]) simp

lemma in_priority_partial:
  assumes "crosses side limit (r_price r)" and "r_account r \<noteq> a" and "0 < f" and "f < r_qty r"
  shows "in_priority a side limit (r # rs) (r\<lparr>r_qty := r_qty r - f\<rparr> # rs) 0
    [(rkey r, r_price r, f, r_qty r - f)]"
  unfolding in_priority_def using assms
  by (intro exI [of _ "[]"] exI [of _ "r # rs"]) auto

lemma in_priority_step:
  assumes "crosses side limit (r_price r)" and "in_priority a side limit rs rs' rem' fs"
  shows "in_priority a side limit (r # rs) rs' rem' (if r_account r = a then fs else full_fill r # fs)"
proof -
  obtain pre post where "rs = pre @ post" and rest: "\<forall>r \<in> set pre. crosses side limit (r_price r)"
    "rs' = post \<and> fs = map full_fill (filter (\<lambda>r. r_account r \<noteq> a) pre) \<or>
      (\<exists>r tl f. post = r # tl \<and> crosses side limit (r_price r) \<and> r_account r \<noteq> a \<and>
         0 < f \<and> f < r_qty r \<and> rem' = 0 \<and> rs' = r\<lparr>r_qty := r_qty r - f\<rparr> # tl \<and>
         fs = map full_fill (filter (\<lambda>r. r_account r \<noteq> a) pre) @
              [(rkey r, r_price r, f, r_qty r - f)])"
    using assms(2) unfolding in_priority_def by blast
  then have "r # rs = (r # pre) @ post" by simp
  then show ?thesis unfolding in_priority_def using rest assms(1)
    by (intro exI [of _ "r # pre"] exI [of _ post]) auto
qed

lemma a_sweep_priority:
  assumes "a_sweep a oid side limit rs lt rem = ((rs', lt', rem'), out)"
  shows "in_priority a side limit rs rs' rem' (fills_on (opposite side) out)"
  using assms
proof (induction rule: a_sweep_induct)
  case (own r rs lt rem rs' lt' rem' out)
  then show ?case using in_priority_step [OF own(2,5)] by simp
next
  case (full r rs lt rem rs' lt' rem' out)
  then show ?case using in_priority_step [OF full(2,6)] by (simp add: full_fill_def rkey_def)
next
  case (part r rs lt rem)
  then show ?case using in_priority_partial [OF part(2,3) _ part(4)] by (simp add: rkey_def word_neq_0_conv)
qed (simp add: in_priority_stop)

lemma in_priority_foreign:
  assumes "in_priority a side limit rs rs' rem' fs" and "(k, p, f, left) \<in> set fs"
  shows "fst k \<noteq> a" and "crosses side limit p"
    and "\<exists>r \<in> set rs. rkey r = k \<and> r_price r = p \<and> f \<le> r_qty r"
  using assms by (auto simp: in_priority_def full_fill_def rkey_def)

lemma in_priority_prices:
  assumes "in_priority a side limit rs rs' rem' fs"
  shows "r_price ` set rs' \<subseteq> r_price ` set rs"
  using assms by (fastforce simp: in_priority_def)

lemma in_priority_keys:
  assumes "in_priority a side limit rs rs' rem' fs"
  shows "rkey ` set rs' \<subseteq> rkey ` set rs"
proof -
  have "rkey (r\<lparr>r_qty := q\<rparr>) = rkey r" for r q by (simp add: rkey_def)
  then show ?thesis using assms by (auto simp: in_priority_def)
qed

lemma a_sweep_uncrossed:
  assumes "a_sweep a oid side limit rs lt rem = ((rs', lt', rem'), out)"
    and "prio_sorted (opposite side) rs" and "rem' \<noteq> 0" and "r \<in> set rs'"
  shows "\<not> crosses side limit (r_price r)"
  using assms
proof (induction rule: a_sweep_induct)
  case (stop rs lt rem)
  then show ?case by (cases rs) (auto simp: prio_sorted_def dest: crosses_ahead)
qed (simp_all add: prio_sorted_def)

text \<open>Every fill of the aggressor's side is the aggressor's, at a price within its limit.\<close>

lemma a_sweep_taker:
  assumes "a_sweep a oid side limit rs lt rem = ((rs', lt', rem'), out)"
    and "(k, p, f, left) \<in> set (fills_on side out)"
  shows "k = (a, oid) \<and> crosses side limit p"
  using assms
  by (induction a oid side limit rs lt rem arbitrary: out rule: a_sweep.induct)
    (auto simp: Let_def split: if_splits prod.splits)

lemma a_sweep_fillable:
  assumes "a_sweep a oid side limit rs lt rem = ((rs', lt', rem'), out)"
    and "unat rem \<le> foreign_qty a side limit rs"
  shows "rem' = 0"
  using assms
proof (induction rule: a_sweep_induct)
  case (stop rs lt rem)
  then show ?case by (cases rs) (auto simp: foreign_qty_def unat_eq_zero)
next
  case (full r rs lt rem rs' lt' rem' out)
  then show ?case using unat_sub [of "r_qty r" rem] by (simp add: foreign_qty_def)
qed (simp_all add: foreign_qty_def)

section \<open>Crossed books\<close>

definition a_uncrossed :: "abook \<Rightarrow> bool" where
  "a_uncrossed ab \<longleftrightarrow> (\<forall>x \<in> set (a_orders ab Buy). \<forall>y \<in> set (a_orders ab Sell). r_price x < r_price y)"

lemma a_uncrossed_side:
  "a_uncrossed ab \<longleftrightarrow> (\<forall>x \<in> set (a_orders ab side). \<forall>y \<in> set (a_orders ab (opposite side)).
     \<not> crosses side (r_price x) (r_price y))"
  by (cases side) (auto simp: a_uncrossed_def crosses_def not_le)

lemma a_uncrossed_shrink:
  assumes "a_uncrossed ab" and "\<And>sd. r_price ` set (a_orders ab' sd) \<subseteq> r_price ` set (a_orders ab sd)"
  shows "a_uncrossed ab'"
  using assms(1) assms(2) [of Buy] assms(2) [of Sell]
  by (fastforce simp: a_uncrossed_def image_subset_iff)

lemma set_a_rest [simp]: "set (a_rest sd r rs) = insert r (set rs)"
  unfolding a_rest_def using set_append [of "takeWhile P rs" "dropWhile P rs" for P]
  by (metis Un_insert_right list.simps(15) set_append takeWhile_dropWhile_id)

lemma a_uncrossed_add:
  assumes "a_uncrossed ab"
    and "\<forall>y \<in> set (a_orders ab (opposite side)). \<not> crosses side (r_price r) (r_price y)"
  shows "a_uncrossed (a_add side r ab)"
  using assms unfolding a_uncrossed_side [of _ side] by (auto simp: a_add_def)

lemma a_match_uncrossed:
  assumes "a_match ab a oid side limit q = ((ab', rem), out)" and "a_uncrossed ab"
  shows "a_uncrossed ab'"
    and "prio_sorted (opposite side) (a_orders ab (opposite side)) \<Longrightarrow> rem \<noteq> 0 \<Longrightarrow>
      \<forall>y \<in> set (a_orders ab' (opposite side)). \<not> crosses side limit (r_price y)"
proof -
  obtain rs lt where sw: "a_sweep a oid side limit (a_orders ab (opposite side)) (a_last ab) q =
      ((rs, lt, rem), out)"
    and ab': "ab' = \<lparr>a_orders = (a_orders ab)(opposite side := rs), a_last = lt\<rparr>"
    using assms(1) by (auto simp: a_match_def split: prod.splits)
  show "a_uncrossed ab'"
    using in_priority_prices [OF a_sweep_priority [OF sw]]
    by (intro a_uncrossed_shrink [OF assms(2)]) (simp add: ab')
  show "\<forall>y \<in> set (a_orders ab' (opposite side)). \<not> crosses side limit (r_price y)"
    if "prio_sorted (opposite side) (a_orders ab (opposite side))" "rem \<noteq> 0"
    using a_sweep_uncrossed [OF sw that] by (simp add: ab')
qed

definition a_sorted :: "abook \<Rightarrow> bool" where
  "a_sorted ab \<longleftrightarrow> (\<forall>sd. prio_sorted sd (a_orders ab sd))"

text \<open>Match, then rest what remains: the common end of a limit order and of an amend.\<close>

lemma match_rest_uncrossed:
  assumes "a_match ab a oid side p q = ((ab', rem), out)" and "a_uncrossed ab" and "a_sorted ab"
  shows "a_uncrossed (if rem = 0 then ab' else a_add side (order_for a oid p rem) ab')"
  using a_match_uncrossed [OF assms(1,2)] assms(3)
  by (auto simp: a_sorted_def order_for_def intro!: a_uncrossed_add)

lemma a_submit_gtc_uncrossed:
  assumes "a_uncrossed ab" and "a_sorted ab"
  shows "a_uncrossed (fst (a_submit_gtc ab a oid side p q))"
  using assms match_rest_uncrossed [of ab a oid side p q]
  by (auto simp: a_submit_gtc_def split: prod.splits)

lemma a_match_only_uncrossed:
  assumes "a_uncrossed ab"
  shows "a_uncrossed (fst (a_submit_ioc ab a oid side p q))"
    and "a_uncrossed (fst (a_submit_fok ab a oid side p q))"
  using assms a_match_uncrossed(1) [of ab a oid side p q]
  by (auto simp: a_submit_ioc_def a_submit_fok_def split: prod.splits)

lemma a_stp_shrinks:
  assumes "a_stp a side limit rs = ((rs', cross), out)"
  shows "\<exists>own. rs = own @ rs' \<and> (\<forall>r \<in> set own. r_account r = a \<and> crosses side limit (r_price r)) \<and>
    out = map (\<lambda>r. Cancelled a (r_id r)) own \<and>
    (cross \<longleftrightarrow> rs' \<noteq> [] \<and> crosses side limit (r_price (hd rs')))"
  using assms
proof (induction rs arbitrary: out)
  case (Cons r rs)
  show ?case
  proof (cases "crosses side limit (r_price r) \<and> r_account r = a")
    case True
    then obtain out' where "a_stp a side limit rs = ((rs', cross), out')" "out = Cancelled a (r_id r) # out'"
      using Cons.prems by (auto split: prod.splits)
    with Cons.IH obtain own where "rs = own @ rs'"
      "\<forall>r \<in> set own. r_account r = a \<and> crosses side limit (r_price r)"
      "out = map (\<lambda>r. Cancelled a (r_id r)) (r # own)"
      "cross \<longleftrightarrow> rs' \<noteq> [] \<and> crosses side limit (r_price (hd rs'))" by auto
    then show ?thesis using True by (intro exI [of _ "r # own"]) simp
  next
    case False
    then show ?thesis using Cons.prems by (auto split: if_splits)
  qed
qed simp

lemma prio_sorted_hd:
  assumes "prio_sorted (opposite side) rs" and "rs \<noteq> [] \<Longrightarrow> \<not> crosses side limit (r_price (hd rs))"
    and "r \<in> set rs"
  shows "\<not> crosses side limit (r_price r)"
  using assms by (cases rs) (auto simp: prio_sorted_def dest: crosses_ahead)

lemma a_submit_postonly_uncrossed:
  assumes un: "a_uncrossed ab" and so: "a_sorted ab"
  shows "a_uncrossed (fst (a_submit_postonly ab a oid side p q))"
proof (cases "a_present ab (a, oid)")
  case True
  then show ?thesis using un by (simp add: a_submit_postonly_def)
next
  case False
  obtain rs cross out where st: "a_stp a side p (a_orders ab (opposite side)) = ((rs, cross), out)"
    by (metis prod.exhaust)
  from a_stp_shrinks [OF st] obtain own where own: "a_orders ab (opposite side) = own @ rs"
    and cross: "cross \<longleftrightarrow> rs \<noteq> [] \<and> crosses side p (r_price (hd rs))" by blast
  let ?ab = "ab\<lparr>a_orders := (a_orders ab)(opposite side := rs)\<rparr>"
  have un': "a_uncrossed ?ab" by (rule a_uncrossed_shrink [OF un]) (auto simp: own)
  have "prio_sorted (opposite side) (own @ rs)" using so own by (simp add: a_sorted_def flip: own)
  then have "prio_sorted (opposite side) rs" by (simp add: prio_sorted_def sorted_wrt_append)
  then have "a_uncrossed (a_add side (order_for a oid p q) ?ab)" if "\<not> cross"
    using that cross prio_sorted_hd by (intro a_uncrossed_add [OF un']) (auto simp: order_for_def)
  then show ?thesis using un' st False by (simp add: a_submit_postonly_def Let_def)
qed

lemma a_drop_uncrossed: "a_uncrossed ab \<Longrightarrow> a_uncrossed (a_drop k ab)"
  by (erule a_uncrossed_shrink) (auto simp: a_drop_def drop_key_def)

lemma a_drop_sorted: "a_sorted ab \<Longrightarrow> a_sorted (a_drop k ab)"
  by (simp add: a_sorted_def a_drop_def drop_key_def prio_sorted_def sorted_wrt_filter)

lemma a_cancel_uncrossed: "a_uncrossed ab \<Longrightarrow> a_uncrossed (fst (a_cancel ab a oid))"
  by (simp add: a_cancel_def a_drop_uncrossed)

lemma a_modify_uncrossed:
  assumes un: "a_uncrossed ab" and so: "a_sorted ab"
  shows "a_uncrossed (fst (a_modify ab a oid p q))"
proof -
  have "a_uncrossed (ab\<lparr>a_orders := \<lambda>sd. set_qty (a, oid) q (a_orders ab sd)\<rparr>)"
    by (rule a_uncrossed_shrink [OF un]) (auto simp: set_qty_def)
  moreover note match_rest_uncrossed [OF _ a_drop_uncrossed [OF un] a_drop_sorted [OF so]]
  ultimately show ?thesis using un
    by (auto simp: a_modify_def split: option.splits prod.splits)
qed

text \<open>An order that does not cross and is behind all of its side goes to the end of its list.\<close>

lemma a_sweep_uncrossing:
  "(\<And>r. r \<in> set rs \<Longrightarrow> \<not> crosses side p (r_price r)) \<Longrightarrow> a_sweep a oid side p rs lt q = ((rs, lt, q), [])"
  by (cases rs) simp_all

lemma a_submit_behind:
  assumes "\<not> a_present ab (a, oid)" and "\<And>r. r \<in> set (a_orders ab (opposite side)) \<Longrightarrow> \<not> crosses side p (r_price r)"
    and "\<And>r. r \<in> set (a_orders ab side) \<Longrightarrow> ahead side (r_price r) p" and "q \<noteq> 0"
  shows "a_submit_gtc ab a oid side p q =
    (ab\<lparr>a_orders := (a_orders ab)(side := a_orders ab side @ [order_for a oid p q])\<rparr>, [Accepted a oid q])"
proof -
  have m: "a_match ab a oid side p q = ((ab, q), [])" using a_sweep_uncrossing [OF assms(2)] by (simp add: a_match_def)
  have "r_price (order_for a oid p q) = p" by (simp add: order_for_def)
  then have "a_rest side (order_for a oid p q) (a_orders ab side) = a_orders ab side @ [order_for a oid p q]"
    unfolding a_rest_def using assms(3) by (simp add: takeWhile_eq_all_conv [THEN iffD2] dropWhile_eq_Nil_conv [THEN iffD2])
  then show ?thesis using assms(1,4) by (simp add: a_submit_gtc_def m a_add_def)
qed

end
