(* ===== verification/Matching_Refine.thy ===== *)
theory Matching_Refine
  imports Matching_Spec
begin

text \<open>
  The matching operations of the book implement the abstract operations: on a book that
  satisfies the invariant they return (no panic, every loop ends), keep the invariant, emit
  the same events and leave the same priority lists.
\<close>

section \<open>The primitives on the abstract view\<close>

abbreviation slot_count :: "book \<Rightarrow> nat" where
  "slot_count b \<equiv> length (arena_slots (book_arena b))"

abbreviation book_room :: "book \<Rightarrow> bool" where
  "book_room b \<equiv> arena_room (book_arena b)"

lemma unlink_abs:
  assumes "book_inv b" and "heap_of b s = Some n"
  obtains b' where "unlink b s = Some b'" and "book_inv b'"
    and "resting b' = (\<lambda>sd. drop_key (node_account n, node_id n) (resting b sd))"
    and "book_room b'" and "slot_count b' = slot_count b" and "book_last_trade b' = book_last_trade b"
proof -
  have rep: "book_rep b (queue_of b)" using assms(1) by (simp add: book_inv_def)
  obtain b' mv where b': "unlink b s = Some b'" "book_rep b' (del_slot (queue_of b) s)"
    "heap_of b' = unlink_heap (heap_of b) s n mv" "book_room b'" "slot_count b' = slot_count b"
    "book_last_trade b' = book_last_trade b"
    using rep assms(2) by (rule unlink_rep)
  then show thesis using that unlink_resting [OF rep assms(2) b'(2,3)] by (auto intro: book_invI)
qed

lemma reduce_abs:
  assumes "book_inv b" and "heap_of b s = Some n" and "f < node_qty n"
  obtains b' where "reduce_resting_qty b s (node_side n) (node_price n) f = Some b'" and "book_inv b'"
    and "resting b' = (\<lambda>sd. set_qty (node_account n, node_id n) (node_qty n - f) (resting b sd))"
    and "book_room b \<longrightarrow> book_room b'" and "slot_count b' = slot_count b"
    and "book_last_trade b' = book_last_trade b"
proof -
  have rep: "book_rep b (queue_of b)" using assms(1) by (simp add: book_inv_def)
  obtain b' where b': "reduce_resting_qty b s (node_side n) (node_price n) f = Some b'"
    "book_rep b' (queue_of b)" "heap_of b' = with_qty (heap_of b) s n (node_qty n - f)"
    "slot_count b' = slot_count b" "arena_free (book_arena b') = arena_free (book_arena b)"
    "book_last_trade b' = book_last_trade b"
    using rep assms(2,3) by (rule reduce_rep)
  then show thesis using that set_qty_resting [OF rep assms(2) b'(2,3)]
    by (auto intro: book_invI simp: arena_room_def)
qed

lemma rest_abs:
  assumes "book_inv b" and "book_room b" and "\<not> hm_contains (book_order_index b) (a, oid)" and "q \<noteq> 0"
  obtains b' where "rest b a oid sd p q = Some b'" and "book_inv b'"
    and "resting b' = (resting b)(sd := a_rest sd (order_for a oid p q) (resting b sd))"
    and "slot_count b' \<le> Suc (slot_count b)" and "book_last_trade b' = book_last_trade b"
proof -
  have rep: "book_rep b (queue_of b)" using assms(1) by (simp add: book_inv_def)
  have new: "hm_get (book_order_index b) (a, oid) = None" using assms(3) by (simp add: hm_contains_def)
  obtain b' s i where b': "rest b a oid sd p q = Some b'" "book_rep b' (add_slot (queue_of b) sd p s)"
    "heap_of b s = None"
    "heap_of b' = rest_heap (heap_of b) (last_or (queue_of b sd p) NULL) s (new_node a oid sd p q i)"
    "slot_count b' \<le> Suc (slot_count b)" "book_last_trade b' = book_last_trade b"
    using rep assms(2) new assms(4) by (rule rest_rep)
  have "resting b' sd' = ((resting b)(sd := a_rest sd (order_for a oid p q) (resting b sd))) sd'" for sd'
    using rest_resting [OF rep b'(3,2,4)] by (cases "sd' = sd") (auto simp: order_for_def neq_side_iff)
  then show thesis using that [OF b'(1) book_invI [OF b'(2)] _ b'(5,6)] by (simp add: fun_eq_iff)
qed

text \<open>Fields outside the representation.\<close>

lemma book_inv_frame [simp]:
  "book_inv (b\<lparr>book_last_trade := x\<rparr>) \<longleftrightarrow> book_inv b"
  "book_inv (b\<lparr>book_mass_cancel_scratch := y\<rparr>) \<longleftrightarrow> book_inv b"
  "resting (b\<lparr>book_last_trade := x\<rparr>) = resting b"
  "resting (b\<lparr>book_mass_cancel_scratch := y\<rparr>) = resting b"
proof -
  have maps: "side_map (b\<lparr>book_last_trade := x\<rparr>) = side_map b"
    "side_map (b\<lparr>book_mass_cancel_scratch := y\<rparr>) = side_map b"
    by (auto simp: fun_eq_iff frame_simps)
  note l = book_rep_cong [of "b\<lparr>book_last_trade := x\<rparr>" b, OF _ maps(1)]
    and m = book_rep_cong [of "b\<lparr>book_mass_cancel_scratch := y\<rparr>" b, OF _ maps(2)]
  show "book_inv (b\<lparr>book_last_trade := x\<rparr>) \<longleftrightarrow> book_inv b"
    "book_inv (b\<lparr>book_mass_cancel_scratch := y\<rparr>) \<longleftrightarrow> book_inv b"
    using l m by (simp_all add: book_inv_def)
  have prio: "prio_prices (b\<lparr>book_last_trade := x\<rparr>) sd = prio_prices b sd"
    "prio_prices (b\<lparr>book_mass_cancel_scratch := y\<rparr>) sd = prio_prices b sd" for sd
    by (cases sd; simp)+
  show "resting (b\<lparr>book_last_trade := x\<rparr>) = resting b"
    "resting (b\<lparr>book_mass_cancel_scratch := y\<rparr>) = resting b"
    using l(2) m(2) by (intro ext, simp add: resting_def prio_slots_def prio)+
qed

lemma resting_headE:
  assumes "book_inv b" and "resting b sd = r # rs"
  obtains l n where "bt_get (side_map b sd) (r_price r) = Some l" and "level_head l \<noteq> NULL"
    and "heap_of b (level_head l) = Some n" and "node_side n = sd" and "order_of n = r"
    and "best_entry b sd = Some (r_price r, l)"
proof -
  have rep: "book_rep b (queue_of b)" using assms(1) by (simp add: book_inv_def)
  obtain p l where be: "best_entry b sd = Some (p, l)"
    using best_entry_None [OF rep, of sd] assms(2) by (cases "best_entry b sd") auto
  obtain n rs' where "heap_of b (level_head l) = Some n" "node_side n = sd" "node_price n = p"
    "resting b sd = order_of n # rs'" "level_head l \<noteq> NULL" "bt_get (side_map b sd) p = Some l"
    using rep be by (rule best_entry_Some)
  moreover from this have "order_of n = r" using assms(2) by simp
  ultimately show thesis using that [of l n] be by (metis order_of_simps(3))
qed

lemma crossing_level_eq:
  assumes "book_inv b"
  shows "crossing_level b side limit = (case resting b (opposite side) of [] \<Rightarrow> None
    | r # _ \<Rightarrow> if crosses side limit (r_price r) then Some (r_price r) else None)"
proof -
  have "crossing_level b side limit = (case map_option fst (best_entry b (opposite side)) of
      None \<Rightarrow> None | Some p \<Rightarrow> if crosses side limit p then Some p else None)"
    by (cases side) (auto simp: crossing_level_def best_entry_def crosses_def split: option.split)
  also have "map_option fst (best_entry b (opposite side)) =
      (case resting b (opposite side) of [] \<Rightarrow> None | r # _ \<Rightarrow> Some (r_price r))"
    using assms by (intro best_bid_resting) (simp add: book_inv_def)
  finally show ?thesis by (simp split: list.split)
qed

lemma book_inv_resting:
  assumes "book_inv b"
  shows "prio_sorted sd (resting b sd)" and "distinct (map rkey (resting b sd))"
    and "r \<in> set (resting b sd) \<Longrightarrow> r_qty r \<noteq> 0"
    and "hm_contains (book_order_index b) k \<longleftrightarrow> (\<exists>sd. k \<in> rkey ` set (resting b sd))"
    and "r \<in> set (resting b sd) \<Longrightarrow> rkey r \<notin> rkey ` set (resting b (opposite sd))"
proof -
  have rep: "book_rep b (queue_of b)" using assms by (simp add: book_inv_def)
  show "prio_sorted sd (resting b sd)" "distinct (map rkey (resting b sd))"
    "r \<in> set (resting b sd) \<Longrightarrow> r_qty r \<noteq> 0"
    "hm_contains (book_order_index b) k \<longleftrightarrow> (\<exists>sd. k \<in> rkey ` set (resting b sd))"
    using rep by (simp_all add: resting_sorted resting_keys_distinct resting_qty resting_index)
  show "rkey r \<notin> rkey ` set (resting b (opposite sd))" if "r \<in> set (resting b sd)"
    using resting_keys_disjoint(1) [OF rep that] by (metis imageE opposite_neq(2))
qed

section \<open>sweep\<close>

text \<open>
  Emitting events before a computation, and running the sweep of the next levels after the
  sweep of one level.
\<close>

definition emit_first :: "event list \<Rightarrow> 'a emitting \<Rightarrow> 'a emitting" where
  "emit_first evs c = map_option (\<lambda>(r, out). (r, evs @ out)) c"

definition then_sweep :: "account_id \<Rightarrow> order_id \<Rightarrow> side \<Rightarrow> price \<Rightarrow> (book \<times> u64) emitting \<Rightarrow>
    (book \<times> u64) emitting" where
  "then_sweep a oid side limit c =
     Option.bind c (\<lambda>((b, rem), out). emit_first out (sweep a oid side limit b rem))"

lemma emit_first_simps [simp]:
  "emit_first [] c = c" "emit_first evs (Some (r, out)) = Some (r, evs @ out)"
  by (simp_all add: emit_first_def option.map_id)

lemma then_sweep_emit:
  "then_sweep a oid side limit (emit_first evs c) = emit_first evs (then_sweep a oid side limit c)"
proof (cases c)
  case None
  then show ?thesis by (simp add: then_sweep_def emit_first_def)
next
  case (Some x)
  obtain b rem out where "x = ((b, rem), out)" by (metis prod.exhaust)
  with Some show ?thesis
    by (cases "sweep a oid side limit b rem") (auto simp: then_sweep_def emit_first_def)
qed

lemma sweep_unfold:
  "sweep a oid side limit b rem = (if rem = 0 then Some ((b, rem), [])
     else case crossing_level b side limit of None \<Rightarrow> Some ((b, rem), [])
     | Some p \<Rightarrow> then_sweep a oid side limit (sweep_level a oid side p b rem))"
  by (subst sweep.simps)
    (simp add: then_sweep_def emit_first_def map_conv_bind_option case_prod_unfold comp_def
      split: option.split)

text \<open>
  Sweeping the rest of the best level and then the next levels is sweeping: the two nested
  loops act as one loop over the priority list.
\<close>

lemma sweep_merge:
  assumes inv: "book_inv b" and cross: "crosses side limit p"
    and best: "\<forall>x \<in> set (resting b (opposite side)). ahead (opposite side) p (r_price x)"
  shows "then_sweep a oid side limit (sweep_level a oid side p b rem) = sweep a oid side limit b rem"
proof (cases "rem = 0 \<or> bt_get (side_map b (opposite side)) p = None")
  case True
  then have "sweep_level a oid side p b rem = Some ((b, rem), [])" by (subst sweep_level.simps) auto
  then show ?thesis by (simp add: then_sweep_def)
next
  case False
  have rep: "book_rep b (queue_of b)" using inv by (simp add: book_inv_def)
  have "queue_of b (opposite side) p \<noteq> []"
    using False levels_okD(2) [OF book_repD(3) [OF rep], of "opposite side" p]
    by (auto simp: level_view_def)
  then obtain s where "s \<in> set (queue_of b (opposite side) p)" by (meson last_in_set)
  then obtain n where n: "heap_of b s = Some n" "node_side n = opposite side" "node_price n = p"
    using queues_okD(1) [OF book_repD(2) [OF rep]] by blast
  have mem: "order_of n \<in> set (resting b (opposite side))" using resting_memI [OF rep n(1)] n(2) by simp
  then obtain r rs where rs: "resting b (opposite side) = r # rs"
    by (cases "resting b (opposite side)") auto
  have "ahead (opposite side) (r_price r) p"
    using mem rs n(3) book_inv_resting(1) [OF inv, of "opposite side"] by (auto simp: prio_sorted_def)
  then have "r_price r = p" using best rs ahead_antisym by auto
  then have "crossing_level b side limit = Some p"
    using crossing_level_eq [OF inv, of side limit] rs cross by simp
  then show ?thesis using False by (simp add: sweep_unfold)
qed

text \<open>What dropping or reducing the head of a priority list does to the view.\<close>

lemma head_update:
  assumes inv: "book_inv b" and rs: "resting b sd = r # rs"
  shows "(\<lambda>s. drop_key (rkey r) (resting b s)) = (resting b)(sd := rs)"
    and "(\<lambda>s. set_qty (rkey r) q (resting b s)) = (resting b)(sd := r\<lparr>r_qty := q\<rparr> # rs)"
proof -
  have other: "rkey r \<notin> rkey ` set (resting b s)" if "s \<noteq> sd" for s
    using book_inv_resting(5) [OF inv, of r sd] rs that by (simp add: neq_side_iff)
  note dk = book_inv_resting(2) [OF inv, of sd, unfolded rs]
  show "(\<lambda>s. drop_key (rkey r) (resting b s)) = (resting b)(sd := rs)"
    using rs other drop_key_head [OF dk] by (auto simp: fun_eq_iff drop_key_absent)
  show "(\<lambda>s. set_qty (rkey r) q (resting b s)) = (resting b)(sd := r\<lparr>r_qty := q\<rparr> # rs)"
    using rs other set_qty_head [OF dk] by (auto simp: fun_eq_iff set_qty_absent)
qed

text \<open>One turn of the inner loop, on the order at the head of the priority list.\<close>

lemma sweep_level_own:
  assumes inv: "book_inv b" and rs: "resting b (opposite side) = r # rs" and rem: "rem \<noteq> 0"
    and own: "r_account r = a"
  obtains b' where "sweep_level a oid side (r_price r) b rem =
      emit_first [Cancelled a (r_id r)] (sweep_level a oid side (r_price r) b' rem)"
    and "book_inv b'" and "resting b' = (resting b)(opposite side := rs)" and "book_room b'"
    and "slot_count b' = slot_count b" and "book_last_trade b' = book_last_trade b"
proof -
  obtain l n where hd: "bt_get (side_map b (opposite side)) (r_price r) = Some l" "level_head l \<noteq> NULL"
    "heap_of b (level_head l) = Some n" "order_of n = r"
    using inv rs by (rule resting_headE)
  have n: "node_account n = r_account r" "node_id n = r_id r" "(r_account r, r_id r) = rkey r"
    using hd(4) by (auto simp: rkey_def)
  obtain b' where b': "unlink b (level_head l) = Some b'" "book_inv b'"
    "resting b' = (resting b)(opposite side := rs)" "book_room b'"
    "slot_count b' = slot_count b" "book_last_trade b' = book_last_trade b"
    using inv hd(3) by (rule unlink_abs) (simp add: n head_update [OF inv rs])
  have "sweep_level a oid side (r_price r) b rem =
      emit_first [Cancelled a (r_id r)] (sweep_level a oid side (r_price r) b' rem)"
    using rem hd(1-3) b'(1) own n
    by (subst sweep_level.simps)
      (simp add: emit_first_def map_conv_bind_option case_prod_unfold comp_def)
  then show thesis using that b' by blast
qed

lemma head_fill:
  assumes inv: "book_inv b" and rs: "resting b sd = r # rs" and f: "f \<le> r_qty r"
    and head: "heap_of b s = Some n" "order_of n = r" "node_side n = sd"
  obtains b' where "(if f = r_qty r then unlink (b\<lparr>book_last_trade := t\<rparr>) s
      else reduce_resting_qty (b\<lparr>book_last_trade := t\<rparr>) s sd (r_price r) f) = Some b'"
    and "book_inv b'"
    and "resting b' = (resting b)(sd := (if f = r_qty r then rs else r\<lparr>r_qty := r_qty r - f\<rparr> # rs))"
    and "book_room b \<longrightarrow> book_room b'" and "slot_count b' = slot_count b" and "book_last_trade b' = t"
proof -
  have n: "node_price n = r_price r" "node_qty n = r_qty r" "(node_account n, node_id n) = rkey r"
    using head(2) by auto
  have inv1: "book_inv (b\<lparr>book_last_trade := t\<rparr>)" "heap_of (b\<lparr>book_last_trade := t\<rparr>) s = Some n"
    using inv head(1) by simp_all
  show thesis
  proof (cases "f = r_qty r")
    case True
    obtain b' where "unlink (b\<lparr>book_last_trade := t\<rparr>) s = Some b'" "book_inv b'"
      "resting b' = (resting b)(sd := rs)" "book_room b'"
      "slot_count b' = slot_count b" "book_last_trade b' = t"
      using inv1 by (rule unlink_abs) (simp add: n head_update [OF inv rs])
    then show thesis using that [of b'] True by simp
  next
    case False
    then have "f < node_qty n" using f n(2) by simp
    with inv1 obtain b' where
      "reduce_resting_qty (b\<lparr>book_last_trade := t\<rparr>) s (node_side n) (node_price n) f = Some b'"
      "book_inv b'" "resting b' = (resting b)(sd := r\<lparr>r_qty := r_qty r - f\<rparr> # rs)"
      "book_room b \<longrightarrow> book_room b'" "slot_count b' = slot_count b" "book_last_trade b' = t"
      by (rule reduce_abs) (simp add: n head_update [OF inv rs])
    then show thesis using that [of b'] False n(1) head(3) by simp
  qed
qed

lemma sweep_level_fill:
  assumes inv: "book_inv b" and rs: "resting b (opposite side) = r # rs" and rem: "rem \<noteq> 0"
    and foreign: "r_account r \<noteq> a" and f: "f = min rem (r_qty r)"
  obtains b' where "sweep_level a oid side (r_price r) b rem =
      emit_first (fill_events a oid side (r_account r) (r_id r) (r_price r) f (rem - f) (r_qty r - f))
        (sweep_level a oid side (r_price r) b' (rem - f))"
    and "book_inv b'"
    and "resting b' = (resting b)(opposite side :=
        (if f = r_qty r then rs else r\<lparr>r_qty := r_qty r - f\<rparr> # rs))"
    and "book_room b \<longrightarrow> book_room b'" and "slot_count b' = slot_count b"
    and "book_last_trade b' = Some (r_price r)"
proof -
  obtain l n where hd: "bt_get (side_map b (opposite side)) (r_price r) = Some l" "level_head l \<noteq> NULL"
    "heap_of b (level_head l) = Some n" "node_side n = opposite side" "order_of n = r"
    using inv rs by (rule resting_headE)
  have n: "node_account n = r_account r" "node_id n = r_id r" "node_price n = r_price r"
    "node_qty n = r_qty r" using hd(5) by auto
  have "f \<le> r_qty r" using f by simp
  with inv rs obtain b' where run: "(if f = r_qty r then unlink (b\<lparr>book_last_trade := Some (r_price r)\<rparr>) (level_head l)
      else reduce_resting_qty (b\<lparr>book_last_trade := Some (r_price r)\<rparr>) (level_head l) (opposite side)
        (r_price r) f) = Some b'"
    and b': "book_inv b'" "resting b' = (resting b)(opposite side :=
        (if f = r_qty r then rs else r\<lparr>r_qty := r_qty r - f\<rparr> # rs))" "book_room b \<longrightarrow> book_room b'"
      "slot_count b' = slot_count b" "book_last_trade b' = Some (r_price r)"
    using hd(3,5,4) by (rule head_fill)
  have "sweep_level a oid side (r_price r) b rem =
      emit_first (fill_events a oid side (r_account r) (r_id r) (r_price r) f (rem - f) (r_qty r - f))
        (sweep_level a oid side (r_price r) b' (rem - f))"
    using rem hd(1-3) foreign run [unfolded f]
    by (subst sweep_level.simps, cases "min rem (r_qty r) = r_qty r")
      (simp_all add: emit_first_def map_conv_bind_option case_prod_unfold comp_def Let_def n f)
  then show thesis using that b' by blast
qed

text \<open>
  \<open>swept b side c r\<close>: the computation \<open>c\<close> from \<open>b\<close> returns, keeps the
  invariant and agrees with the abstract result \<open>r\<close>; no slot is allocated.
\<close>

definition swept :: "book \<Rightarrow> side \<Rightarrow> (book \<times> u64) emitting \<Rightarrow>
    (rorder list \<times> price option \<times> u64) \<times> event list \<Rightarrow> bool" where
  "swept b side c r \<longleftrightarrow> (\<exists>b' rs lt rem out. r = ((rs, lt, rem), out) \<and> c = Some ((b', rem), out) \<and>
     book_inv b' \<and> resting b' = (resting b)(opposite side := rs) \<and> book_last_trade b' = lt \<and>
     (book_room b \<longrightarrow> book_room b') \<and> slot_count b' = slot_count b)"

lemma swept_emit:
  assumes "swept b' side c r" and "resting b' = (resting b)(opposite side := rs)"
    and "book_room b \<longrightarrow> book_room b'" and "slot_count b' = slot_count b"
  shows "swept b side (emit_first evs c) (fst r, evs @ snd r)"
  using assms unfolding swept_def by fastforce

lemma swept_stop:
  assumes "book_inv b"
  shows "swept b side (Some ((b, rem), [])) ((resting b (opposite side), book_last_trade b, rem), [])"
  using assms by (auto simp: swept_def fun_eq_iff)

lemma sweep_step:
  assumes inv: "book_inv b" and rs: "resting b (opposite side) = r # rs" and rem: "rem \<noteq> 0"
    and cross: "crosses side limit (r_price r)"
    and step: "sweep_level a oid side (r_price r) b rem =
      emit_first evs (sweep_level a oid side (r_price r) b' rem')"
    and inv': "book_inv b'" and rs': "resting b' = (resting b)(opposite side := rs'')"
    and sub: "r_price ` set rs'' \<subseteq> r_price ` set (r # rs)"
  shows "sweep a oid side limit b rem = emit_first evs (sweep a oid side limit b' rem')"
proof -
  have "sweep a oid side limit b rem =
      then_sweep a oid side limit (sweep_level a oid side (r_price r) b rem)"
    using rem cross rs crossing_level_eq [OF inv, of side limit] by (simp add: sweep_unfold)
  also have "\<dots> = emit_first evs
      (then_sweep a oid side limit (sweep_level a oid side (r_price r) b' rem'))"
    by (simp add: step then_sweep_emit)
  also have "then_sweep a oid side limit (sweep_level a oid side (r_price r) b' rem') =
      sweep a oid side limit b' rem'"
  proof (rule sweep_merge [OF inv' cross])
    have "\<forall>x \<in> set (r # rs). ahead (opposite side) (r_price r) (r_price x)"
      using book_inv_resting(1) [OF inv, of "opposite side"] rs by (simp add: prio_sorted_def)
    then show "\<forall>x \<in> set (resting b' (opposite side)). ahead (opposite side) (r_price r) (r_price x)"
      using sub unfolding rs' by fastforce
  qed
  finally show ?thesis .
qed

theorem sweep_refines:
  assumes "book_inv b"
  shows "swept b side (sweep a oid side limit b rem)
    (a_sweep a oid side limit (resting b (opposite side)) (book_last_trade b) rem)"
  using assms
proof (induction "resting b (opposite side)" arbitrary: b rem)
  case Nil
  then have "sweep a oid side limit b rem = Some ((b, rem), [])"
    using crossing_level_eq [OF Nil(2), of side limit] by (simp add: sweep_unfold split: list.splits)
  then show ?case using swept_stop [OF Nil(2), of side rem] by (simp flip: Nil(1))
next
  case (Cons r rs)
  note rs = Cons.hyps(2) [symmetric] and inv = Cons.prems
  from sweep_cases [where rem = rem and side = side and limit = limit and r = r and a = a] show ?case
  proof cases
    case stop
    then have "sweep a oid side limit b rem = Some ((b, rem), [])"
      using crossing_level_eq [OF inv, of side limit] rs by (auto simp: sweep_unfold)
    then show ?thesis using swept_stop [OF inv, of side rem] stop by (simp add: rs)
  next
    case own
    obtain b' where step: "sweep_level a oid side (r_price r) b rem =
        emit_first [Cancelled a (r_id r)] (sweep_level a oid side (r_price r) b' rem)"
      and b': "book_inv b'" "resting b' = (resting b)(opposite side := rs)" "book_room b'"
        "slot_count b' = slot_count b" "book_last_trade b' = book_last_trade b"
      using inv rs own(1,3) by (rule sweep_level_own)
    have "sweep a oid side limit b rem = emit_first [Cancelled a (r_id r)] (sweep a oid side limit b' rem)"
      using inv rs own(1,2) step b'(1,2) by (rule sweep_step) auto
    then show ?thesis
      using swept_emit [OF Cons.hyps(1) [OF _ b'(1), of rem] b'(2) _ b'(4), of "[Cancelled a (r_id r)]"]
        own b'(2,3,5) by (simp add: rs case_prod_unfold Let_def)
  next
    case full
    then have m: "r_qty r = min rem (r_qty r)" by simp
    let ?evs = "fill_events a oid side (r_account r) (r_id r) (r_price r) (r_qty r) (rem - r_qty r)
        (r_qty r - r_qty r)"
    obtain b' where step: "sweep_level a oid side (r_price r) b rem =
        emit_first ?evs (sweep_level a oid side (r_price r) b' (rem - r_qty r))"
      and b': "book_inv b'" "resting b' = (resting b)(opposite side := rs)"
        "book_room b \<longrightarrow> book_room b'" "slot_count b' = slot_count b"
        "book_last_trade b' = Some (r_price r)"
      using inv rs full(1,3) m by (rule sweep_level_fill) simp
    have "sweep a oid side limit b rem = emit_first ?evs (sweep a oid side limit b' (rem - r_qty r))"
      using inv rs full(1,2) step b'(1,2) by (rule sweep_step) auto
    then show ?thesis
      using swept_emit [OF Cons.hyps(1) [OF _ b'(1), of "rem - r_qty r"] b'(2,3,4), of ?evs]
        full b'(2,5) m by (simp add: rs case_prod_unfold Let_def)
  next
    case part
    then have m: "rem = min rem (r_qty r)" "rem \<noteq> r_qty r" by auto
    let ?evs = "fill_events a oid side (r_account r) (r_id r) (r_price r) rem (rem - rem) (r_qty r - rem)"
    obtain b' where step: "sweep_level a oid side (r_price r) b rem =
        emit_first ?evs (sweep_level a oid side (r_price r) b' (rem - rem))"
      and b': "book_inv b'" "resting b' = (resting b)(opposite side := r\<lparr>r_qty := r_qty r - rem\<rparr> # rs)"
        "book_room b \<longrightarrow> book_room b'" "slot_count b' = slot_count b"
        "book_last_trade b' = Some (r_price r)"
      using inv rs part(1,3) m(1) by (rule sweep_level_fill) (use m(2) in simp)
    have "sweep a oid side limit b rem = emit_first ?evs (sweep a oid side limit b' (rem - rem))"
      using inv rs part(1,2) step b'(1,2) by (rule sweep_step) auto
    also have "sweep a oid side limit b' (rem - rem) = Some ((b', 0), [])" by (simp add: sweep_unfold)
    finally show ?thesis
      using b' part m by (auto simp: swept_def rs Let_def)
  qed
qed

section \<open>The FOK precheck\<close>

definition foreign_sum :: "account_id \<Rightarrow> rorder list \<Rightarrow> nat" where
  "foreign_sum a rs = (\<Sum>r\<leftarrow>filter (\<lambda>r. r_account r \<noteq> a) rs. unat (r_qty r))"

lemma foreign_qty_append:
  assumes "\<forall>r \<in> set xs. crosses side limit (r_price r)"
  shows "foreign_qty a side limit (xs @ ys) = foreign_sum a xs + foreign_qty a side limit ys"
  using assms by (simp add: foreign_qty_def foreign_sum_def takeWhile_append2)

text \<open>Walking one chain: \<open>needed\<close> counts down by the foreign quantity, never below zero.\<close>

lemma level_foreign_qty_chain:
  assumes "linked (links (heap_of b)) p q NULL" and "NULL \<notin> set q"
  shows "\<exists>found m. level_foreign_qty b a (hd_or q NULL) needed = Some (found, m) \<and>
    (if found then unat needed \<le> foreign_sum a (orders_at (heap_of b) q)
     else unat m = unat needed - foreign_sum a (orders_at (heap_of b) q))"
  using assms
proof (induction q arbitrary: p needed)
  case Nil
  then show ?case by (subst level_foreign_qty.simps) (auto simp: orders_at_def foreign_sum_def)
next
  case (Cons x q)
  obtain n where n: "heap_of b x = Some n" "node_next n = hd_or q NULL"
    using Cons.prems(1) by (auto simp: links_def)
  have sum: "foreign_sum a (orders_at (heap_of b) (x # q)) =
      (if node_account n = a then 0 else unat (node_qty n)) + foreign_sum a (orders_at (heap_of b) q)"
    using n(1) by (simp add: orders_at_def foreign_sum_def)
  have IH: "\<exists>found m. level_foreign_qty b a (hd_or q NULL) needed' = Some (found, m) \<and>
      (if found then unat needed' \<le> foreign_sum a (orders_at (heap_of b) q)
       else unat m = unat needed' - foreign_sum a (orders_at (heap_of b) q))" for needed'
    using Cons.IH [of x] Cons.prems by simp
  let ?m = "needed - min needed (node_qty n)"
  have m: "unat ?m = unat needed - unat (node_qty n)" by (simp add: unat_sub_min unat_min)
  have run: "level_foreign_qty b a (hd_or (x # q) NULL) needed =
      (if node_account n = a then level_foreign_qty b a (hd_or q NULL) needed
       else if ?m = 0 then Some (True, ?m) else level_foreign_qty b a (hd_or q NULL) ?m)"
    using n Cons.prems(2) by (subst level_foreign_qty.simps) (auto simp: Let_def)
  show ?case
  proof (cases "node_account n = a")
    case True
    then have "level_foreign_qty b a (hd_or (x # q) NULL) needed = level_foreign_qty b a (hd_or q NULL) needed"
      and "foreign_sum a (orders_at (heap_of b) (x # q)) = foreign_sum a (orders_at (heap_of b) q)"
      by (simp_all add: run sum del: hd_or_simps)
    then show ?thesis using IH [of needed] by metis
  next
    case False
    show ?thesis
    proof (cases "?m = 0")
      case True
      then have "unat needed \<le> unat (node_qty n)" using m by simp
      then show ?thesis using True False by (intro exI [of _ True]) (simp add: run sum del: hd_or_simps)
    next
      case neq: False
      obtain found m' where "level_foreign_qty b a (hd_or q NULL) ?m = Some (found, m')"
        "if found then unat ?m \<le> foreign_sum a (orders_at (heap_of b) q)
         else unat m' = unat ?m - foreign_sum a (orders_at (heap_of b) q)" using IH by blast
      then show ?thesis using neq False m by (auto simp: run sum simp del: hd_or_simps split: if_splits)
    qed
  qed
qed

lemma fillable_levels_eq:
  assumes rep: "book_rep b Q"
    and levels: "\<forall>(p, l) \<in> set levels. Q sd p \<noteq> [] \<and> level_head l = hd (Q sd p) \<and>
      (beyond p \<longleftrightarrow> \<not> crosses side limit p)"
  shows "fillable_levels b a beyond levels needed = Some (unat needed \<le>
    foreign_qty a side limit (concat (map (\<lambda>(p, l). orders_at (heap_of b) (Q sd p)) levels)))"
  using levels
proof (induction levels arbitrary: needed)
  case Nil
  then show ?case by (simp add: foreign_qty_def unat_eq_zero)
next
  case (Cons e levels)
  obtain p l where e: "e = (p, l)" by fastforce
  let ?rs = "orders_at (heap_of b) (Q sd p)"
  have price: "\<forall>r \<in> set ?rs. r_price r = p"
    using queues_okD(1) [OF book_repD(2) [OF rep]] by (auto simp: orders_at_def)
  have ne: "?rs \<noteq> []" and head: "level_head l = hd_or (Q sd p) NULL"
    using Cons.prems e by (auto simp: orders_at_def hd_or_def split: list.split)
  show ?case
  proof (cases "crosses side limit p")
    case True
    obtain found m where walk: "level_foreign_qty b a (level_head l) needed = Some (found, m)"
      "if found then unat needed \<le> foreign_sum a ?rs else unat m = unat needed - foreign_sum a ?rs"
      unfolding head
      using level_foreign_qty_chain [OF queues_okD(3) [OF book_repD(2) [OF rep]] queue_no_NULL [OF rep]]
      by metis
    have "foreign_qty a side limit (concat (map (\<lambda>(p, l). orders_at (heap_of b) (Q sd p)) (e # levels))) =
        foreign_sum a ?rs + foreign_qty a side limit (concat (map (\<lambda>(p, l). orders_at (heap_of b) (Q sd p)) levels))"
      using foreign_qty_append [of ?rs side limit a] price True e by simp
    then show ?thesis using walk True Cons e by (auto split: if_splits)
  next
    case False
    then have "foreign_qty a side limit (?rs @ ys) = 0" for ys
      using ne price by (cases ?rs) (auto simp: foreign_qty_def)
    then show ?thesis using False Cons.prems e by (simp add: unat_eq_zero)
  qed
qed

theorem is_fillable_eq:
  assumes "book_inv b"
  shows "is_fillable b a side limit q =
    Some (unat q \<le> foreign_qty a side limit (resting b (opposite side)))"
proof -
  have rep: "book_rep b (queue_of b)" using assms by (simp add: book_inv_def)
  define levels where "levels = (case side of Buy \<Rightarrow> book_asks b | Sell \<Rightarrow> rev (book_bids b))"
  have prices: "map fst levels = prio_prices b (opposite side)"
    by (cases side) (simp_all add: levels_def rev_map)
  have mem: "queue_of b (opposite side) p \<noteq> [] \<and> level_head l = hd (queue_of b (opposite side) p)"
    if "(p, l) \<in> set levels" for p l
  proof -
    have "(p, l) \<in> set (side_map b (opposite side))" using that by (cases side) (auto simp: levels_def)
    then have "bt_get (side_map b (opposite side)) p = Some l"
      using levels_okD(1) [OF book_repD(3) [OF rep]] by (simp add: bt_get_Some_iff)
    then show ?thesis using levels_okD(2) [OF book_repD(3) [OF rep], of "opposite side" p]
      by (auto simp: level_view_def split: if_splits)
  qed
  have "map (\<lambda>(p, l). orders_at (heap_of b) (queue_of b (opposite side) p)) levels =
      map (orders_at (heap_of b)) (map (queue_of b (opposite side)) (map fst levels))"
    by (simp add: case_prod_unfold)
  then have resting: "concat (map (\<lambda>(p, l). orders_at (heap_of b) (queue_of b (opposite side) p)) levels) =
      resting b (opposite side)"
    unfolding prices by (simp add: resting_def prio_slots_def orders_at_def [abs_def] map_concat)
  have "fillable_levels b a beyond levels q = Some (unat q \<le> foreign_qty a side limit (resting b (opposite side)))"
    if "\<And>p. beyond p \<longleftrightarrow> \<not> crosses side limit p" for beyond
    unfolding resting [symmetric]
    by (rule fillable_levels_eq [OF rep]) (use mem that in auto)
  then show ?thesis by (cases side) (simp_all add: is_fillable_def levels_def crosses_def not_le)
qed

section \<open>The PostOnly precheck\<close>

theorem stp_refines:
  assumes "book_inv b"
  shows "\<exists>b' rs cross out. a_stp a side limit (resting b (opposite side)) = ((rs, cross), out) \<and>
    stp_clear_crossing_self_orders a side limit b = Some ((b', cross), out) \<and>
    book_inv b' \<and> resting b' = (resting b)(opposite side := rs) \<and>
    book_last_trade b' = book_last_trade b \<and> (book_room b \<longrightarrow> book_room b') \<and>
    slot_count b' = slot_count b"
  using assms
proof (induction "resting b (opposite side)" arbitrary: b)
  case Nil
  then have "stp_clear_crossing_self_orders a side limit b = Some ((b, False), [])"
    using crossing_level_eq [OF Nil(2), of side limit]
    by (subst stp_clear_crossing_self_orders.simps) (simp split: list.splits)
  then show ?case using Nil by (auto simp: fun_eq_iff simp flip: Nil(1))
next
  case (Cons r rs)
  note rs = Cons.hyps(2) [symmetric] and inv = Cons.prems
  obtain l n where hd: "bt_get (side_map b (opposite side)) (r_price r) = Some l" "level_head l \<noteq> NULL"
    "heap_of b (level_head l) = Some n" "order_of n = r"
    using inv rs by (rule resting_headE)
  have n: "node_account n = r_account r" "node_id n = r_id r" "(r_account r, r_id r) = rkey r"
    using hd(4) by (auto simp: rkey_def)
  have cross: "crossing_level b side limit = (if crosses side limit (r_price r) then Some (r_price r) else None)"
    using crossing_level_eq [OF inv, of side limit] rs by simp
  show ?case
  proof (cases "crosses side limit (r_price r) \<and> r_account r = a")
    case True
    obtain b' where b': "unlink b (level_head l) = Some b'" "book_inv b'"
      "resting b' = (resting b)(opposite side := rs)" "book_room b'"
      "slot_count b' = slot_count b" "book_last_trade b' = book_last_trade b"
      using inv hd(3) by (rule unlink_abs) (simp add: n head_update [OF inv rs])
    have "rs = resting b' (opposite side)" by (simp add: b'(3))
    from Cons.hyps(1) [OF this b'(2)] obtain b'' rs' cr out where
      IH: "a_stp a side limit rs = ((rs', cr), out)"
        "stp_clear_crossing_self_orders a side limit b' = Some ((b'', cr), out)" "book_inv b''"
        "resting b'' = (resting b)(opposite side := rs')" "book_last_trade b'' = book_last_trade b"
        "book_room b''" "slot_count b'' = slot_count b"
      unfolding b'(3) using b'(4-6) by auto
    then have "stp_clear_crossing_self_orders a side limit b = Some ((b'', cr), Cancelled a (r_id r) # out)"
      using True hd(1-3) n b'(1) cross by (subst stp_clear_crossing_self_orders.simps) simp
    then show ?thesis using IH True by (simp add: rs)
  next
    case False
    then have "stp_clear_crossing_self_orders a side limit b = Some ((b, crosses side limit (r_price r)), [])"
      using hd(1-3) n(1) cross by (subst stp_clear_crossing_self_orders.simps) auto
    then show ?thesis using False inv rs by (auto simp: fun_eq_iff)
  qed
qed

end
