(* ===== verification/Ops_Refine.thy ===== *)
theory Ops_Refine
  imports Matching_Refine "HOL-Library.Multiset"
begin

text \<open>
  The public operations of the book (five submits, \<open>modify\<close>, \<open>cancel\<close>,
  \<open>mass_cancel\<close>) implement the abstract operations of \<open>Matching_Spec\<close>.
\<close>

section \<open>The operations\<close>

text \<open>
  \<open>refines b c r\<close>: from \<open>b\<close> the operation \<open>c\<close> returns, keeps the invariant,
  emits the events and reaches the book of the abstract result \<open>r\<close>, and allocates at most one slot.
\<close>

definition refines :: "book \<Rightarrow> book emitting \<Rightarrow> abook \<times> event list \<Rightarrow> bool" where
  "refines b c r \<longleftrightarrow> (\<exists>b'. c = Some (b', snd r) \<and> book_inv b' \<and> abs_book b' = fst r \<and>
     slot_count b' \<le> Suc (slot_count b))"

lemma refines_skip: "book_inv b \<Longrightarrow> refines b (Some (b, out)) (abs_book b, out)"
  by (simp add: refines_def)

lemma a_present_abs: "book_inv b \<Longrightarrow> a_present (abs_book b) k \<longleftrightarrow> hm_contains (book_order_index b) k"
  using book_inv_resting(4) [of b k]
  by (simp add: a_present_def abs_book_def image_Un) (metis side.exhaust)

lemma abs_book_simps [simp]: "a_orders (abs_book b) = resting b" "a_last (abs_book b) = book_last_trade b"
  by (simp_all add: abs_book_def)

lemma sweep_match:
  assumes "book_inv b"
  obtains b' rem out where "sweep a oid side limit b q = Some ((b', rem), out)"
    and "a_match (abs_book b) a oid side limit q = ((abs_book b', rem), out)" and "book_inv b'"
    and "book_room b \<longrightarrow> book_room b'" and "slot_count b' = slot_count b"
    and "\<forall>k. hm_contains (book_order_index b') k \<longrightarrow> hm_contains (book_order_index b) k"
proof -
  obtain b' rs lt rem out where
    sw: "a_sweep a oid side limit (resting b (opposite side)) (book_last_trade b) q = ((rs, lt, rem), out)"
    and run: "sweep a oid side limit b q = Some ((b', rem), out)" and inv: "book_inv b'"
    and rs: "resting b' = (resting b)(opposite side := rs)" and lt: "book_last_trade b' = lt"
    and room: "book_room b \<longrightarrow> book_room b'" and len: "slot_count b' = slot_count b"
    using sweep_refines [OF assms, of side a oid limit q] unfolding swept_def by blast
  have "rkey ` set (resting b' sd) \<subseteq> rkey ` set (resting b sd)" for sd
    using in_priority_keys [OF a_sweep_priority [OF sw]] by (simp add: rs)
  then have "\<forall>k. hm_contains (book_order_index b') k \<longrightarrow> hm_contains (book_order_index b) k"
    unfolding book_inv_resting(4) [OF inv] book_inv_resting(4) [OF assms] by blast
  then show thesis using that [OF run _ inv room len] sw rs lt
    by (simp add: a_match_def abs_book_def)
qed

lemma rest_refines:
  assumes "book_inv b" and "book_room b" and "\<not> hm_contains (book_order_index b) (a, oid)" and "q \<noteq> 0"
  obtains b' where "rest b a oid side p q = Some b'" and "book_inv b'"
    and "abs_book b' = a_add side (order_for a oid p q) (abs_book b)"
    and "slot_count b' \<le> Suc (slot_count b)"
  using assms by (rule rest_abs [where sd = side and p = p]) (simp add: a_add_def abs_book_def)

text \<open>Match, then rest what remains: the common end of a limit order and of an amend.\<close>

lemma match_restE:
  assumes inv: "book_inv b" and room: "book_room b"
    and new: "\<not> hm_contains (book_order_index b) (a, oid)"
  obtains b' b'' rem out where "sweep a oid side p b q = Some ((b', rem), out)"
    and "(if 0 < rem then rest b' a oid side p rem else Some b') = Some b''" and "book_inv b''"
    and "a_match (abs_book b) a oid side p q = ((abs_book b', rem), out)"
    and "abs_book b'' = (if rem = 0 then abs_book b' else a_add side (order_for a oid p rem) (abs_book b'))"
    and "slot_count b'' \<le> Suc (slot_count b)"
proof -
  obtain b' rem out where sw: "sweep a oid side p b q = Some ((b', rem), out)"
    "a_match (abs_book b) a oid side p q = ((abs_book b', rem), out)" "book_inv b'"
    "book_room b \<longrightarrow> book_room b'" "slot_count b' = slot_count b"
    "\<forall>k. hm_contains (book_order_index b') k \<longrightarrow> hm_contains (book_order_index b) k"
    using inv by (rule sweep_match)
  show thesis
  proof (cases "rem = 0")
    case True
    then show thesis using that [OF sw(1) _ sw(3) sw(2)] sw(5) by simp
  next
    case False
    have "book_room b'" "\<not> hm_contains (book_order_index b') (a, oid)" using sw(4,6) room new by auto
    with sw(3) obtain b'' where "rest b' a oid side p rem = Some b''" "book_inv b''"
      "abs_book b'' = a_add side (order_for a oid p rem) (abs_book b')"
      "slot_count b'' \<le> Suc (slot_count b')"
      using False by (rule rest_refines)
    then show thesis using that [OF sw(1) _ _ sw(2)] sw(5) False by (simp add: word_neq_0_conv)
  qed
qed

theorem submit_gtc_refines:
  assumes inv: "book_inv b" and room: "book_room b"
  shows "refines b (submit_gtc b a oid side p q) (a_submit_gtc (abs_book b) a oid side p q)"
proof (cases "hm_contains (book_order_index b) (a, oid)")
  case True
  then show ?thesis using refines_skip [OF inv] by (simp add: submit_gtc_def a_submit_gtc_def a_present_abs [OF inv])
next
  case False
  with inv room obtain b' b'' rem out where "sweep a oid side p b q = Some ((b', rem), out)"
    "(if 0 < rem then rest b' a oid side p rem else Some b') = Some b''" "book_inv b''"
    "a_match (abs_book b) a oid side p q = ((abs_book b', rem), out)"
    "abs_book b'' = (if rem = 0 then abs_book b' else a_add side (order_for a oid p rem) (abs_book b'))"
    "slot_count b'' \<le> Suc (slot_count b)"
    by (rule match_restE [where side = side and p = p and q = q])
  then show ?thesis using False
    by (simp add: refines_def submit_gtc_def a_submit_gtc_def a_present_abs [OF inv])
qed

theorem submit_ioc_refines:
  assumes inv: "book_inv b"
  shows "refines b (submit_ioc b a oid side p q) (a_submit_ioc (abs_book b) a oid side p q)"
proof -
  obtain b' rem out where "sweep a oid side p b q = Some ((b', rem), out)"
    "a_match (abs_book b) a oid side p q = ((abs_book b', rem), out)" "book_inv b'"
    "slot_count b' = slot_count b"
    using inv by (rule sweep_match)
  then show ?thesis using inv
    by (simp add: refines_def submit_ioc_def a_submit_ioc_def a_present_abs)
qed

theorem submit_market_refines:
  assumes inv: "book_inv b"
  shows "refines b (submit_market b a oid side q) (a_submit_ioc (abs_book b) a oid side (market_bound side) q)"
  using submit_ioc_refines [OF inv, of a oid side "market_bound side" q]
  by (simp add: submit_market_def submit_ioc_def)

theorem submit_fok_refines:
  assumes inv: "book_inv b"
  shows "refines b (submit_fok b a oid side p q) (a_submit_fok (abs_book b) a oid side p q)"
proof -
  obtain b' rem out where "sweep a oid side p b q = Some ((b', rem), out)"
    "a_match (abs_book b) a oid side p q = ((abs_book b', rem), out)" "book_inv b'"
    "slot_count b' = slot_count b"
    using inv by (rule sweep_match)
  then show ?thesis using inv
    by (simp add: refines_def submit_fok_def a_submit_fok_def a_present_abs is_fillable_eq not_le)
qed

theorem submit_postonly_refines:
  assumes inv: "book_inv b" and room: "book_room b" and q: "q \<noteq> 0"
  shows "refines b (submit_postonly b a oid side p q) (a_submit_postonly (abs_book b) a oid side p q)"
proof (cases "hm_contains (book_order_index b) (a, oid)")
  case True
  then show ?thesis
    using refines_skip [OF inv] by (simp add: submit_postonly_def a_submit_postonly_def a_present_abs [OF inv])
next
  case False
  obtain b' rs cross out where st: "a_stp a side p (resting b (opposite side)) = ((rs, cross), out)"
    "stp_clear_crossing_self_orders a side p b = Some ((b', cross), out)" "book_inv b'"
    "resting b' = (resting b)(opposite side := rs)" "book_last_trade b' = book_last_trade b"
    "book_room b'" "slot_count b' = slot_count b"
    using stp_refines [OF inv, of a side p] room by blast
  have abs: "abs_book b' = (abs_book b)\<lparr>a_orders := (resting b)(opposite side := rs)\<rparr>"
    using st(4,5) by (simp add: abs_book_def)
  have "set rs \<subseteq> set (resting b (opposite side))" using a_stp_shrinks [OF st(1)] by auto
  then have new: "\<not> hm_contains (book_order_index b') (a, oid)"
    using False unfolding book_inv_resting(4) [OF inv] book_inv_resting(4) [OF st(3)] st(4) by auto
  obtain b'' where "rest b' a oid side p q = Some b''" "book_inv b''"
    "abs_book b'' = a_add side (order_for a oid p q) (abs_book b')" "slot_count b'' \<le> Suc (slot_count b')"
    using st(3,6) new q by (rule rest_refines)
  then show ?thesis using False st abs
    by (simp add: refines_def submit_postonly_def a_submit_postonly_def a_present_abs [OF inv] Let_def)
qed

section \<open>modify and cancel\<close>

lemma modify_in_place_abs:
  assumes inv: "book_inv b" and live: "heap_of b s = Some n" and q: "q \<noteq> 0"
  obtains b' where "modify_in_place b s n q = Some b'" and "book_inv b'"
    and "resting b' = (\<lambda>sd. set_qty (node_account n, node_id n) q (resting b sd))"
    and "slot_count b' = slot_count b" and "book_last_trade b' = book_last_trade b"
proof -
  have rep: "book_rep b (queue_of b)" using inv by (simp add: book_inv_def)
  obtain l where l: "bt_get (side_map b (node_side n)) (node_price n) = Some l"
    using rep live by (rule live_level)
  obtain e where e: "hm_get (book_accounts b) (node_account n) = Some e"
    using book_repD(5) [OF rep] live by (rule accounts_ok_liveD)
  obtain a' where a': "arena_modify (book_arena b) s (\<lambda>n. n\<lparr>node_qty := q\<rparr>) = Some a'"
    "arena_get a' = with_qty (heap_of b) s n q" "arena_free a' = arena_free (book_arena b)"
    "length (arena_slots a') = slot_count b" "arena_wf a'"
    using book_repD(1) [OF rep] live by (rule arena_modifyE)
  define b' where "b' = set_side_map (node_side n) (bt_insert (node_price n)
      (l\<lparr>level_total_qty := level_total_qty l - node_qty n + q\<rparr>) (side_map b (node_side n)))
      (b\<lparr>book_arena := a', book_accounts := hm_insert (node_account n) (e\<lparr>entry_notional :=
        entry_notional e - notional_of (node_price n) (node_qty n) + notional_of (node_price n) q\<rparr>)
        (book_accounts b)\<rparr>)"
  have run: "modify_in_place b s n q = Some b'"
    by (simp add: modify_in_place_def a'(1) l e b'_def Let_def)
  have rep': "book_rep b' (queue_of b)"
    using rep live q l e by (rule set_qty_rep) (simp_all add: b'_def frame_simps a' fun_eq_iff)
  have "heap_of b' = with_qty (heap_of b) s n q" by (simp add: b'_def frame_simps a')
  then have "resting b' = (\<lambda>sd. set_qty (node_account n, node_id n) q (resting b sd))"
    using set_qty_resting [OF rep live rep'] by (simp add: fun_eq_iff)
  then show thesis using that [OF run book_invI [OF rep']] by (simp add: b'_def frame_simps a')
qed

lemma find_key:
  assumes "distinct (map rkey rs)" and "r \<in> set rs"
  shows "find (\<lambda>x. rkey x = rkey r) rs = Some r"
  using assms by (induction rs) auto

lemma a_find_abs:
  assumes inv: "book_inv b"
  shows "hm_get (book_order_index b) k = None \<Longrightarrow> a_find (abs_book b) k = None"
    and "hm_get (book_order_index b) k = Some s \<Longrightarrow> \<exists>n. heap_of b s = Some n \<and>
      k = (node_account n, node_id n) \<and> a_find (abs_book b) k = Some (node_side n, order_of n)"
proof -
  have rep: "book_rep b (queue_of b)" using inv by (simp add: book_inv_def)
  have absent: "find (\<lambda>r. rkey r = k) (resting b sd) = None" if "k \<notin> rkey ` set (resting b sd)" for sd
    using that by (auto simp: find_None_iff)
  show "a_find (abs_book b) k = None" if "hm_get (book_order_index b) k = None"
    using that book_inv_resting(4) [OF inv, of k] absent by (simp add: a_find_def hm_contains_def)
  show "\<exists>n. heap_of b s = Some n \<and> k = (node_account n, node_id n) \<and>
      a_find (abs_book b) k = Some (node_side n, order_of n)" if s: "hm_get (book_order_index b) k = Some s"
  proof -
    obtain n where n: "heap_of b s = Some n" "k = (node_account n, node_id n)"
      using s index_okD(2) [OF book_repD(4) [OF rep]] by blast
    have mem: "order_of n \<in> set (resting b (node_side n))" using resting_memI [OF rep n(1)] .
    have "find (\<lambda>r. rkey r = k) (resting b (node_side n)) = Some (order_of n)"
      using find_key [OF book_inv_resting(2) [OF inv] mem] n(2) by simp
    moreover have "find (\<lambda>r. rkey r = k) (resting b (opposite (node_side n))) = None"
      using book_inv_resting(5) [OF inv mem] n(2) absent by simp
    ultimately show ?thesis using n by (cases "node_side n") (auto simp: a_find_def)
  qed
qed

theorem modify_refines:
  assumes inv: "book_inv b"
  shows "refines b (modify b a oid p q) (a_modify (abs_book b) a oid p q)"
proof (cases "q = 0 \<or> hm_get (book_order_index b) (a, oid) = None")
  case True
  then show ?thesis using refines_skip [OF inv] a_find_abs(1) [OF inv, of "(a, oid)"]
    by (auto simp: modify_def a_modify_def)
next
  case False
  then obtain s where s: "hm_get (book_order_index b) (a, oid) = Some s" by auto
  from a_find_abs(2) [OF inv s] obtain n where n: "heap_of b s = Some n"
    "a = node_account n" "oid = node_id n"
    "a_find (abs_book b) (a, oid) = Some (node_side n, order_of n)" by auto
  show ?thesis
  proof (cases "p = node_price n \<and> q \<le> node_qty n")
    case True
    obtain b' where "modify_in_place b s n q = Some b'" "book_inv b'"
      "resting b' = (\<lambda>sd. set_qty (node_account n, node_id n) q (resting b sd))"
      "slot_count b' = slot_count b" "book_last_trade b' = book_last_trade b"
      using inv n(1) False by (auto elim: modify_in_place_abs [where q = q])
    then show ?thesis using True False s n
      by (simp add: refines_def modify_def a_modify_def abs_book_def not_less)
  next
    case change: False
    then have changed: "p \<noteq> node_price n \<or> node_qty n < q" by auto
    obtain b0 where b0: "unlink b s = Some b0" "book_inv b0"
      "resting b0 = (\<lambda>sd. drop_key (node_account n, node_id n) (resting b sd))"
      "book_room b0" "slot_count b0 = slot_count b" "book_last_trade b0 = book_last_trade b"
      using inv n(1) by (rule unlink_abs)
    have abs: "abs_book b0 = a_drop (a, oid) (abs_book b)" using b0 n by (simp add: abs_book_def a_drop_def)
    have "\<not> hm_contains (book_order_index b0) (a, oid)"
      unfolding book_inv_resting(4) [OF b0(2)] b0(3) using n by (auto simp: drop_key_def)
    with b0(2,4) obtain b' b'' rem out where
      "sweep a oid (node_side n) p b0 q = Some ((b', rem), out)"
      "(if 0 < rem then rest b' a oid (node_side n) p rem else Some b') = Some b''" "book_inv b''"
      "a_match (abs_book b0) a oid (node_side n) p q = ((abs_book b', rem), out)"
      "abs_book b'' = (if rem = 0 then abs_book b'
         else a_add (node_side n) (order_for a oid p rem) (abs_book b'))"
      "slot_count b'' \<le> Suc (slot_count b0)"
      by (rule match_restE [where side = "node_side n" and p = p and q = q])
    moreover from this have "modify b a oid p q = Some (b'', Replaced a oid q False # out)"
      using changed False s n(1) b0(1) by (cases "0 < rem") (auto simp: modify_def)
    moreover have "\<not> (p = r_price (order_of n) \<and> q \<le> r_qty (order_of n))" using change by simp
    ultimately show ?thesis using False n(4) b0(5) abs
      by (simp add: refines_def a_modify_def)
  qed
qed

theorem cancel_refines:
  assumes inv: "book_inv b"
  shows "refines b (cancel b a oid) (a_cancel (abs_book b) a oid)"
proof (cases "hm_get (book_order_index b) (a, oid)")
  case None
  then show ?thesis using refines_skip [OF inv]
    by (simp add: cancel_def a_cancel_def a_present_abs [OF inv] hm_contains_def)
next
  case (Some s)
  from a_find_abs(2) [OF inv Some] obtain n where n: "heap_of b s = Some n"
    "(a, oid) = (node_account n, node_id n)" by auto
  obtain b' where "unlink b s = Some b'" "book_inv b'"
    "resting b' = (\<lambda>sd. drop_key (a, oid) (resting b sd))" "slot_count b' = slot_count b"
    "book_last_trade b' = book_last_trade b"
    using inv n(1) unfolding n(2) by (rule unlink_abs)
  moreover have "a_present (abs_book b) (a, oid)"
    using Some by (simp add: a_present_abs [OF inv] hm_contains_def)
  ultimately show ?thesis using Some
    by (simp add: refines_def cancel_def a_cancel_def a_drop_def abs_book_def)
qed

section \<open>mass\_cancel\<close>

text \<open>
  The loop runs over a copy of the account's slots while \<open>unlink\<close> reorders the
  original: the copied slots stay live and distinct until the loop reaches them.
\<close>

lemma mass_cancel_loop_abs:
  assumes "book_inv b" and "distinct slots" and "\<forall>s \<in> set slots. \<exists>n. heap_of b s = Some n \<and> node_account n = a"
  shows "\<exists>b' ks. mass_cancel_loop a b slots = Some (b', map (\<lambda>k. Cancelled a (snd k)) ks) \<and>
    book_inv b' \<and> ks = map (\<lambda>s. rkey (order_of (the (heap_of b s)))) slots \<and>
    resting b' = (\<lambda>sd. filter (\<lambda>r. rkey r \<notin> set ks) (resting b sd)) \<and>
    book_last_trade b' = book_last_trade b \<and> slot_count b' = slot_count b"
  using assms
proof (induction slots arbitrary: b)
  case Nil
  then show ?case by simp
next
  case (Cons s slots)
  then obtain n where n: "heap_of b s = Some n" "node_account n = a" by auto
  have rep: "book_rep b (queue_of b)" using Cons.prems(1) by (simp add: book_inv_def)
  obtain b1 mv where b1: "unlink b s = Some b1" "book_rep b1 (del_slot (queue_of b) s)"
    "heap_of b1 = unlink_heap (heap_of b) s n mv" "slot_count b1 = slot_count b"
    "book_last_trade b1 = book_last_trade b"
    using rep n(1) by (rule unlink_rep)
  have res1: "resting b1 sd = drop_key (node_account n, node_id n) (resting b sd)" for sd
    by (rule unlink_resting [OF rep n(1) b1(2,3)])
  have keep: "heap_of b1 t \<noteq> None \<and> node_account (the (heap_of b1 t)) = a \<and>
      rkey (order_of (the (heap_of b1 t))) = rkey (order_of (the (heap_of b t)))" if "t \<in> set slots" for t
    using that Cons.prems(2,3) by (auto simp: b1(3) unlink_heap_def)
  then have "\<forall>t \<in> set slots. \<exists>m. heap_of b1 t = Some m \<and> node_account m = a" by fastforce
  with Cons.IH [OF book_invI [OF b1(2)]] Cons.prems(2) obtain b' ks where
    IH: "mass_cancel_loop a b1 slots = Some (b', map (\<lambda>k. Cancelled a (snd k)) ks)" "book_inv b'"
      "ks = map (\<lambda>s. rkey (order_of (the (heap_of b1 s)))) slots"
      "resting b' = (\<lambda>sd. filter (\<lambda>r. rkey r \<notin> set ks) (resting b1 sd))"
      "book_last_trade b' = book_last_trade b1" "slot_count b' = slot_count b1" by auto
  have ks: "ks = map (\<lambda>s. rkey (order_of (the (heap_of b s)))) slots"
    unfolding IH(3) using keep by (intro map_cong) auto
  have "resting b' = (\<lambda>sd. filter (\<lambda>r. rkey r \<notin> set ((a, node_id n) # ks)) (resting b sd))"
    using n(2) by (auto simp: IH(4) res1 drop_key_def fun_eq_iff conj_commute intro!: filter_cong)
  moreover have "mass_cancel_loop a b (s # slots) =
      Some (b', map (\<lambda>k. Cancelled a (snd k)) ((a, node_id n) # ks))"
    using n(1) b1(1) IH(1) by simp
  moreover have "(a, node_id n) # ks = map (\<lambda>s. rkey (order_of (the (heap_of b s)))) (s # slots)"
    using n ks by simp
  ultimately show ?case using IH(2,5,6) b1(4,5) by metis
qed

text \<open>The orders of one account, on both sides.\<close>

definition orders_of :: "book \<Rightarrow> account_id \<Rightarrow> rorder list" where
  "orders_of b a = filter (\<lambda>r. r_account r = a) (resting b Buy @ resting b Sell)"

lemma account_slots:
  assumes rep: "book_rep b Q" and e: "hm_get (book_accounts b) a = Some e"
  shows "set (entry_slots e) = {s. \<exists>n. heap_of b s = Some n \<and> node_account n = a}"
proof (intro set_eqI iffI)
  fix s assume "s \<in> set (entry_slots e)"
  then show "s \<in> {s. \<exists>n. heap_of b s = Some n \<and> node_account n = a}"
    using accounts_ok_slotD [OF book_repD(5) [OF rep] e] by (fastforce simp: in_set_conv_nth)
next
  fix s assume "s \<in> {s. \<exists>n. heap_of b s = Some n \<and> node_account n = a}"
  then obtain n where "heap_of b s = Some n" "node_account n = a" by blast
  then show "s \<in> set (entry_slots e)"
    using accounts_ok_liveD [OF book_repD(5) [OF rep]] e by (metis nth_mem option.inject)
qed

lemma prio_slots_account:
  assumes rep: "book_rep b Q" and e: "hm_get (book_accounts b) a = Some e"
  shows "mset (entry_slots e) = mset (filter (\<lambda>s. node_account (the (heap_of b s)) = a)
    (prio_slots b Buy @ prio_slots b Sell))"
proof -
  have "distinct (prio_slots b Buy @ prio_slots b Sell)"
    using distinct_prio_slots [OF rep] set_prio_slots [OF rep] by auto
  moreover have "set (entry_slots e) = set (filter (\<lambda>s. node_account (the (heap_of b s)) = a)
      (prio_slots b Buy @ prio_slots b Sell))"
  proof (intro set_eqI)
    fix s
    have "(\<exists>n. heap_of b s = Some n) \<longleftrightarrow> s \<in> set (prio_slots b Buy @ prio_slots b Sell)"
      using set_prio_slots [OF rep, of s] by (auto intro: side.exhaust)
    then show "s \<in> set (entry_slots e) \<longleftrightarrow> s \<in> set (filter (\<lambda>s. node_account (the (heap_of b s)) = a)
        (prio_slots b Buy @ prio_slots b Sell))"
      unfolding account_slots [OF rep e] by auto
  qed
  ultimately show ?thesis
    using accounts_ok_distinct [OF book_repD(5) [OF rep] e]
    by (metis distinct_filter set_eq_iff_mset_eq_distinct)
qed

lemma orders_of_slots:
  "orders_of b a = map (\<lambda>s. order_of (the (heap_of b s)))
     (filter (\<lambda>s. node_account (the (heap_of b s)) = a) (prio_slots b Buy @ prio_slots b Sell))"
  by (simp add: orders_of_def resting_def orders_at_def filter_map comp_def)

lemma orders_of_mset:
  assumes "book_rep b Q" and "hm_get (book_accounts b) a = Some e"
  shows "mset (map (\<lambda>s. order_of (the (heap_of b s))) (entry_slots e)) = mset (orders_of b a)"
  unfolding orders_of_slots mset_map prio_slots_account [OF assms] ..

theorem mass_cancel_spec:
  assumes inv: "book_inv b"
  shows "\<exists>b' ids. mass_cancel b a = Some (b', map (Cancelled a) ids) \<and> book_inv b' \<and>
    mset ids = mset (map r_id (orders_of b a)) \<and>
    resting b' = (\<lambda>sd. filter (\<lambda>r. r_account r \<noteq> a) (resting b sd)) \<and>
    book_last_trade b' = book_last_trade b \<and> slot_count b' = slot_count b"
proof -
  have rep: "book_rep b (queue_of b)" using inv by (simp add: book_inv_def)
  show ?thesis
  proof (cases "hm_get (book_accounts b) a")
    case None
    have "r_account r \<noteq> a" if r: "r \<in> set (resting b sd)" for r sd
    proof -
      obtain s n where "heap_of b s = Some n" "r = order_of n" using rep r by (rule resting_memE)
      then show ?thesis using accounts_ok_liveD [OF book_repD(5) [OF rep]] None
        by (metis option.distinct(1) order_of_simps(1))
    qed
    then have "filter (\<lambda>r. r_account r \<noteq> a) (resting b sd) = resting b sd"
      and "filter (\<lambda>r. r_account r = a) (resting b sd) = []" for sd
      by (auto simp: filter_id_conv filter_empty_conv)
    then show ?thesis using inv None by (intro exI [of _ b] exI [of _ "[]"]) (simp add: mass_cancel_def orders_of_def)
  next
    case (Some e)
    let ?b = "b\<lparr>book_mass_cancel_scratch := entry_slots e\<rparr>"
    have inv1: "book_inv ?b" using inv by simp
    have live: "\<forall>s \<in> set (entry_slots e). \<exists>n. heap_of ?b s = Some n \<and> node_account n = a"
      using account_slots [OF rep Some] by auto
    obtain b' ks where run: "mass_cancel_loop a ?b (entry_slots e) = Some (b', map (\<lambda>k. Cancelled a (snd k)) ks)"
      and b': "book_inv b'" "ks = map (\<lambda>s. rkey (order_of (the (heap_of b s)))) (entry_slots e)"
        "resting b' = (\<lambda>sd. filter (\<lambda>r. rkey r \<notin> set ks) (resting b sd))"
        "book_last_trade b' = book_last_trade b" "slot_count b' = slot_count b"
      using mass_cancel_loop_abs [OF inv1 accounts_ok_distinct [OF book_repD(5) [OF rep] Some] live] by auto
    have ks: "ks = map rkey (map (\<lambda>s. order_of (the (heap_of b s))) (entry_slots e))" using b'(2) by simp
    have mem: "set ks = rkey ` set (orders_of b a)"
      unfolding ks using orders_of_mset [OF rep Some] by (metis set_map set_mset_mset)
    have "rkey r \<notin> set ks \<longleftrightarrow> r_account r \<noteq> a" if "r \<in> set (resting b sd)" for r sd
      unfolding mem using that by (cases sd) (auto simp: orders_of_def rkey_def)
    then have res: "resting b' = (\<lambda>sd. filter (\<lambda>r. r_account r \<noteq> a) (resting b sd))"
      unfolding b'(3) by (intro ext filter_cong) auto
    have "mset (map snd ks) = mset (map r_id (map (\<lambda>s. order_of (the (heap_of b s))) (entry_slots e)))"
      unfolding ks by (simp add: comp_def rkey_def)
    also have "\<dots> = mset (map r_id (orders_of b a))" using orders_of_mset [OF rep Some] by (metis mset_map)
    finally show ?thesis using run b' res Some
      by (intro exI [of _ b'] exI [of _ "map snd ks"]) (simp add: mass_cancel_def comp_def)
  qed
qed

end
