(* ===== verification/Book_Check.thy ===== *)
theory Book_Check
  imports Ops_Refine
begin

text \<open>
  The read-only walks of \<open>book.rs\<close>: \<open>walk_level\<close>, \<open>assert_invariants\<close>
  and \<open>snapshot\<close>. The first two are the program's own statement of its invariants, as
  panicking checks. They pass on every book that satisfies \<open>book_inv\<close>, is not crossed
  and rests no order at price zero; the last condition is needed, and the engine does not
  establish it for amended orders.
\<close>

section \<open>Definitions\<close>

partial_function (option) walk_chain ::
    "book \<Rightarrow> side \<Rightarrow> price \<Rightarrow> u32 \<Rightarrow> u32 \<Rightarrow> u32 list \<Rightarrow> u64 \<Rightarrow> (u32 list \<times> u64 \<times> u32) option" where
  "walk_chain b side price cursor prev_slot slots tot =
     (if cursor = NULL then Some (slots, tot, prev_slot)
      else do {
        node \<leftarrow> arena_get (book_arena b) cursor;
        assert_that (node_prev node = prev_slot);
        assert_that (node_price node = price);
        assert_that (node_side node = side);
        assert_that (node_qty node \<noteq> 0);
        assert_that (node_price node \<noteq> 0);
        walk_chain b side price (node_next node) cursor (slots @ [cursor]) (tot + node_qty node)
      })"

declare walk_chain.simps [code]

definition walk_level :: "book \<Rightarrow> side \<Rightarrow> price \<Rightarrow> level \<Rightarrow> u32 list option" where
  "walk_level b side price level = do {
     (slots, tot, prev_slot) \<leftarrow> walk_chain b side price (level_head level) NULL [] 0;
     assert_that (prev_slot = level_tail level);
     assert_that (of_nat (length slots) = level_count level);
     assert_that (tot = level_total_qty level);
     Some slots
   }"

text \<open>\<open>found_in_levels\<close>: a \<open>HashSet\<close> whose \<open>insert\<close> must report a new element.\<close>

fun insert_found :: "u32 list \<Rightarrow> u32 list \<Rightarrow> u32 list option" where
  "insert_found [] found = Some found"
| "insert_found (slot # slots) found = do {
     assert_that (slot \<notin> set found);
     insert_found slots (found @ [slot])
   }"

fun collect_levels :: "book \<Rightarrow> side \<Rightarrow> (price \<times> level) list \<Rightarrow> u32 list \<Rightarrow> u32 list option" where
  "collect_levels b side [] found = Some found"
| "collect_levels b side ((price, level) # levels) found = do {
     slots \<leftarrow> walk_level b side price level;
     found \<leftarrow> insert_found slots found;
     collect_levels b side levels found
   }"

fun walk_account :: "book \<Rightarrow> account_id \<Rightarrow> nat \<Rightarrow> u32 list \<Rightarrow> u128 \<Rightarrow> u128 option" where
  "walk_account b account idx [] walked = Some walked"
| "walk_account b account idx (slot # slots) walked = do {
     node \<leftarrow> arena_get (book_arena b) slot;
     assert_that (node_account node = account);
     assert_that (unat (node_acct_idx node) = idx);
     walk_account b account (Suc idx) slots (walked + notional_of (node_price node) (node_qty node))
   }"

definition assert_invariants :: "book \<Rightarrow> unit option" where
  "assert_invariants b = do {
     for_each (\<lambda>(price, level). assert_that (\<not> level_is_empty level)) (book_bids b);
     for_each (\<lambda>(price, level). assert_that (\<not> level_is_empty level)) (book_asks b);
     found \<leftarrow> collect_levels b Buy (book_bids b) [];
     found \<leftarrow> collect_levels b Sell (book_asks b) found;
     assert_that (arena_len (book_arena b) = length found);
     assert_that (length (book_order_index b) = length found);
     for_each (\<lambda>((account, order_id), slot). do {
       assert_that (slot \<in> set found);
       node \<leftarrow> arena_get (book_arena b) slot;
       assert_that (node_id node = order_id);
       assert_that (node_account node = account)
     }) (book_order_index b);
     for_each (\<lambda>slot. do {
       node \<leftarrow> arena_get (book_arena b) slot;
       assert_that (hm_get (book_order_index b) (node_account node, node_id node) = Some slot)
     }) found;
     for_each (\<lambda>slot. do {
       node \<leftarrow> arena_get (book_arena b) slot;
       entry \<leftarrow> hm_get (book_accounts b) (node_account node);
       assert_that (vec_get (entry_slots entry) (unat (node_acct_idx node)) = Some slot)
     }) found;
     for_each (\<lambda>(account, entry). do {
       walked \<leftarrow> walk_account b account 0 (entry_slots entry) 0;
       assert_that (walked = entry_notional entry)
     }) (book_accounts b);
     (case (best_bid b, best_ask b) of
        (Some bid, Some ask) \<Rightarrow> assert_that (bid < ask)
      | _ \<Rightarrow> Some ())
   }"

text \<open>\<open>snapshot\<close>: \<open>accounts_seen\<close> and \<open>accounts_order\<close> hold the same accounts.\<close>

fun snapshot_slots :: "book \<Rightarrow> u32 list \<Rightarrow> account_id list \<Rightarrow> account_id list option" where
  "snapshot_slots b [] accounts = Some accounts"
| "snapshot_slots b (slot # slots) accounts = do {
     node \<leftarrow> arena_get (book_arena b) slot;
     snapshot_slots b slots
       (if node_account node \<in> set accounts then accounts else accounts @ [node_account node])
   }"

fun snapshot_levels :: "book \<Rightarrow> side \<Rightarrow> (price \<times> level) list \<Rightarrow> u64 \<Rightarrow> account_id list \<Rightarrow>
    ((u64 \<times> account_id list) \<times> event list) option" where
  "snapshot_levels b side [] lcount accounts = Some ((lcount, accounts), [])"
| "snapshot_levels b side ((price, level) # levels) lcount accounts = do {
     slots \<leftarrow> walk_level b side price level;
     accounts \<leftarrow> snapshot_slots b slots accounts;
     (r, out) \<leftarrow> snapshot_levels b side levels (lcount + 1) accounts;
     Some (r, SnapshotLevel side price (level_total_qty level) (ucast (level_count level)) # out)
   }"

fun snapshot_accounts :: "book \<Rightarrow> account_id list \<Rightarrow> event list option" where
  "snapshot_accounts b [] = Some []"
| "snapshot_accounts b (account # accounts) = do {
     entry \<leftarrow> hm_get (book_accounts b) account;
     out \<leftarrow> snapshot_accounts b accounts;
     Some (SnapshotAccount account (of_nat (open_order_count entry)) (entry_notional entry) # out)
   }"

definition snapshot :: "book \<Rightarrow> event list option" where
  "snapshot b = do {
     ((lcount, accounts), out1) \<leftarrow> snapshot_levels b Buy (book_bids b) 0 [];
     ((lcount, accounts), out2) \<leftarrow> snapshot_levels b Sell (book_asks b) lcount accounts;
     out3 \<leftarrow> snapshot_accounts b accounts;
     let (bb, ba) = top_of_book b;
     Some (out1 @ out2 @ out3 @
       [SnapshotSummary bb ba (book_last_trade b) lcount (of_nat (length accounts))])
   }"

section \<open>Walking the levels\<close>

definition prices_ok :: "book \<Rightarrow> bool" where
  "prices_ok b \<longleftrightarrow> (\<forall>sd. \<forall>r \<in> set (resting b sd). r_price r \<noteq> 0)"

lemma walk_chain_linked:
  assumes "linked (links (heap_of b)) pv q NULL" and "NULL \<notin> set q"
    and "\<forall>s \<in> set q. \<exists>n. heap_of b s = Some n \<and> node_side n = sd \<and> node_price n = p \<and> node_qty n \<noteq> 0"
    and "p \<noteq> 0"
  shows "walk_chain b sd p (hd_or q NULL) pv slots tot =
    Some (slots @ q, tot + (\<Sum>s\<leftarrow>q. qty_at (heap_of b) s), last_or q pv)"
  using assms(1-3)
proof (induction q arbitrary: pv slots tot)
  case Nil
  then show ?case by (subst walk_chain.simps) simp
next
  case (Cons x q)
  obtain n where n: "heap_of b x = Some n" "node_prev n = pv" "node_next n = hd_or q NULL"
    "node_side n = sd" "node_price n = p" "node_qty n \<noteq> 0"
    using Cons.prems by (auto simp: links_def)
  have "walk_chain b sd p (hd_or (x # q) NULL) pv slots tot =
      walk_chain b sd p (hd_or q NULL) x (slots @ [x]) (tot + node_qty n)"
    using n Cons.prems(2) assms(4) by (subst walk_chain.simps) auto
  then show ?case using Cons n(1) by (simp add: qty_at_def add.assoc del: hd_or_simps)
qed

lemma level_entry:
  assumes "book_rep b Q" and "(p, l) \<in> set (side_map b sd)"
  shows "Q sd p \<noteq> []" and "level_view (heap_of b) (Q sd p) = Some l"
proof -
  have "bt_get (side_map b sd) p = Some l"
    using assms levels_okD(1) [OF book_repD(3) [OF assms(1)]] by (simp add: bt_get_Some_iff)
  then show "level_view (heap_of b) (Q sd p) = Some l"
    using levels_okD(2) [OF book_repD(3) [OF assms(1)]] by simp
  then show "Q sd p \<noteq> []" by (auto simp: level_view_def)
qed

lemma walk_level_rep:
  assumes rep: "book_rep b Q" and l: "(p, l) \<in> set (side_map b sd)" and p: "p \<noteq> 0"
  shows "walk_level b sd p l = Some (Q sd p)"
proof -
  note view = level_entry [OF rep l]
  have "\<forall>s \<in> set (Q sd p). \<exists>n. heap_of b s = Some n \<and> node_side n = sd \<and> node_price n = p \<and> node_qty n \<noteq> 0"
    using queues_okD(1) [OF book_repD(2) [OF rep]] book_repD(6) [OF rep] by (auto simp: qtys_ok_def)
  from walk_chain_linked [OF queues_okD(3) [OF book_repD(2) [OF rep]] queue_no_NULL [OF rep] this p]
  have "walk_chain b sd p (level_head l) NULL [] 0 =
      Some (Q sd p, \<Sum>s\<leftarrow>Q sd p. qty_at (heap_of b) s, last (Q sd p))"
    using view by (cases "Q sd p") (auto simp: level_view_def last_or_def)
  then show ?thesis using view by (auto simp: walk_level_def level_view_def)
qed

lemma prices_ok_level:
  assumes "book_rep b Q" and "prices_ok b" and "(p, l) \<in> set (side_map b sd)"
  shows "p \<noteq> 0"
proof -
  obtain s where "s \<in> set (Q sd p)" using level_entry(1) [OF assms(1,3)] by (meson last_in_set)
  then obtain n where "heap_of b s = Some n" "node_side n = sd" "node_price n = p"
    using queues_okD(1) [OF book_repD(2) [OF assms(1)]] by blast
  then show ?thesis using resting_memI [OF assms(1)] assms(2) by (fastforce simp: prices_ok_def)
qed

lemma insert_found_distinct:
  "distinct (found @ slots) \<Longrightarrow> insert_found slots found = Some (found @ slots)"
  by (induction slots arbitrary: found) auto

lemma collect_levels_rep:
  assumes rep: "book_rep b Q" and sub: "set levels \<subseteq> set (side_map b sd)"
    and prices: "\<forall>(p, l) \<in> set levels. p \<noteq> 0"
    and dist: "distinct (found @ concat (map (\<lambda>(p, l). Q sd p) levels))"
  shows "collect_levels b sd levels found = Some (found @ concat (map (\<lambda>(p, l). Q sd p) levels))"
  using sub prices dist
proof (induction levels arbitrary: found)
  case (Cons e levels)
  obtain p l where e: "e = (p, l)" by fastforce
  have "walk_level b sd p l = Some (Q sd p)"
    by (rule walk_level_rep [OF rep]) (use Cons.prems e in auto)
  moreover have "insert_found (Q sd p) found = Some (found @ Q sd p)"
    by (rule insert_found_distinct) (use Cons.prems(3) e in auto)
  moreover have "distinct ((found @ Q sd p) @ concat (map (\<lambda>(p, l). Q sd p) levels))"
    using Cons.prems(3) e by auto
  then have "collect_levels b sd levels (found @ Q sd p) =
      Some ((found @ Q sd p) @ concat (map (\<lambda>(p, l). Q sd p) levels))"
    using Cons.prems by (intro Cons.IH) auto
  ultimately show ?case using e by simp
qed simp

section \<open>The program's own invariant check\<close>

definition level_slots :: "book \<Rightarrow> side \<Rightarrow> u32 list" where
  "level_slots b sd = concat (map (\<lambda>(p, l). queue_of b sd p) (side_map b sd))"

lemma set_level_slots:
  assumes "book_rep b Q"
  shows "set (level_slots b sd) = set (prio_slots b sd)"
proof -
  have "set (map fst (side_map b sd)) = set (prio_prices b sd)" by (simp add: prio_prices_set)
  moreover have "set (level_slots b sd) = (\<Union>p \<in> set (map fst (side_map b sd)). set (queue_of b sd p))"
    by (auto simp: level_slots_def)
  moreover have "set (prio_slots b sd) = (\<Union>p \<in> set (prio_prices b sd). set (queue_of b sd p))"
    by (auto simp: prio_slots_def)
  ultimately show ?thesis by simp
qed

lemma distinct_level_slots:
  assumes rep: "book_rep b Q"
  shows "distinct (level_slots b sd)"
proof -
  have "distinct (concat (map (Q sd) (map fst (side_map b sd))))"
  proof (rule distinct_concat_map)
    show "distinct (map fst (side_map b sd))"
      using levels_okD(1) [OF book_repD(3) [OF rep]] by (rule bt_ok_distinct)
    show "distinct (Q sd p)" for p by (rule queues_okD(2) [OF book_repD(2) [OF rep]])
    show "set (Q sd p) \<inter> set (Q sd p') = {}" if "p \<noteq> p'" for p p'
      using that queues_okD(1) [OF book_repD(2) [OF rep]] by fastforce
  qed
  then show ?thesis by (simp add: level_slots_def queue_of_eq [OF rep] comp_def case_prod_unfold)
qed

text \<open>The slots found in the levels are the live slots, each once.\<close>

lemma found_slots:
  assumes rep: "book_rep b Q"
  shows "distinct (level_slots b Buy @ level_slots b Sell)"
    and "set (level_slots b Buy @ level_slots b Sell) = {s. heap_of b s \<noteq> None}"
proof -
  note mem = set_prio_slots [OF rep]
  show "set (level_slots b Buy @ level_slots b Sell) = {s. heap_of b s \<noteq> None}"
    using mem by (auto simp: set_level_slots [OF rep] intro: side.exhaust)
  show "distinct (level_slots b Buy @ level_slots b Sell)"
    using mem distinct_level_slots [OF rep] by (auto simp: set_level_slots [OF rep])
qed

lemma order_index_length:
  assumes rep: "book_rep b Q"
  shows "length (book_order_index b) = card {s. heap_of b s \<noteq> None}"
proof -
  let ?key = "\<lambda>s. (node_account (the (heap_of b s)), node_id (the (heap_of b s)))"
  note ok = index_okD [OF book_repD(4) [OF rep]]
  have "length (book_order_index b) = card (dom (hm_get (book_order_index b)))"
    using ok(1) distinct_card [of "map fst (book_order_index b)"]
    by (simp add: hm_ok_def hm_get_def [abs_def] dom_map_of_conv_image_fst)
  also have "dom (hm_get (book_order_index b)) = ?key ` {s. heap_of b s \<noteq> None}"
  proof (intro set_eqI iffI)
    fix k assume "k \<in> dom (hm_get (book_order_index b))"
    then obtain s where "hm_get (book_order_index b) k = Some s" by auto
    then obtain n where "heap_of b s = Some n" "k = (node_account n, node_id n)" using ok(2) by blast
    then show "k \<in> ?key ` {s. heap_of b s \<noteq> None}" by (force intro: image_eqI [of _ _ s])
  next
    fix k assume "k \<in> ?key ` {s. heap_of b s \<noteq> None}"
    then obtain s n where "heap_of b s = Some n" "k = (node_account n, node_id n)" by auto
    then have "hm_get (book_order_index b) k = Some s" using ok(2) by blast
    then show "k \<in> dom (hm_get (book_order_index b))" by blast
  qed
  also have "card (?key ` {s. heap_of b s \<noteq> None}) = card {s. heap_of b s \<noteq> None}"
    by (rule card_image) (auto intro!: inj_onI elim: key_unique [OF rep])
  finally show ?thesis .
qed

lemma collect_all:
  assumes rep: "book_rep b Q" and prices: "prices_ok b"
  shows "collect_levels b Buy (book_bids b) [] = Some (level_slots b Buy)"
    and "collect_levels b Sell (book_asks b) (level_slots b Buy) = Some (level_slots b Buy @ level_slots b Sell)"
proof -
  have nz: "\<forall>(p, l) \<in> set (side_map b sd). p \<noteq> 0" for sd using prices_ok_level [OF rep prices] by auto
  show "collect_levels b Buy (book_bids b) [] = Some (level_slots b Buy)"
    using collect_levels_rep [OF rep, of "book_bids b" Buy "[]"] nz [of Buy] found_slots(1) [OF rep]
    by (simp add: level_slots_def queue_of_eq [OF rep])
  show "collect_levels b Sell (book_asks b) (level_slots b Buy) = Some (level_slots b Buy @ level_slots b Sell)"
    using collect_levels_rep [OF rep, of "book_asks b" Sell "level_slots b Buy"] nz [of Sell] found_slots(1) [OF rep]
    by (simp add: level_slots_def queue_of_eq [OF rep])
qed

lemma walk_account_eq:
  assumes "\<forall>i < length slots. \<exists>n. heap_of b (slots ! i) = Some n \<and> node_account n = a \<and>
      unat (node_acct_idx n) = idx + i"
  shows "walk_account b a idx slots walked = Some (walked + (\<Sum>s\<leftarrow>slots. notional_at (heap_of b) s))"
  using assms
proof (induction slots arbitrary: idx walked)
  case (Cons s slots)
  obtain n where "heap_of b s = Some n" "node_account n = a" "unat (node_acct_idx n) = idx"
    using Cons.prems by (metis add.right_neutral length_greater_0_conv list.discI nth_Cons_0)
  moreover have "\<forall>i < length slots. \<exists>n. heap_of b (slots ! i) = Some n \<and> node_account n = a \<and>
      unat (node_acct_idx n) = Suc idx + i"
    using Cons.prems by fastforce
  ultimately show ?case using Cons.IH by (simp add: notional_at_def add.assoc)
qed simp

lemma best_prices:
  assumes "book_rep b Q"
  shows "best_bid b = (case resting b Buy of [] \<Rightarrow> None | r # _ \<Rightarrow> Some (r_price r))"
    and "best_ask b = (case resting b Sell of [] \<Rightarrow> None | r # _ \<Rightarrow> Some (r_price r))"
  using best_bid_resting [OF assms, of Buy] best_bid_resting [OF assms, of Sell]
  by (simp_all add: best_bid_def best_ask_def best_entry_def)

lemma check_nonempty:
  assumes rep: "book_rep b Q"
  shows "for_each (\<lambda>(price, level). assert_that (\<not> level_is_empty level)) (side_map b sd) = Some ()"
proof -
  have "\<not> level_is_empty l" if "(p, l) \<in> set (side_map b sd)" for p l
  proof -
    note v = level_entry [OF rep that]
    have "length (Q sd p) < 2 ^ 32" using queue_length [OF rep, of sd p] arena_slots_bound [OF rep] by simp
    then have "unat (of_nat (length (Q sd p)) :: u32) \<noteq> 0" using v(1) by (subst unat_of_nat_u32) auto
    then show ?thesis using v by (auto simp: level_is_empty_def level_view_def)
  qed
  then show ?thesis by (auto simp: for_each_Some)
qed

lemma check_index:
  assumes rep: "book_rep b Q" and found: "set found = {s. heap_of b s \<noteq> None}"
  shows "for_each (\<lambda>((account, order_id), slot). do {
       assert_that (slot \<in> set found);
       node \<leftarrow> arena_get (book_arena b) slot;
       assert_that (node_id node = order_id);
       assert_that (node_account node = account)
     }) (book_order_index b) = Some ()"
    and "for_each (\<lambda>slot. do {
       node \<leftarrow> arena_get (book_arena b) slot;
       assert_that (hm_get (book_order_index b) (node_account node, node_id node) = Some slot)
     }) found = Some ()"
proof -
  note ok = index_okD [OF book_repD(4) [OF rep]]
  have entry: "\<exists>n. heap_of b s = Some n \<and> a = node_account n \<and> i = node_id n"
    if "((a, i), s) \<in> set (book_order_index b)" for a i s
    using that ok(1) ok(2) [of "(a, i)" s] by (simp add: hm_ok_def hm_get_def)
  show "for_each (\<lambda>((account, order_id), slot). do {
       assert_that (slot \<in> set found);
       node \<leftarrow> arena_get (book_arena b) slot;
       assert_that (node_id node = order_id);
       assert_that (node_account node = account)
     }) (book_order_index b) = Some ()"
    unfolding for_each_Some using entry by (fastforce simp: found)
  show "for_each (\<lambda>slot. do {
       node \<leftarrow> arena_get (book_arena b) slot;
       assert_that (hm_get (book_order_index b) (node_account node, node_id node) = Some slot)
     }) found = Some ()"
    unfolding for_each_Some found using ok(2) by auto
qed

lemma check_accounts:
  assumes rep: "book_rep b Q" and found: "set found = {s. heap_of b s \<noteq> None}"
  shows "for_each (\<lambda>slot. do {
       node \<leftarrow> arena_get (book_arena b) slot;
       entry \<leftarrow> hm_get (book_accounts b) (node_account node);
       assert_that (vec_get (entry_slots entry) (unat (node_acct_idx node)) = Some slot)
     }) found = Some ()"
    and "for_each (\<lambda>(account, entry). do {
       walked \<leftarrow> walk_account b account 0 (entry_slots entry) 0;
       assert_that (walked = entry_notional entry)
     }) (book_accounts b) = Some ()"
proof -
  note acc = book_repD(5) [OF rep]
  show "for_each (\<lambda>slot. do {
       node \<leftarrow> arena_get (book_arena b) slot;
       entry \<leftarrow> hm_get (book_accounts b) (node_account node);
       assert_that (vec_get (entry_slots entry) (unat (node_acct_idx node)) = Some slot)
     }) found = Some ()"
    unfolding for_each_Some found
  proof (intro ballI, elim CollectE)
    fix s assume "heap_of b s \<noteq> None"
    then obtain n where n: "heap_of b s = Some n" by auto
    with acc show "do {
       node \<leftarrow> heap_of b s;
       entry \<leftarrow> hm_get (book_accounts b) (node_account node);
       assert_that (vec_get (entry_slots entry) (unat (node_acct_idx node)) = Some s)
     } = Some ()"
      by (rule accounts_ok_liveD) (simp add: n)
  qed
  have "walk_account b a 0 (entry_slots e) 0 = Some (entry_notional e)"
    if "(a, e) \<in> set (book_accounts b)" for a e
  proof -
    have e: "hm_get (book_accounts b) a = Some e"
      using that acc by (simp add: accounts_ok_def hm_ok_def hm_get_def)
    have "\<forall>i < length (entry_slots e). \<exists>n. heap_of b (entry_slots e ! i) = Some n \<and>
        node_account n = a \<and> unat (node_acct_idx n) = 0 + i"
      using accounts_ok_slotD [OF acc e] by (metis add_0)
    from walk_account_eq [OF this] show ?thesis using accounts_ok_notional [OF acc e] by simp
  qed
  then show "for_each (\<lambda>(account, entry). do {
       walked \<leftarrow> walk_account b account 0 (entry_slots entry) 0;
       assert_that (walked = entry_notional entry)
     }) (book_accounts b) = Some ()"
    unfolding for_each_Some by auto
qed

theorem assert_invariants_pass:
  assumes inv: "book_inv b" and prices: "prices_ok b" and un: "a_uncrossed (abs_book b)"
  shows "assert_invariants b = Some ()"
proof -
  have rep: "book_rep b (queue_of b)" using inv by (simp add: book_inv_def)
  note set = found_slots(2) [OF rep]
  have len: "length (level_slots b Buy @ level_slots b Sell) = card {s. heap_of b s \<noteq> None}"
    using distinct_card [OF found_slots(1) [OF rep]] set by simp
  have "arena_len (book_arena b) = length (level_slots b Buy @ level_slots b Sell)"
    "length (book_order_index b) = length (level_slots b Buy @ level_slots b Sell)"
    using len arena_len_card [OF book_repD(1) [OF rep]] order_index_length [OF rep] by simp_all
  moreover have "(case (best_bid b, best_ask b) of (Some bid, Some ask) \<Rightarrow> assert_that (bid < ask) | _ \<Rightarrow> Some ()) = Some ()"
    using un best_prices [OF rep] by (auto simp: a_uncrossed_def split: option.splits list.splits)
  ultimately show ?thesis
    unfolding assert_invariants_def
    using check_nonempty [OF rep, of Buy] check_nonempty [OF rep, of Sell] collect_all [OF rep prices]
      check_index [OF rep set] check_accounts [OF rep set]
    by (simp del: set_append length_append)
qed

section \<open>Levels and accounts on the abstract view\<close>

definition level_qty :: "rorder list \<Rightarrow> price \<Rightarrow> qty" where
  "level_qty rs p = (\<Sum>r\<leftarrow>filter (\<lambda>r. r_price r = p) rs. r_qty r)"

definition level_orders :: "rorder list \<Rightarrow> price \<Rightarrow> nat" where
  "level_orders rs p = length (filter (\<lambda>r. r_price r = p) rs)"

definition a_touch :: "rorder list \<Rightarrow> touch_side" where
  "a_touch rs = (case rs of [] \<Rightarrow> None | r # _ \<Rightarrow> Some (r_price r, level_qty rs (r_price r)))"

definition notional_sum :: "rorder list \<Rightarrow> u128" where
  "notional_sum rs = (\<Sum>r\<leftarrow>rs. notional_of (r_price r) (r_qty r))"

lemma sum_list_mset_eq:
  fixes xs :: "'a::comm_monoid_add list"
  assumes "mset xs = mset ys" shows "sum_list xs = sum_list ys"
  using assms by (metis sum_mset_sum_list)

lemma orders_at_price:
  assumes rep: "book_rep b Q"
  shows "filter (\<lambda>r. r_price r = p) (resting b sd) = orders_at (heap_of b) (Q sd p)"
proof -
  obtain as bs where ps: "sorted_wrt (strictly_ahead sd) (as @ p # bs)"
    and cov: "set (prio_prices b sd) \<subseteq> set (as @ p # bs)"
    using insert_price_sorted [OF prio_prices_sorted [OF levels_okD(1) [OF book_repD(3) [OF rep]]]] by metis
  have slots: "prio_slots b sd = concat (map (Q sd) as) @ Q sd p @ concat (map (Q sd) bs)"
    using prio_slots_eq [OF rep ps] cov prio_prices_queue [OF rep] by auto
  have price: "node_price (the (heap_of b x)) = p'" if "x \<in> set (Q sd p')" for x p'
    using that queues_okD(1) [OF book_repD(2) [OF rep]] by auto
  have other: "filter (\<lambda>r. r_price r = p) (orders_at (heap_of b) (concat (map (Q sd) xs))) = []"
    if "p \<notin> set xs" for xs using that price by (auto simp: orders_at_def filter_empty_conv)
  have same: "filter (\<lambda>r. r_price r = p) (orders_at (heap_of b) (Q sd p)) = orders_at (heap_of b) (Q sd p)"
    using price by (auto simp: orders_at_def filter_id_conv)
  have "p \<notin> set as" "p \<notin> set bs" using sorted_strictly_distinct [OF ps] by auto
  then show ?thesis using other same by (simp add: resting_def slots orders_at_append)
qed

lemma level_totals:
  assumes rep: "book_rep b Q" and l: "bt_get (side_map b sd) p = Some l"
  shows "level_total_qty l = level_qty (resting b sd) p"
    and "level_count l = of_nat (level_orders (resting b sd) p)"
proof -
  have v: "level_view (heap_of b) (Q sd p) = Some l" using levels_okD(2) [OF book_repD(3) [OF rep]] l by simp
  have "(\<Sum>s\<leftarrow>Q sd p. qty_at (heap_of b) s) = (\<Sum>s\<leftarrow>Q sd p. node_qty (the (heap_of b s)))"
    using queues_okD(1) [OF book_repD(2) [OF rep]] by (intro sum_list_map_cong) (auto simp: qty_at_def)
  then show "level_total_qty l = level_qty (resting b sd) p"
    using v by (auto simp: level_qty_def orders_at_price [OF rep] orders_at_def comp_def level_view_def
        split: if_splits)
  show "level_count l = of_nat (level_orders (resting b sd) p)"
    using v by (auto simp: level_orders_def orders_at_price [OF rep] orders_at_def level_view_def
        split: if_splits)
qed

theorem top_of_book_abs:
  assumes inv: "book_inv b"
  shows "top_of_book b = (a_touch (resting b Buy), a_touch (resting b Sell))"
proof -
  have rep: "book_rep b (queue_of b)" using inv by (simp add: book_inv_def)
  have "map_option (\<lambda>(p, l). (p, level_total_qty l)) (best_entry b sd) = a_touch (resting b sd)" for sd
  proof (cases "resting b sd")
    case Nil
    then show ?thesis using best_entry_None [OF rep, of sd] by (simp add: a_touch_def)
  next
    case (Cons r rs)
    obtain l n where "bt_get (side_map b sd) (r_price r) = Some l" "best_entry b sd = Some (r_price r, l)"
      using inv Cons by (rule resting_headE)
    then show ?thesis using level_totals(1) [OF rep] Cons by (simp add: a_touch_def)
  qed
  from this [of Buy] this [of Sell] show ?thesis by (simp add: top_of_book_def best_entry_def)
qed

theorem account_totals:
  assumes inv: "book_inv b"
  shows "account_open_order_count b a = length (orders_of b a)"
    and "account_notional b a = notional_sum (orders_of b a)"
proof -
  have rep: "book_rep b (queue_of b)" using inv by (simp add: book_inv_def)
  have "account_open_order_count b a = length (orders_of b a) \<and> account_notional b a = notional_sum (orders_of b a)"
  proof (cases "hm_get (book_accounts b) a")
    case None
    have "mset (map r_id (orders_of b a)) = {#}"
      using mass_cancel_spec [OF inv, of a] None by (auto simp: mass_cancel_def)
    then have "orders_of b a = []" by simp
    then show ?thesis using None by (simp add: account_open_order_count_def account_notional_def notional_sum_def)
  next
    case (Some e)
    note ms = orders_of_mset [OF rep Some]
    have "length (entry_slots e) = length (orders_of b a)"
      using arg_cong [OF ms, of size] by simp
    moreover have "(\<Sum>s\<leftarrow>entry_slots e. notional_at (heap_of b) s) =
        notional_sum (map (\<lambda>s. order_of (the (heap_of b s))) (entry_slots e))"
      unfolding notional_sum_def map_map comp_def using account_slots [OF rep Some]
      by (intro sum_list_map_cong) (auto simp: notional_at_def)
    moreover have "notional_sum (map (\<lambda>s. order_of (the (heap_of b s))) (entry_slots e)) = notional_sum (orders_of b a)"
      unfolding notional_sum_def using ms by (intro sum_list_mset_eq) (metis mset_map)
    ultimately show ?thesis using Some accounts_ok_notional [OF book_repD(5) [OF rep] Some]
      by (simp add: account_open_order_count_def account_notional_def open_order_count_def)
  qed
  then show "account_open_order_count b a = length (orders_of b a)"
    "account_notional b a = notional_sum (orders_of b a)" by simp_all
qed

section \<open>snapshot\<close>

fun dedup :: "'a list \<Rightarrow> 'a list \<Rightarrow> 'a list" where
  "dedup [] seen = seen"
| "dedup (x # xs) seen = dedup xs (if x \<in> set seen then seen else seen @ [x])"

lemma dedup_set: "set (dedup xs seen) = set xs \<union> set seen"
  by (induction xs seen rule: dedup.induct) auto

lemma dedup_distinct: "distinct seen \<Longrightarrow> distinct (dedup xs seen)"
  by (induction xs seen rule: dedup.induct) auto

lemma dedup_append: "dedup (xs @ ys) seen = dedup ys (dedup xs seen)"
  by (induction xs seen rule: dedup.induct) auto

lemma snapshot_slots_eq:
  assumes "\<forall>s \<in> set slots. heap_of b s \<noteq> None"
  shows "snapshot_slots b slots accounts =
    Some (dedup (map (\<lambda>s. node_account (the (heap_of b s))) slots) accounts)"
  using assms by (induction slots arbitrary: accounts) auto

definition level_event :: "side \<Rightarrow> rorder list \<Rightarrow> price \<Rightarrow> event" where
  "level_event sd rs p = SnapshotLevel sd p (level_qty rs p) (of_nat (level_orders rs p))"

lemma snapshot_levels_eq:
  assumes rep: "book_rep b Q" and prices: "prices_ok b" and sub: "set levels \<subseteq> set (side_map b sd)"
  shows "snapshot_levels b sd levels lcount accounts =
    Some ((lcount + of_nat (length levels),
           dedup (map (\<lambda>s. node_account (the (heap_of b s))) (concat (map (\<lambda>(p, l). Q sd p) levels))) accounts),
          map (level_event sd (resting b sd)) (map fst levels))"
  using sub
proof (induction levels arbitrary: lcount accounts)
  case (Cons e levels)
  obtain p l where e: "e = (p, l)" by fastforce
  have l: "(p, l) \<in> set (side_map b sd)" using Cons.prems e by simp
  have walk: "walk_level b sd p l = Some (Q sd p)"
    by (rule walk_level_rep [OF rep l prices_ok_level [OF rep prices l]])
  have live: "\<forall>s \<in> set (Q sd p). heap_of b s \<noteq> None"
    using queues_okD(1) [OF book_repD(2) [OF rep]] by auto
  have get: "bt_get (side_map b sd) p = Some l"
    using l levels_okD(1) [OF book_repD(3) [OF rep]] by (simp add: bt_get_Some_iff)
  have "level_orders (resting b sd) p < 2 ^ 32"
    using queue_length [OF rep, of sd p] arena_slots_bound [OF rep]
    by (simp add: level_orders_def orders_at_price [OF rep] orders_at_def)
  then have "ucast (level_count l) = (of_nat (level_orders (resting b sd) p) :: u64)"
    by (simp add: level_totals(2) [OF rep get] ucast_of_nat_u32)
  then show ?case
    using Cons walk snapshot_slots_eq [OF live] level_totals(1) [OF rep get] e
    by (simp add: level_event_def dedup_append add.assoc)
qed simp

lemma snapshot_accounts_eq:
  assumes "\<forall>a \<in> set accounts. hm_get (book_accounts b) a \<noteq> None"
  shows "snapshot_accounts b accounts = Some (map (\<lambda>a. SnapshotAccount a
    (of_nat (account_open_order_count b a)) (account_notional b a)) accounts)"
  using assms
  by (induction accounts) (auto simp: account_open_order_count_def account_notional_def)

theorem snapshot_spec:
  assumes inv: "book_inv b" and prices: "prices_ok b"
  shows "\<exists>accounts. distinct accounts \<and> set accounts = {a. orders_of b a \<noteq> []} \<and>
    snapshot b = Some (map (level_event Buy (resting b Buy)) (map fst (book_bids b)) @
      map (level_event Sell (resting b Sell)) (map fst (book_asks b)) @
      map (\<lambda>a. SnapshotAccount a (of_nat (length (orders_of b a))) (notional_sum (orders_of b a))) accounts @
      [SnapshotSummary (a_touch (resting b Buy)) (a_touch (resting b Sell)) (book_last_trade b)
        (of_nat (length (book_bids b) + length (book_asks b))) (of_nat (length accounts))])"
proof -
  have rep: "book_rep b (queue_of b)" using inv by (simp add: book_inv_def)
  let ?acc = "map (\<lambda>s. node_account (the (heap_of b s)))"
  define accounts where "accounts = dedup (?acc (level_slots b Sell)) (dedup (?acc (level_slots b Buy)) [])"
  have set: "set accounts = node_account ` (the ` heap_of b ` {s. heap_of b s \<noteq> None})"
    unfolding accounts_def dedup_set found_slots(2) [OF rep, symmetric] by auto
  have "hm_get (book_accounts b) a \<noteq> None" if "a \<in> set accounts" for a
    using that accounts_ok_liveD [OF book_repD(5) [OF rep]] unfolding set by fastforce
  moreover have "set accounts = {a. orders_of b a \<noteq> []}"
  proof (intro set_eqI iffI)
    fix a assume "a \<in> set accounts"
    then obtain s n where "heap_of b s = Some n" "node_account n = a" unfolding set by auto
    then show "a \<in> {a. orders_of b a \<noteq> []}"
      using resting_memI [OF rep, of s n] by (cases "node_side n") (force simp: orders_of_def filter_empty_conv)+
  next
    fix a assume "a \<in> {a. orders_of b a \<noteq> []}"
    then obtain r sd where "r \<in> set (resting b sd)" "r_account r = a"
      by (auto simp: orders_of_def filter_empty_conv)
    then obtain s n where "heap_of b s = Some n" "node_account n = a"
      by (metis resting_memE [OF rep] order_of_simps(1))
    then show "a \<in> set accounts" unfolding set by force
  qed
  moreover have "distinct accounts" unfolding accounts_def by (intro dedup_distinct) simp
  ultimately show ?thesis
    using snapshot_levels_eq [OF rep prices, of "book_bids b" Buy 0 "[]"]
      snapshot_levels_eq [OF rep prices, of "book_asks b" Sell]
      snapshot_accounts_eq [of accounts b] top_of_book_abs [OF inv] account_totals [OF inv]
    by (intro exI [of _ accounts]) (simp add: snapshot_def accounts_def level_slots_def)
qed

end
