(* ===== verification/Machine.thy ===== *)
theory Machine
  imports Prelude
begin

text \<open>
  Command-driven machines: a step takes one command to a new state and the events it emits, or
  panics. The interface \<open>machine\<close> promises that, while there is capacity, a step on an
  acceptable command returns and keeps the invariant; its client lemma lifts this to any
  sequence of commands. The engine, the risk-checked engine and the matching thread provide it.
\<close>

fun run :: "('s \<Rightarrow> 'c \<Rightarrow> ('s \<times> 'e list) option) \<Rightarrow> 's \<Rightarrow> 'c list \<Rightarrow> ('s \<times> 'e list) option" where
  "run step s [] = Some (s, [])"
| "run step s (c # cs) = do {
     (s', out) \<leftarrow> step s c;
     (s'', out') \<leftarrow> run step s' cs;
     Some (s'', out @ out')
   }"

lemma run_append:
  "run step s (cs @ ds) = do {
     (s', out) \<leftarrow> run step s cs;
     (s'', out') \<leftarrow> run step s' ds;
     Some (s'', out @ out')
   }"
proof (induction cs arbitrary: s)
  case (Cons c cs)
  show ?case
  proof (cases "step s c")
    case (Some p)
    then show ?thesis using Cons [of "fst p"]
      by (cases "run step (fst p) cs") (auto simp: case_prod_unfold)
  qed simp
qed (simp add: case_prod_unfold)

locale machine =
  fixes step :: "'s \<Rightarrow> 'c \<Rightarrow> ('s \<times> 'e list) option"
    and inv :: "'s \<Rightarrow> bool"
    and ok :: "'c \<Rightarrow> bool"
    and used :: "'s \<Rightarrow> nat"
    and cap :: nat
  assumes step_returns: "inv s \<Longrightarrow> ok c \<Longrightarrow> used s < cap \<Longrightarrow>
    \<exists>s' out. step s c = Some (s', out) \<and> inv s' \<and> used s' \<le> Suc (used s)"
begin

lemma run_returns:
  assumes "inv s" and "\<forall>c \<in> set cs. ok c" and "used s + length cs \<le> cap"
  shows "\<exists>s' out. run step s cs = Some (s', out) \<and> inv s' \<and> used s' \<le> used s + length cs"
  using assms
proof (induction cs arbitrary: s)
  case (Cons c cs)
  then obtain s1 out1 where s1: "step s c = Some (s1, out1)" "inv s1" "used s1 \<le> Suc (used s)"
    using step_returns [of s c] by auto
  moreover have "used s1 + length cs \<le> cap" using Cons.prems(3) s1(3) by simp
  ultimately obtain s2 out2 where "run step s1 cs = Some (s2, out2)" "inv s2" "used s2 \<le> used s1 + length cs"
    using Cons.IH [of s1] Cons.prems(2) by auto
  then show ?case using s1 by auto
qed simp

text \<open>What every step emits, a whole run emits.\<close>

lemma run_emits:
  assumes "\<And>s c s' out. inv s \<Longrightarrow> ok c \<Longrightarrow> used s < cap \<Longrightarrow> step s c = Some (s', out) \<Longrightarrow> \<forall>x \<in> set out. P x"
    and "inv s" and "\<forall>c \<in> set cs. ok c" and "used s + length cs \<le> cap" and "run step s cs = Some (s', out)"
  shows "\<forall>x \<in> set out. P x"
  using assms(2-5)
proof (induction cs arbitrary: s out)
  case (Cons c cs)
  have c: "ok c" "used s < cap" using Cons.prems(2,3) by auto
  obtain s1 out1 where s1: "step s c = Some (s1, out1)" "inv s1" "used s1 \<le> Suc (used s)"
    using step_returns [OF Cons.prems(1) c] by blast
  then obtain out2 where out2: "run step s1 cs = Some (s', out2)" "out = out1 @ out2"
    using Cons.prems(4) by (auto simp: bind_eq_Some_iff)
  have "\<forall>x \<in> set out2. P x" using Cons.IH [OF s1(2) _ _ out2(1)] Cons.prems(2,3) s1(3) by simp
  then show ?case using assms(1) [OF Cons.prems(1) c s1(1)] out2(2) by auto
qed simp

end

end
