(* ===== verification/Engine.thy ===== *)
theory Engine
  imports Book_Check Machine
begin

text \<open>
  The engine (\<open>engine.rs\<close>): dispatch of a command to the book, and the top-of-book
  update. On commands that validation lets through (nonzero quantity and price) the engine
  never panics, keeps the book invariant, keeps the book uncrossed and free of zero prices,
  so that the program's own invariant check passes after every command.
\<close>

record engine =
  engine_book :: book

definition engine_new :: engine where
  "engine_new = \<lparr>engine_book = book_new\<rparr>"

definition dispatch :: "book \<Rightarrow> command \<Rightarrow> book emitting" where
  "dispatch b cmd =
     (case cmd of
        NewOrder account oid side price qty kind tif client_ts \<Rightarrow>
          (case kind of
             Market \<Rightarrow> submit_market b account oid side qty
           | Limit \<Rightarrow>
               (case tif of
                  Gtc \<Rightarrow> submit_gtc b account oid side price qty
                | Ioc \<Rightarrow> submit_ioc b account oid side price qty
                | Fok \<Rightarrow> submit_fok b account oid side price qty
                | PostOnly \<Rightarrow> submit_postonly b account oid side price qty))
      | CancelOrder account oid \<Rightarrow> cancel b account oid
      | CancelReplace account oid new_price new_qty \<Rightarrow> modify b account oid new_price new_qty
      | MassCancel account \<Rightarrow> mass_cancel b account
      | Snapshot \<Rightarrow> do { out \<leftarrow> snapshot b; Some (b, out) }
      | KillSwitch _ \<Rightarrow> Some (b, []))"

definition engine_apply :: "engine \<Rightarrow> command \<Rightarrow> engine emitting" where
  "engine_apply e cmd = do {
     let before = top_of_book (engine_book e);
     (b, out) \<leftarrow> dispatch (engine_book e) cmd;
     let after = top_of_book b;
     Some (e\<lparr>engine_book := b\<rparr>,
       out @ (if before \<noteq> after then [BookUpdate (fst after) (snd after)] else []))
   }"

section \<open>Prices that can rest\<close>

definition a_prices :: "abook \<Rightarrow> price set" where
  "a_prices ab = r_price ` (set (a_orders ab Buy) \<union> set (a_orders ab Sell))"

lemma a_prices_iff: "p \<in> a_prices ab \<longleftrightarrow> (\<exists>sd. p \<in> r_price ` set (a_orders ab sd))"
proof -
  have "(\<exists>sd. p \<in> r_price ` set (a_orders ab sd)) \<longleftrightarrow>
      p \<in> r_price ` set (a_orders ab Buy) \<or> p \<in> r_price ` set (a_orders ab Sell)"
    by (metis side.exhaust)
  then show ?thesis by (simp add: a_prices_def image_Un)
qed

lemma a_prices_mono:
  assumes "\<And>sd. r_price ` set (a_orders ab' sd) \<subseteq> insert p (r_price ` set (a_orders ab sd))"
  shows "a_prices ab' \<subseteq> insert p (a_prices ab)"
  using assms unfolding subset_iff a_prices_iff insert_iff by blast

lemma a_prices_sub:
  assumes "\<And>sd. r_price ` set (a_orders ab' sd) \<subseteq> r_price ` set (a_orders ab sd)"
  shows "a_prices ab' \<subseteq> a_prices ab"
  using assms unfolding subset_iff a_prices_iff by blast

lemma prices_ok_abs: "prices_ok b \<longleftrightarrow> 0 \<notin> a_prices (abs_book b)"
  unfolding prices_ok_def a_prices_iff abs_book_simps image_iff by auto

lemma a_match_orders:
  assumes "a_match ab a oid side limit q = ((ab', rem), out)"
  shows "r_price ` set (a_orders ab' sd) \<subseteq> r_price ` set (a_orders ab sd)"
proof -
  obtain rs lt where sw: "a_sweep a oid side limit (a_orders ab (opposite side)) (a_last ab) q = ((rs, lt, rem), out)"
    and "a_orders ab' = (a_orders ab)(opposite side := rs)"
    using assms by (auto simp: a_match_def split: prod.splits)
  then show ?thesis using in_priority_prices [OF a_sweep_priority [OF sw]] by simp
qed

lemma match_rest_prices:
  assumes "a_match ab a oid side p q = ((ab', rem), out)"
  shows "a_prices (if rem = 0 then ab' else a_add side (order_for a oid p rem) ab') \<subseteq> insert p (a_prices ab)"
proof (rule a_prices_mono)
  show "r_price ` set (a_orders (if rem = 0 then ab' else a_add side (order_for a oid p rem) ab') sd)
      \<subseteq> insert p (r_price ` set (a_orders ab sd))" for sd
    using a_match_orders [OF assms, of sd] by (auto simp: a_add_def order_for_def)
qed

lemma a_submit_prices:
  "a_prices (fst (a_submit_gtc ab a oid side p q)) \<subseteq> insert p (a_prices ab)"
  "a_prices (fst (a_submit_postonly ab a oid side p q)) \<subseteq> insert p (a_prices ab)"
  "a_prices (fst (a_modify ab a oid p q)) \<subseteq> insert p (a_prices ab)"
proof -
  show "a_prices (fst (a_submit_gtc ab a oid side p q)) \<subseteq> insert p (a_prices ab)"
    using match_rest_prices [of ab a oid side p q] by (auto simp: a_submit_gtc_def split: prod.splits)
  obtain rs cross out where st: "a_stp a side p (a_orders ab (opposite side)) = ((rs, cross), out)"
    by (metis prod.exhaust)
  have "set rs \<subseteq> set (a_orders ab (opposite side))" using a_stp_shrinks [OF st] by auto
  then show "a_prices (fst (a_submit_postonly ab a oid side p q)) \<subseteq> insert p (a_prices ab)"
    by (intro a_prices_mono) (auto simp: a_submit_postonly_def st Let_def a_add_def order_for_def)
  have drop: "a_prices (a_drop k ab) \<subseteq> a_prices ab" for k
    by (rule a_prices_sub) (auto simp: a_drop_def drop_key_def)
  have "a_prices (ab\<lparr>a_orders := \<lambda>sd. set_qty k q (a_orders ab sd)\<rparr>) \<subseteq> insert p (a_prices ab)" for k
    by (rule a_prices_mono) (auto simp: set_qty_def)
  moreover have "a_prices (if rem = 0 then ab' else a_add sd (order_for a oid p rem) ab') \<subseteq> insert p (a_prices ab)"
    if "a_match (a_drop (a, oid) ab) a oid sd p q = ((ab', rem), out)" for sd ab' rem out
    using match_rest_prices [OF that] drop [of "(a, oid)"] by blast
  ultimately show "a_prices (fst (a_modify ab a oid p q)) \<subseteq> insert p (a_prices ab)"
    unfolding a_modify_def by (simp split: option.split prod.split) blast
qed

lemma a_shrink_prices:
  "a_prices (fst (a_submit_ioc ab a oid side p q)) \<subseteq> a_prices ab"
  "a_prices (fst (a_submit_fok ab a oid side p q)) \<subseteq> a_prices ab"
  "a_prices (fst (a_cancel ab a oid)) \<subseteq> a_prices ab"
proof -
  have match: "a_prices ab' \<subseteq> a_prices ab" if "a_match ab a oid side p q = ((ab', rem), out)" for ab' rem out
    using a_match_orders [OF that] by (rule a_prices_sub)
  show "a_prices (fst (a_submit_ioc ab a oid side p q)) \<subseteq> a_prices ab"
    "a_prices (fst (a_submit_fok ab a oid side p q)) \<subseteq> a_prices ab"
    using match by (auto simp: a_submit_ioc_def a_submit_fok_def split: prod.splits)
  show "a_prices (fst (a_cancel ab a oid)) \<subseteq> a_prices ab"
    by (rule a_prices_sub) (auto simp: a_cancel_def a_drop_def drop_key_def)
qed

section \<open>The engine invariant\<close>

definition engine_inv :: "engine \<Rightarrow> bool" where
  "engine_inv e \<longleftrightarrow> book_inv (engine_book e) \<and> a_uncrossed (abs_book (engine_book e)) \<and>
     prices_ok (engine_book e)"

text \<open>What validation at the wire guarantees of a command, with the price of an amend added.\<close>

definition command_ok :: "command \<Rightarrow> bool" where
  "command_ok cmd = (case cmd of
       NewOrder account oid side price qty kind tif client_ts \<Rightarrow> qty \<noteq> 0 \<and> (kind = Market \<or> price \<noteq> 0)
     | CancelReplace account oid new_price new_qty \<Rightarrow> new_price \<noteq> 0
     | _ \<Rightarrow> True)"

lemma resting_new [simp]: "resting book_new sd = []"
  using prio_prices_queue [OF book_rep_new, of _ sd]
  by (simp add: resting_def prio_slots_rep [OF book_rep_new] orders_at_def)

lemma engine_inv_new: "engine_inv engine_new"
  by (simp add: engine_inv_def engine_new_def a_uncrossed_def prices_ok_def)

lemma a_sorted_abs: "book_inv b \<Longrightarrow> a_sorted (abs_book b)"
  by (simp add: a_sorted_def book_inv_resting)

text \<open>A dispatched command that refines an abstract operation keeps the engine invariant.\<close>

lemma refines_inv:
  assumes "refines b c r" and "a_uncrossed (fst r)" and "a_prices (fst r) \<subseteq> P" and "0 \<notin> P"
  shows "\<exists>b' out. c = Some (b', out) \<and> engine_inv (e\<lparr>engine_book := b'\<rparr>) \<and> slot_count b' \<le> Suc (slot_count b)"
  using assms by (auto simp: refines_def engine_inv_def prices_ok_abs)

lemma dispatch_new_order:
  assumes inv: "engine_inv e" and q: "q \<noteq> 0" and p: "kind = Market \<or> p \<noteq> 0"
    and room: "book_room (engine_book e)"
  shows "\<exists>b' out. dispatch (engine_book e) (NewOrder a oid side p q kind tif ts) = Some (b', out) \<and>
    engine_inv (e\<lparr>engine_book := b'\<rparr>) \<and> slot_count b' \<le> Suc (slot_count (engine_book e))"
proof -
  let ?b = "engine_book e"
  have bi: "book_inv ?b" and un: "a_uncrossed (abs_book ?b)" and nz: "0 \<notin> a_prices (abs_book ?b)"
    using inv by (simp_all add: engine_inv_def prices_ok_abs)
  note so = a_sorted_abs [OF bi]
  show ?thesis
  proof (cases kind)
    case Market
    show ?thesis
      using refines_inv [OF submit_market_refines [OF bi] a_match_only_uncrossed(1) [OF un] a_shrink_prices(1) nz]
      by (simp add: dispatch_def Market)
  next
    case Limit
    then have nz': "0 \<notin> insert p (a_prices (abs_book ?b))" using p nz by simp
    show ?thesis
    proof (cases tif)
      case Gtc
      show ?thesis
        using refines_inv [OF submit_gtc_refines [OF bi room] a_submit_gtc_uncrossed [OF un so] a_submit_prices(1) nz']
        by (simp add: dispatch_def Limit Gtc)
    next
      case Ioc
      show ?thesis
        using refines_inv [OF submit_ioc_refines [OF bi] a_match_only_uncrossed(1) [OF un] a_shrink_prices(1) nz]
        by (simp add: dispatch_def Limit Ioc)
    next
      case Fok
      show ?thesis
        using refines_inv [OF submit_fok_refines [OF bi] a_match_only_uncrossed(2) [OF un] a_shrink_prices(2) nz]
        by (simp add: dispatch_def Limit Fok)
    next
      case PostOnly
      show ?thesis
        using refines_inv [OF submit_postonly_refines [OF bi room q] a_submit_postonly_uncrossed [OF un so]
            a_submit_prices(2) nz']
        by (simp add: dispatch_def Limit PostOnly)
    qed
  qed
qed

lemma mass_cancel_inv:
  assumes inv: "engine_inv e"
  shows "\<exists>b' out. mass_cancel (engine_book e) a = Some (b', out) \<and> engine_inv (e\<lparr>engine_book := b'\<rparr>) \<and>
    slot_count b' = slot_count (engine_book e)"
proof -
  obtain b' ids where b': "mass_cancel (engine_book e) a = Some (b', map (Cancelled a) ids)" "book_inv b'"
    "resting b' = (\<lambda>sd. filter (\<lambda>r. r_account r \<noteq> a) (resting (engine_book e) sd))"
    "slot_count b' = slot_count (engine_book e)"
    using mass_cancel_spec [of "engine_book e" a] inv by (auto simp: engine_inv_def)
  have "a_uncrossed (abs_book b')"
    by (rule a_uncrossed_shrink [of "abs_book (engine_book e)"]) (use inv b'(3) in \<open>auto simp: engine_inv_def\<close>)
  moreover have "prices_ok b'" using inv b'(3) by (auto simp: engine_inv_def prices_ok_def)
  ultimately show ?thesis using b' by (simp add: engine_inv_def)
qed

lemma dispatch_inv:
  assumes inv: "engine_inv e" and ok: "command_ok cmd" and room: "book_room (engine_book e)"
  shows "\<exists>b' out. dispatch (engine_book e) cmd = Some (b', out) \<and> engine_inv (e\<lparr>engine_book := b'\<rparr>) \<and>
    slot_count b' \<le> Suc (slot_count (engine_book e))"
proof -
  let ?b = "engine_book e"
  have bi: "book_inv ?b" and un: "a_uncrossed (abs_book ?b)" and nz: "0 \<notin> a_prices (abs_book ?b)"
    using inv by (simp_all add: engine_inv_def prices_ok_abs)
  show ?thesis
  proof (cases cmd)
    case (NewOrder a oid side p q kind tif ts)
    then show ?thesis using dispatch_new_order [OF inv _ _ room, of q kind p a oid side tif ts] ok
      by (simp add: command_ok_def)
  next
    case (CancelOrder a oid)
    then show ?thesis
      using refines_inv [OF cancel_refines [OF bi] a_cancel_uncrossed [OF un] a_shrink_prices(3) nz]
      by (simp add: dispatch_def)
  next
    case (CancelReplace a oid p q)
    then have "0 \<notin> insert p (a_prices (abs_book ?b))" using ok nz by (simp add: command_ok_def)
    then show ?thesis
      using refines_inv [OF modify_refines [OF bi] a_modify_uncrossed [OF un a_sorted_abs [OF bi]] a_submit_prices(3)]
        CancelReplace by (simp add: dispatch_def)
  next
    case (MassCancel a)
    then show ?thesis using mass_cancel_inv [OF inv, of a] by (auto simp: dispatch_def)
  next
    case (KillSwitch b)
    then show ?thesis using inv by (simp add: dispatch_def)
  next
    case Snapshot
    obtain out where "snapshot ?b = Some out"
      using snapshot_spec [OF bi] inv by (auto simp: engine_inv_def)
    then show ?thesis using inv Snapshot by (simp add: dispatch_def)
  qed
qed

lemma book_room_slots: "slot_count b < 2 ^ 32 - 1 \<Longrightarrow> book_room b"
  by (simp add: arena_room_def)

lemma engine_apply_inv:
  assumes "engine_inv e" and "command_ok cmd" and "book_room (engine_book e)"
  shows "\<exists>e' out. engine_apply e cmd = Some (e', out) \<and> engine_inv e' \<and>
    slot_count (engine_book e') \<le> Suc (slot_count (engine_book e))"
  using dispatch_inv [OF assms] by (auto simp: engine_apply_def Let_def)

interpretation em: machine engine_apply engine_inv command_ok "\<lambda>e. slot_count (engine_book e)" "2 ^ 32 - 1"
  by unfold_locales (rule engine_apply_inv, auto intro: book_room_slots)

end
