(* ===== verification/Book_Props.thy ===== *)
theory Book_Props
  imports Engine
begin

text \<open>
  The properties of the book and the engine, stated over the operations of the source, each
  with a witness on a concrete book: two asks of account 1 and account 2 and a bid of account 3,
  reached by three limit orders.
\<close>

section \<open>A concrete book\<close>

definition demo_cmds :: "command list" where
  "demo_cmds = [NewOrder 1 1 Sell 105 20 Limit Gtc 0, NewOrder 2 1 Sell 104 10 Limit Gtc 0,
     NewOrder 3 1 Buy 100 50 Limit Gtc 0]"

definition demo_engine :: engine where
  "demo_engine = fst (the (run engine_apply engine_new demo_cmds))"

definition demo_book :: book where
  "demo_book = engine_book demo_engine"

lemma demo_engine_inv: "engine_inv demo_engine"
proof -
  have "\<exists>e out. run engine_apply engine_new demo_cmds = Some (e, out) \<and> engine_inv e \<and>
      slot_count (engine_book e) \<le> slot_count (engine_book engine_new) + length demo_cmds"
    by (rule em.run_returns [OF engine_inv_new])
      (simp_all add: demo_cmds_def command_ok_def engine_new_def book_new_def arena_new_def)
  then show ?thesis by (auto simp: demo_engine_def)
qed

lemma demo_book_inv: "book_inv demo_book"
  using demo_engine_inv by (simp add: engine_inv_def demo_book_def)

lemma demo_room: "book_room demo_book"
proof -
  have "slot_count demo_book = 3" unfolding demo_book_def demo_engine_def demo_cmds_def by code_simp
  then show ?thesis by (simp add: arena_room_def)
qed

lemma demo_resting:
  "resting demo_book Sell = [order_for 2 1 104 10, order_for 1 1 105 20]"
  "resting demo_book Buy = [order_for 3 1 100 50]"
  unfolding demo_book_def demo_engine_def demo_cmds_def by code_simp+

section \<open>The engine as a whole\<close>





section \<open>Matching\<close>



text \<open>C6. Self-trade prevention and limit protection: no resting order of the aggressor's account
  is ever filled by it, and every execution, on both sides, is at a price within the aggressor's limit.\<close>

theorem sweep_no_self_trade:
  assumes "book_inv b" and "sweep a oid side limit b q = Some ((b', rem), out)"
  shows "(\<forall>(k, p, f, left) \<in> set (fills_on (opposite side) out). fst k \<noteq> a \<and> crosses side limit p) \<and>
    (\<forall>(k, p, f, left) \<in> set (fills_on side out). k = (a, oid) \<and> crosses side limit p)"
proof -
  obtain rs lt where
    sw: "a_sweep a oid side limit (resting b (opposite side)) (book_last_trade b) q = ((rs, lt, rem), out)"
    using sweep_refines [OF assms(1), of side a oid limit q] assms(2) by (auto simp: swept_def)
  show ?thesis
    using in_priority_foreign(1,2) [OF a_sweep_priority [OF sw]] a_sweep_taker [OF sw] by fast
qed

theorem sweep_no_self_trade_witness:
  "\<exists>b' rem out. sweep 2 9 Buy 105 demo_book 5 = Some ((b', rem), out) \<and>
    out \<noteq> [] \<and> (\<forall>(k, p, f, left) \<in> set (fills_on Sell out). fst k \<noteq> 2 \<and> crosses Buy 105 p)"
proof -
  let ?r = "the (sweep 2 9 Buy 105 demo_book 5)"
  have r: "sweep 2 9 Buy 105 demo_book 5 = Some ((fst (fst ?r), snd (fst ?r)), snd ?r)" "snd ?r \<noteq> []"
    unfolding demo_book_def demo_engine_def demo_cmds_def by code_simp+
  show ?thesis using r(1,2) conjunct1 [OF sweep_no_self_trade [OF demo_book_inv r(1)]]
    unfolding opposite.simps by blast
qed

text \<open>C5. A limit order refines its specification: \<open>submit_gtc\<close> matches the priority list,
  rests exactly what remains behind every order at least as good, and reports the resting quantity.\<close>

theorem submit_gtc_correct:
  assumes "book_inv b" and "book_room b"
  shows "\<exists>b'. submit_gtc b a oid side p q = Some (b', snd (a_submit_gtc (abs_book b) a oid side p q)) \<and>
    book_inv b' \<and> abs_book b' = fst (a_submit_gtc (abs_book b) a oid side p q)"
  using submit_gtc_refines [OF assms, of a oid side p q] by (auto simp: refines_def)

theorem submit_gtc_correct_witness:
  "\<exists>b'. submit_gtc demo_book 9 1 Buy 104 15 =
      Some (b', snd (a_submit_gtc (abs_book demo_book) 9 1 Buy 104 15)) \<and>
    book_inv b' \<and> abs_book b' = fst (a_submit_gtc (abs_book demo_book) 9 1 Buy 104 15)"
  by (rule submit_gtc_correct [OF demo_book_inv demo_room])

text \<open>C20. Immediate-or-cancel and market orders never rest: \<open>submit_ioc\<close> and
  \<open>submit_market\<close> (an IOC with an unbounded limit) return, leave the aggressor's side of the
  book as it was and report a resting quantity of zero, unless the id is a duplicate.\<close>

theorem submit_ioc_never_rests:
  assumes "book_inv b"
  shows "\<exists>b' out. submit_ioc b a oid side p q = Some (b', out) \<and> book_inv b' \<and>
      resting b' side = resting b side \<and>
      (last out = Accepted a oid 0 \<or> b' = b \<and> out = [Rejected a oid DuplicateOrderId]) \<and>
    (\<exists>b' out. submit_market b a oid side q = Some (b', out) \<and> book_inv b' \<and>
      resting b' side = resting b side \<and>
      (last out = Accepted a oid 0 \<or> b' = b \<and> out = [Rejected a oid DuplicateOrderId]))"
proof -
  have "\<exists>b' out. submit_ioc b a oid side p q = Some (b', out) \<and> book_inv b' \<and>
      resting b' side = resting b side \<and>
      (last out = Accepted a oid 0 \<or> b' = b \<and> out = [Rejected a oid DuplicateOrderId])" for p
  proof -
    obtain b' rs lt rem out where "sweep a oid side p b q = Some ((b', rem), out)" "book_inv b'"
      "resting b' = (resting b)(opposite side := rs)"
      using sweep_refines [OF assms, of side a oid p q] unfolding swept_def by blast
    then show ?thesis using assms by (auto simp: submit_ioc_def)
  qed
  from this [of p] this [of "market_bound side"] show ?thesis
    by (auto simp: submit_market_def submit_ioc_def)
qed

theorem submit_ioc_never_rests_witness:
  "\<exists>b' out. submit_ioc demo_book 9 1 Buy 104 15 = Some (b', out) \<and> resting b' Buy = [order_for 3 1 100 50]"
  using submit_ioc_never_rests [OF demo_book_inv, of 9 1 Buy 104 15] by (auto simp: demo_resting)

text \<open>C7. Fill-or-kill is all or nothing: \<open>submit_fok\<close> either leaves the book unchanged and
  rejects, or trades exactly the order's quantity; it trades whenever the quantity other
  accounts rest at crossing prices suffices.\<close>

theorem submit_fok_all_or_nothing:
  assumes inv: "book_inv b"
  shows "\<exists>b' out. submit_fok b a oid side p q = Some (b', out) \<and> book_inv b' \<and>
    (if hm_contains (book_order_index b) (a, oid) then b' = b \<and> out = [Rejected a oid DuplicateOrderId]
     else if unat q \<le> foreign_qty a side p (resting b (opposite side))
     then traded out = unat q \<and> last out = Accepted a oid 0 \<and> resting b' side = resting b side
     else b' = b \<and> out = [Rejected a oid NotFullyFillable])"
proof -
  obtain b' rs lt rem out where
    sw: "a_sweep a oid side p (resting b (opposite side)) (book_last_trade b) q = ((rs, lt, rem), out)"
    and run: "sweep a oid side p b q = Some ((b', rem), out)" "book_inv b'"
      "resting b' = (resting b)(opposite side := rs)"
    using sweep_refines [OF inv, of side a oid p q] unfolding swept_def by blast
  have "traded out = unat q" if "unat q \<le> foreign_qty a side p (resting b (opposite side))"
    using a_sweep_conserves [OF sw] a_sweep_fillable [OF sw that] by simp
  then show ?thesis using run inv by (auto simp: submit_fok_def is_fillable_eq)
qed

theorem submit_fok_all_or_nothing_witness:
  "\<exists>b' out. submit_fok demo_book 9 1 Buy 105 25 = Some (b', out) \<and> traded out = 25 \<and>
    last out = Accepted 9 1 0"
proof -
  have "\<not> hm_contains (book_order_index demo_book) (9, 1)"
    unfolding demo_book_def demo_engine_def demo_cmds_def by code_simp
  moreover have "25 \<le> foreign_qty 9 Buy 105 (resting demo_book Sell)"
    by (simp add: demo_resting foreign_qty_def crosses_def order_for_def)
  ultimately show ?thesis using submit_fok_all_or_nothing [OF demo_book_inv, of 9 1 Buy 105 25] by auto
qed

text \<open>C19. A PostOnly order never trades: \<open>submit_postonly\<close> cancels the own orders it would
  cross, then either rejects because another account's order crosses, or rests the full quantity;
  in neither case is there an execution.\<close>

theorem submit_postonly_never_trades:
  assumes inv: "book_inv b" and room: "book_room b" and q: "q \<noteq> 0"
  shows "\<exists>b' out. submit_postonly b a oid side p q = Some (b', out) \<and> book_inv b' \<and> traded out = 0 \<and>
    book_last_trade b' = book_last_trade b \<and>
    (last out = Accepted a oid q \<and> order_for a oid p q \<in> set (resting b' side) \<and>
       (\<forall>r \<in> set (resting b' (opposite side)). \<not> crosses side p (r_price r)) \<or>
     last out = Rejected a oid WouldCross \<and> resting b' side = resting b side \<or>
     b' = b \<and> out = [Rejected a oid DuplicateOrderId])"
proof (cases "a_present (abs_book b) (a, oid)")
  case True
  then show ?thesis using inv by (simp add: submit_postonly_def a_present_abs [OF inv])
next
  case False
  obtain rs cross out where st: "a_stp a side p (resting b (opposite side)) = ((rs, cross), out)"
    by (metis prod.exhaust)
  from a_stp_shrinks [OF st] obtain own where own: "resting b (opposite side) = own @ rs"
    "out = map (\<lambda>r. Cancelled a (r_id r)) own" "cross \<longleftrightarrow> rs \<noteq> [] \<and> crosses side p (r_price (hd rs))" by blast
  have tr: "traded (out @ [e]) = traded [e]" for e unfolding own(2) by (induction own) auto
  have "prio_sorted (opposite side) rs"
    using book_inv_resting(1) [OF inv, of "opposite side"] own(1) by (simp add: prio_sorted_def sorted_wrt_append)
  then have free: "\<forall>r \<in> set rs. \<not> crosses side p (r_price r)" if "\<not> cross"
    using that own(3) prio_sorted_hd by blast
  obtain b' where run: "submit_postonly b a oid side p q =
      Some (b', snd (a_submit_postonly (abs_book b) a oid side p q))" "book_inv b'"
    "abs_book b' = fst (a_submit_postonly (abs_book b) a oid side p q)"
    using submit_postonly_refines [OF inv room q, of a oid side p] by (auto simp: refines_def)
  have abs: "resting b' = a_orders (fst (a_submit_postonly (abs_book b) a oid side p q))"
    "book_last_trade b' = a_last (fst (a_submit_postonly (abs_book b) a oid side p q))"
    by (simp_all flip: run(3))
  show ?thesis
    using run(1,2) free abs False st tr
    by (cases cross) (simp_all add: a_submit_postonly_def a_add_def Let_def)
qed

theorem submit_postonly_never_trades_witness:
  "\<exists>b' out. submit_postonly demo_book 9 1 Buy 104 15 = Some (b', out) \<and> traded out = 0"
  using submit_postonly_never_trades [OF demo_book_inv demo_room, of 15 9 1 Buy 104] by auto

text \<open>C17. An amend that does not raise quantity and keeps the price keeps the order's place:
  \<open>modify\<close> changes nothing but that order's quantity.\<close>

theorem modify_keeps_priority:
  assumes inv: "book_inv b" and found: "a_find (abs_book b) (a, oid) = Some (side, r)"
    and "q \<noteq> 0" and "q \<le> r_qty r"
  shows "\<exists>b'. modify b a oid (r_price r) q = Some (b', [Replaced a oid q True]) \<and> book_inv b' \<and>
    book_last_trade b' = book_last_trade b \<and> (\<forall>sd. resting b' sd = set_qty (a, oid) q (resting b sd))"
proof -
  obtain b' where "modify b a oid (r_price r) q = Some (b', snd (a_modify (abs_book b) a oid (r_price r) q))"
    "book_inv b'" and abs: "abs_book b' = fst (a_modify (abs_book b) a oid (r_price r) q)"
    using modify_refines [OF inv, of a oid "r_price r" q] by (auto simp: refines_def)
  moreover have "resting b' = a_orders (fst (a_modify (abs_book b) a oid (r_price r) q))"
    "book_last_trade b' = a_last (fst (a_modify (abs_book b) a oid (r_price r) q))"
    by (simp_all flip: abs)
  ultimately show ?thesis using assms by (simp add: a_modify_def)
qed

theorem modify_keeps_priority_witness:
  "\<exists>b'. modify demo_book 1 1 105 7 = Some (b', [Replaced 1 1 7 True]) \<and>
    (\<forall>sd. resting b' sd = set_qty (1, 1) 7 (resting demo_book sd))"
proof -
  have "a_find (abs_book demo_book) (1, 1) = Some (Sell, order_for 1 1 105 20)"
    by (simp add: a_find_def demo_resting order_for_def rkey_def)
  from modify_keeps_priority [OF demo_book_inv this, of 7] show ?thesis by (auto simp: order_for_def)
qed

text \<open>C16. Every other amend gives up the order's place: \<open>modify\<close> with a new price or a
  larger quantity removes the order, matches it as a fresh aggressor on its own side and rests
  what remains behind its equals; unknown ids and a zero quantity are rejected.\<close>

theorem modify_correct:
  assumes "book_inv b"
  shows "\<exists>b'. modify b a oid p q = Some (b', snd (a_modify (abs_book b) a oid p q)) \<and>
    book_inv b' \<and> abs_book b' = fst (a_modify (abs_book b) a oid p q)"
  using modify_refines [OF assms, of a oid p q] by (auto simp: refines_def)

theorem modify_correct_witness:
  "\<exists>b'. modify demo_book 1 1 99 20 = Some (b', snd (a_modify (abs_book demo_book) 1 1 99 20)) \<and>
    book_inv b' \<and> abs_book b' = fst (a_modify (abs_book demo_book) 1 1 99 20)"
  by (rule modify_correct [OF demo_book_inv])

text \<open>\<open>cancel\<close> removes exactly the named order, and rejects an id that does not rest.\<close>

theorem cancel_correct:
  assumes inv: "book_inv b"
  shows "\<exists>b'. book_inv b' \<and> book_last_trade b' = book_last_trade b \<and>
    (if hm_contains (book_order_index b) (a, oid)
     then cancel b a oid = Some (b', [Cancelled a oid]) \<and>
       (\<forall>sd. resting b' sd = filter (\<lambda>r. rkey r \<noteq> (a, oid)) (resting b sd))
     else cancel b a oid = Some (b', [Rejected a oid UnknownOrderId]) \<and> b' = b)"
proof (cases "hm_contains (book_order_index b) (a, oid)")
  case True
  obtain b' where "cancel b a oid = Some (b', snd (a_cancel (abs_book b) a oid))" "book_inv b'"
    and abs: "abs_book b' = fst (a_cancel (abs_book b) a oid)"
    using cancel_refines [OF inv, of a oid] by (auto simp: refines_def)
  moreover have "resting b' = a_orders (fst (a_cancel (abs_book b) a oid))"
    "book_last_trade b' = a_last (fst (a_cancel (abs_book b) a oid))" by (simp_all flip: abs)
  ultimately show ?thesis using True
    by (auto simp: a_cancel_def a_present_abs [OF inv] a_drop_def drop_key_def)
next
  case False
  then show ?thesis using inv by (simp add: cancel_def hm_contains_def)
qed

theorem cancel_correct_witness:
  "\<exists>b'. cancel demo_book 2 1 = Some (b', [Cancelled 2 1]) \<and> resting b' Sell = [order_for 1 1 105 20]"
proof -
  have "hm_contains (book_order_index demo_book) (2, 1)"
    unfolding demo_book_def demo_engine_def demo_cmds_def by code_simp
  then show ?thesis using cancel_correct [OF demo_book_inv, of 2 1]
    by (auto simp: demo_resting order_for_def rkey_def)
qed

text \<open>C18. \<open>mass_cancel\<close> removes every order of the account and no other, and emits one
  \<open>Cancelled\<close> per order, although \<open>unlink\<close> reorders the account's slots under the loop.\<close>

theorem mass_cancel_correct:
  assumes "book_inv b"
  shows "\<exists>b' ids. mass_cancel b a = Some (b', map (Cancelled a) ids) \<and> book_inv b' \<and>
    mset ids = mset (map r_id (orders_of b a)) \<and>
    (\<forall>sd. resting b' sd = filter (\<lambda>r. r_account r \<noteq> a) (resting b sd))"
  using mass_cancel_spec [OF assms, of a] by auto

theorem mass_cancel_correct_witness:
  "\<exists>b' ids. mass_cancel demo_book 1 = Some (b', map (Cancelled 1) ids) \<and> mset ids = {#1#} \<and>
    resting b' Sell = [order_for 2 1 104 10]"
  using mass_cancel_correct [OF demo_book_inv, of 1] by (auto simp: demo_resting orders_of_def order_for_def)

section \<open>Queries and cached aggregates\<close>

text \<open>The per-account caches never drift: \<open>account_open_order_count\<close> and
  \<open>account_notional\<close> are the count and the exact notional of the account's resting orders.\<close>

theorem account_caches_exact:
  assumes "book_inv b"
  shows "account_open_order_count b a = length (orders_of b a) \<and>
    account_notional b a = notional_sum (orders_of b a)"
  using account_totals [OF assms] by simp

theorem account_caches_exact_witness:
  "account_open_order_count demo_book 1 = 1 \<and> account_notional demo_book 1 = 2100"
  using account_caches_exact [OF demo_book_inv, of 1]
  by (simp add: orders_of_def demo_resting order_for_def notional_sum_def notional_of_def)

text \<open>The touch and the level caches are exact: \<open>top_of_book\<close> is the best resting price of
  each side with the sum of the quantities resting there, and every price level caches the sum and
  the number of its orders.\<close>

theorem level_caches_exact:
  assumes inv: "book_inv b"
  shows "top_of_book b = (a_touch (resting b Buy), a_touch (resting b Sell)) \<and>
    (\<forall>sd p l. bt_get (side_map b sd) p = Some l \<longrightarrow> level_total_qty l = level_qty (resting b sd) p \<and>
       level_count l = of_nat (level_orders (resting b sd) p))"
  using top_of_book_abs [OF inv] level_totals inv by (auto simp: book_inv_def)

theorem level_caches_exact_witness:
  "top_of_book demo_book = (Some (100, 50), Some (104, 10))"
  using level_caches_exact [OF demo_book_inv] by (simp add: demo_resting a_touch_def level_qty_def order_for_def)



section \<open>The primitives\<close>

lemma drop_a_rest:
  assumes "k \<notin> rkey ` set rs" and "rkey r = k"
  shows "drop_key k (a_rest sd r rs) = rs"
proof -
  have "drop_key k (a_rest sd r rs) = drop_key k (takeWhile (\<lambda>x. ahead sd (r_price x) (r_price r)) rs @
      dropWhile (\<lambda>x. ahead sd (r_price x) (r_price r)) rs)"
    using assms(2) unfolding a_rest_def drop_key_def filter_append by simp
  then show ?thesis using drop_key_absent [OF assms(1)] by simp
qed

text \<open>Resting and cancelling an order is a round trip: after \<open>rest\<close> the order is found with
  its price and quantity at the end of its price level, and \<open>cancel\<close> restores both priority lists.\<close>

theorem rest_cancel_roundtrip:
  assumes inv: "book_inv b" and room: "book_room b"
    and new: "\<not> hm_contains (book_order_index b) (a, oid)" and q: "q \<noteq> 0"
  shows "\<exists>b' b''. rest b a oid side p q = Some b' \<and> book_inv b' \<and>
    resting b' side = a_rest side (order_for a oid p q) (resting b side) \<and>
    resting_order_snapshot b' a oid = Some (p, q) \<and>
    cancel b' a oid = Some (b'', [Cancelled a oid]) \<and> book_inv b'' \<and> resting b'' = resting b"
proof -
  obtain b' where b': "rest b a oid side p q = Some b'" "book_inv b'"
    "resting b' = (resting b)(side := a_rest side (order_for a oid p q) (resting b side))"
    using inv room new q by (rule rest_abs)
  have absent: "(a, oid) \<notin> rkey ` set (resting b sd)" for sd using new book_inv_resting(4) [OF inv] by blast
  have mem: "order_for a oid p q \<in> set (resting b' side)" using b'(3) by simp
  have key: "rkey (order_for a oid p q) = (a, oid)" by (simp add: order_for_def rkey_def)
  have idx: "hm_contains (book_order_index b') (a, oid)"
    unfolding book_inv_resting(4) [OF b'(2)] using mem key by force
  then obtain s where s: "hm_get (book_order_index b') (a, oid) = Some s" by (auto simp: hm_contains_def)
  from a_find_abs(2) [OF b'(2) s] obtain n where n: "heap_of b' s = Some n"
    "(a, oid) = (node_account n, node_id n)" "a_find (abs_book b') (a, oid) = Some (node_side n, order_of n)" by auto
  have "order_of n \<in> set (resting b' (node_side n))"
    using n(1) b'(2) by (intro resting_memI) (simp_all add: book_inv_def)
  then have "order_of n = order_for a oid p q"
    using resting_keys_disjoint(2) [OF _ _ mem] b'(2) n(2) key by (simp add: book_inv_def)
  then have snap: "resting_order_snapshot b' a oid = Some (p, q)"
    using s n(1) by (auto simp: resting_order_snapshot_def order_for_def order_of_def)
  obtain b'' where "cancel b' a oid = Some (b'', snd (a_cancel (abs_book b') a oid))" "book_inv b''"
    and abs: "abs_book b'' = fst (a_cancel (abs_book b') a oid)"
    using cancel_refines [OF b'(2), of a oid] by (auto simp: refines_def)
  moreover have "resting b'' = a_orders (fst (a_cancel (abs_book b') a oid))" by (simp flip: abs)
  moreover have "drop_key (a, oid) (a_rest side (order_for a oid p q) (resting b side)) = resting b side"
    using drop_a_rest [OF absent key] by simp
  ultimately show ?thesis using b' snap idx absent
    by (intro exI [of _ b'] exI [of _ b''])
      (auto simp: a_cancel_def a_present_abs a_drop_def drop_key_absent fun_eq_iff)
qed

theorem rest_cancel_roundtrip_witness:
  "\<exists>b' b''. rest demo_book 9 9 Buy 100 7 = Some b' \<and>
    resting b' Buy = [order_for 3 1 100 50, order_for 9 9 100 7] \<and>
    cancel b' 9 9 = Some (b'', [Cancelled 9 9]) \<and> resting b'' = resting demo_book"
proof -
  have "\<not> hm_contains (book_order_index demo_book) (9, 9)"
    unfolding demo_book_def demo_engine_def demo_cmds_def by code_simp
  from rest_cancel_roundtrip [OF demo_book_inv demo_room this, of 7 Buy 100] show ?thesis
    by (auto simp: demo_resting a_rest_def order_for_def)
qed

text \<open>C27. The arena and the intrusive lists: \<open>unlink\<close> of a live slot returns, keeps the whole
  representation invariant (chains, caches, both indexes, free list) and frees exactly that slot;
  the slot becomes available for the next insertion.\<close>

theorem unlink_frees_slot:
  assumes "book_inv b" and "arena_get (book_arena b) s = Some n"
  shows "\<exists>b'. unlink b s = Some b' \<and> book_inv b' \<and> arena_get (book_arena b') s = None \<and>
    (\<forall>t. t \<noteq> s \<longrightarrow> (arena_get (book_arena b') t = None \<longleftrightarrow> arena_get (book_arena b) t = None)) \<and>
    arena_len (book_arena b') + 1 = arena_len (book_arena b) \<and> book_room b'"
proof -
  have rep: "book_rep b (queue_of b)" using assms(1) by (simp add: book_inv_def)
  obtain b' mv where b': "unlink b s = Some b'" "book_rep b' (del_slot (queue_of b) s)"
    "heap_of b' = unlink_heap (heap_of b) s n mv" "book_room b'"
    using rep assms(2) by (rule unlink_rep)
  have live: "{t. heap_of b t \<noteq> None} = insert s {t. heap_of b' t \<noteq> None}"
    using assms(2) by (auto simp: b'(3) unlink_heap_def)
  have "card {t. heap_of b t \<noteq> None} = card {t. heap_of b' t \<noteq> None} + 1"
    unfolding live by (subst card_insert_disjoint) (auto simp: b'(3))
  then have "arena_len (book_arena b') + 1 = arena_len (book_arena b)"
    using arena_len_card [OF book_repD(1) [OF rep]] arena_len_card [OF book_repD(1) [OF b'(2)]] by simp
  then show ?thesis using b' by (auto intro: book_invI simp: unlink_heap_def)
qed

theorem unlink_frees_slot_witness:
  "\<exists>b'. unlink demo_book 0 = Some b' \<and> arena_get (book_arena b') 0 = None \<and>
    arena_len (book_arena b') + 1 = arena_len (book_arena demo_book)"
proof -
  let ?n = "the (arena_get (book_arena demo_book) 0)"
  have "arena_get (book_arena demo_book) 0 = Some ?n"
    unfolding demo_book_def demo_engine_def demo_cmds_def by code_simp
  from unlink_frees_slot [OF demo_book_inv this] show ?thesis by auto
qed

section \<open>A price that validation misses\<close>


end
