(* ===== verification/Wire_Codec.thy ===== *)
theory Wire_Codec
  imports Core_Types
begin

text \<open>
  Byte-level primitives of the wire protocol (\<open>codec.rs\<close>) and the message tags with
  their lengths (\<open>tag.rs\<close>). Buffers are byte lists; an access outside a buffer panics.
  Decoders that can reject return a result: \<^const>\<open>Inl\<close> the reason, \<^const>\<open>Inr\<close> the value.
\<close>

unbundle bit_operations_syntax

type_synonym bytes = "u8 list"
type_synonym 'a result = "reject_reason + 'a"

text \<open>The \<open>?\<close> operator: return the error early, continue on the value.\<close>

definition try_then :: "'a result \<Rightarrow> ('a \<Rightarrow> 'b result option) \<Rightarrow> 'b result option" where
  "try_then r f = (case r of Inl e \<Rightarrow> Some (Inl e) | Inr x \<Rightarrow> f x)"

lemma try_then_simps [simp]: "try_then (Inl e) f = Some (Inl e)" "try_then (Inr x) f = f x"
  by (simp_all add: try_then_def)

section \<open>Little-endian integers\<close>

text \<open>\<open>to_le_bytes\<close> of an \<open>8 * n\<close>-bit integer, and \<open>from_le_bytes\<close>.\<close>

fun to_le_bytes :: "nat \<Rightarrow> 'a::len word \<Rightarrow> bytes" where
  "to_le_bytes 0 v = []"
| "to_le_bytes (Suc n) v = ucast v # to_le_bytes n (drop_bit 8 v)"

fun from_le_bytes :: "bytes \<Rightarrow> 'a::len word" where
  "from_le_bytes [] = 0"
| "from_le_bytes (b # bs) = ucast b OR push_bit 8 (from_le_bytes bs)"

lemma length_to_le_bytes [simp]: "length (to_le_bytes n v) = n"
  by (induction n v rule: to_le_bytes.induct) auto

lemma from_to_le_bytes: "from_le_bytes (to_le_bytes n v) = take_bit (8 * n) v"
proof (induction n v rule: to_le_bytes.induct)
  case (1 v)
  then show ?case by simp
next
  case (2 n v)
  show ?case
    unfolding to_le_bytes.simps from_le_bytes.simps 2
    by (rule bit_word_eqI) (auto simp: bit_simps)
qed

lemma from_to_le_bytes_u64 [simp]: "from_le_bytes (to_le_bytes 8 (v :: u64)) = v"
  by (simp add: from_to_le_bytes take_bit_word_eq_self)

lemma from_to_le_bytes_u128 [simp]: "from_le_bytes (to_le_bytes 16 (v :: u128)) = v"
  by (simp add: from_to_le_bytes take_bit_word_eq_self)

lemma bit_from_le_bytes: "bit (from_le_bytes bs :: 'a::len word) n \<Longrightarrow> n < 8 * length bs"
proof (induction bs arbitrary: n)
  case (Cons b bs)
  from Cons.prems consider "bit b n" | "8 \<le> n" "bit (from_le_bytes bs :: 'a word) (n - 8)"
    by (auto simp: bit_simps)
  then show ?case using bit_imp_le_length [of b n] Cons.IH [of "n - 8"] by cases auto
qed simp

lemma to_from_le_bytes:
  assumes "8 * length bs \<le> LENGTH('a::len)"
  shows "to_le_bytes (length bs) (from_le_bytes bs :: 'a word) = bs"
  using assms
proof (induction bs)
  case (Cons b bs)
  have "ucast (ucast b OR push_bit 8 (from_le_bytes bs) :: 'a word) = b"
    by (rule bit_word_eqI) (use Cons.prems in \<open>auto simp: bit_simps\<close>)
  moreover have "drop_bit 8 (ucast b OR push_bit 8 (from_le_bytes bs)) = (from_le_bytes bs :: 'a word)"
    by (rule bit_word_eqI)
      (use Cons.prems in \<open>auto simp: bit_simps dest: bit_imp_le_length bit_from_le_bytes\<close>)
  ultimately show ?case using Cons by simp
qed simp

lemma to_from_le_bytes_u64: "length bs = 8 \<Longrightarrow> to_le_bytes 8 (from_le_bytes bs :: u64) = bs"
  using to_from_le_bytes [where bs = bs and 'a = 64] by simp

lemma to_from_le_bytes_u128: "length bs = 16 \<Longrightarrow> to_le_bytes 16 (from_le_bytes bs :: u128) = bs"
  using to_from_le_bytes [where bs = bs and 'a = 128] by simp

section \<open>Reads and writes\<close>

text \<open>\<open>buf[offset..offset + n].copy_from_slice(bs)\<close> and \<open>&buf[offset..offset + n]\<close>.\<close>

definition write_slice :: "bytes \<Rightarrow> nat \<Rightarrow> bytes \<Rightarrow> bytes option" where
  "write_slice buf offset bs =
     (if offset + length bs \<le> length buf
      then Some (take offset buf @ bs @ drop (offset + length bs) buf) else None)"

definition read_slice :: "bytes \<Rightarrow> nat \<Rightarrow> nat \<Rightarrow> bytes option" where
  "read_slice buf offset n =
     (if offset + n \<le> length buf then Some (take n (drop offset buf)) else None)"

definition write_u8 :: "bytes \<Rightarrow> nat \<Rightarrow> u8 \<Rightarrow> bytes option" where
  "write_u8 buf offset value = write_slice buf offset [value]"

definition read_u8 :: "bytes \<Rightarrow> nat \<Rightarrow> u8 option" where
  "read_u8 buf offset = vec_get buf offset"

definition write_u64 :: "bytes \<Rightarrow> nat \<Rightarrow> u64 \<Rightarrow> bytes option" where
  "write_u64 buf offset value = write_slice buf offset (to_le_bytes 8 value)"

definition read_u64 :: "bytes \<Rightarrow> nat \<Rightarrow> u64 option" where
  "read_u64 buf offset = map_option from_le_bytes (read_slice buf offset 8)"

definition write_u128 :: "bytes \<Rightarrow> nat \<Rightarrow> u128 \<Rightarrow> bytes option" where
  "write_u128 buf offset value = write_slice buf offset (to_le_bytes 16 value)"

definition read_u128 :: "bytes \<Rightarrow> nat \<Rightarrow> u128 option" where
  "read_u128 buf offset = map_option from_le_bytes (read_slice buf offset 16)"

definition bool_to_u8 :: "bool \<Rightarrow> u8" where
  "bool_to_u8 b = (if b then 1 else 0)"

definition write_bool :: "bytes \<Rightarrow> nat \<Rightarrow> bool \<Rightarrow> bytes option" where
  "write_bool buf offset value = write_slice buf offset [bool_to_u8 value]"

definition bool_from_u8 :: "u8 \<Rightarrow> bool result" where
  "bool_from_u8 v = (if v = 0 then Inr False else if v = 1 then Inr True else Inl MalformedMessage)"

definition read_bool :: "bytes \<Rightarrow> nat \<Rightarrow> bool result option" where
  "read_bool buf offset = map_option bool_from_u8 (vec_get buf offset)"

section \<open>Enums\<close>

definition side_to_u8 :: "side \<Rightarrow> u8" where
  "side_to_u8 s = (case s of Buy \<Rightarrow> 0 | Sell \<Rightarrow> 1)"

definition side_from_u8 :: "u8 \<Rightarrow> side result" where
  "side_from_u8 v = (if v = 0 then Inr Buy else if v = 1 then Inr Sell else Inl MalformedMessage)"

definition order_kind_to_u8 :: "order_kind \<Rightarrow> u8" where
  "order_kind_to_u8 k = (case k of Limit \<Rightarrow> 0 | Market \<Rightarrow> 1)"

definition order_kind_from_u8 :: "u8 \<Rightarrow> order_kind result" where
  "order_kind_from_u8 v = (if v = 0 then Inr Limit else if v = 1 then Inr Market else Inl MalformedMessage)"

definition tif_to_u8 :: "tif \<Rightarrow> u8" where
  "tif_to_u8 t = (case t of Gtc \<Rightarrow> 0 | Ioc \<Rightarrow> 1 | Fok \<Rightarrow> 2 | PostOnly \<Rightarrow> 3)"

definition tif_from_u8 :: "u8 \<Rightarrow> tif result" where
  "tif_from_u8 v = (if v = 0 then Inr Gtc else if v = 1 then Inr Ioc else if v = 2 then Inr Fok
     else if v = 3 then Inr PostOnly else Inl MalformedMessage)"

definition fill_state_to_u8 :: "fill_state \<Rightarrow> u8" where
  "fill_state_to_u8 s = (case s of State_PartiallyFilled \<Rightarrow> 0 | State_Filled \<Rightarrow> 1)"

definition fill_state_from_u8 :: "u8 \<Rightarrow> fill_state result" where
  "fill_state_from_u8 v = (if v = 0 then Inr State_PartiallyFilled else if v = 1 then Inr State_Filled
     else Inl MalformedMessage)"

definition reject_reason_to_u8 :: "reject_reason \<Rightarrow> u8" where
  "reject_reason_to_u8 r = (case r of
       MalformedMessage \<Rightarrow> 0 | UnknownMessageType \<Rightarrow> 1 | DuplicateOrderId \<Rightarrow> 2 | UnknownOrderId \<Rightarrow> 3
     | ZeroQuantity \<Rightarrow> 4 | WouldCross \<Rightarrow> 5 | NotFullyFillable \<Rightarrow> 6 | KillSwitchActive \<Rightarrow> 7
     | MaxOpenOrders \<Rightarrow> 8 | MaxNotional \<Rightarrow> 9 | PriceBandViolation \<Rightarrow> 10 | ZeroPrice \<Rightarrow> 11)"

definition reject_reason_from_u8 :: "u8 \<Rightarrow> reject_reason result" where
  "reject_reason_from_u8 v = (if v = 0 then Inr MalformedMessage else if v = 1 then Inr UnknownMessageType
     else if v = 2 then Inr DuplicateOrderId else if v = 3 then Inr UnknownOrderId
     else if v = 4 then Inr ZeroQuantity else if v = 5 then Inr WouldCross
     else if v = 6 then Inr NotFullyFillable else if v = 7 then Inr KillSwitchActive
     else if v = 8 then Inr MaxOpenOrders else if v = 9 then Inr MaxNotional
     else if v = 10 then Inr PriceBandViolation else if v = 11 then Inr ZeroPrice
     else Inl MalformedMessage)"

text \<open>An enum and its byte: every value round-trips, and a byte decodes only if it is canonical.\<close>

locale byte_enum =
  fixes to_byte :: "'a \<Rightarrow> u8" and from_byte :: "u8 \<Rightarrow> 'a result"
  assumes from_to: "from_byte (to_byte x) = Inr x"
    and to_from: "from_byte v = Inr x \<Longrightarrow> to_byte x = v"
begin

lemma to_byte_inj: "to_byte x = to_byte y \<Longrightarrow> x = y"
  by (metis from_to sum.inject(2))

lemma from_byte_iff: "from_byte v = Inr x \<longleftrightarrow> v = to_byte x"
  by (metis from_to to_from)

end

interpretation bool_byte: byte_enum bool_to_u8 bool_from_u8
  by unfold_locales (auto simp: bool_to_u8_def bool_from_u8_def split: if_splits)

interpretation side_byte: byte_enum side_to_u8 side_from_u8
  by unfold_locales (auto simp: side_to_u8_def side_from_u8_def split: side.splits if_splits)

interpretation kind_byte: byte_enum order_kind_to_u8 order_kind_from_u8
  by unfold_locales (auto simp: order_kind_to_u8_def order_kind_from_u8_def split: order_kind.splits if_splits)

interpretation tif_byte: byte_enum tif_to_u8 tif_from_u8
  by unfold_locales (auto simp: tif_to_u8_def tif_from_u8_def split: tif.splits if_splits)

interpretation state_byte: byte_enum fill_state_to_u8 fill_state_from_u8
  by unfold_locales (auto simp: fill_state_to_u8_def fill_state_from_u8_def split: fill_state.splits if_splits)

interpretation reason_byte: byte_enum reject_reason_to_u8 reject_reason_from_u8
proof unfold_locales
  show "reject_reason_from_u8 (reject_reason_to_u8 r) = Inr r" for r
    by (cases r) (simp_all add: reject_reason_to_u8_def reject_reason_from_u8_def)
  show "reject_reason_to_u8 r = v" if "reject_reason_from_u8 v = Inr r" for v r
    using that by (cases r) (simp_all add: reject_reason_to_u8_def reject_reason_from_u8_def split: if_split_asm)
qed

section \<open>Tags and lengths\<close>

definition TAG_NEW_ORDER :: u8 where "TAG_NEW_ORDER = 1"
definition TAG_CANCEL_ORDER :: u8 where "TAG_CANCEL_ORDER = 2"
definition TAG_CANCEL_REPLACE :: u8 where "TAG_CANCEL_REPLACE = 3"
definition TAG_MASS_CANCEL :: u8 where "TAG_MASS_CANCEL = 4"
definition TAG_KILL_SWITCH :: u8 where "TAG_KILL_SWITCH = 5"
definition TAG_SNAPSHOT :: u8 where "TAG_SNAPSHOT = 6"
definition TAG_ACCEPTED :: u8 where "TAG_ACCEPTED = 10"
definition TAG_REJECTED :: u8 where "TAG_REJECTED = 11"
definition TAG_FILLED :: u8 where "TAG_FILLED = 12"
definition TAG_CANCELLED :: u8 where "TAG_CANCELLED = 13"
definition TAG_REPLACED :: u8 where "TAG_REPLACED = 14"
definition TAG_TRADE :: u8 where "TAG_TRADE = 15"
definition TAG_BOOK_UPDATE :: u8 where "TAG_BOOK_UPDATE = 16"
definition TAG_SNAPSHOT_LEVEL :: u8 where "TAG_SNAPSHOT_LEVEL = 17"
definition TAG_SNAPSHOT_ACCOUNT :: u8 where "TAG_SNAPSHOT_ACCOUNT = 18"
definition TAG_SNAPSHOT_SUMMARY :: u8 where "TAG_SNAPSHOT_SUMMARY = 19"

definition NEW_ORDER_LEN :: nat where "NEW_ORDER_LEN = 44"
definition CANCEL_ORDER_LEN :: nat where "CANCEL_ORDER_LEN = 17"
definition CANCEL_REPLACE_LEN :: nat where "CANCEL_REPLACE_LEN = 33"
definition MASS_CANCEL_LEN :: nat where "MASS_CANCEL_LEN = 9"
definition KILL_SWITCH_LEN :: nat where "KILL_SWITCH_LEN = 2"
definition SNAPSHOT_LEN :: nat where "SNAPSHOT_LEN = 1"
definition ACCEPTED_LEN :: nat where "ACCEPTED_LEN = 41"
definition REJECTED_LEN :: nat where "REJECTED_LEN = 34"
definition FILLED_LEN :: nat where "FILLED_LEN = 59"
definition CANCELLED_LEN :: nat where "CANCELLED_LEN = 33"
definition REPLACED_LEN :: nat where "REPLACED_LEN = 42"
definition TRADE_LEN :: nat where "TRADE_LEN = 26"
definition BOOK_UPDATE_LEN :: nat where "BOOK_UPDATE_LEN = 43"
definition SNAPSHOT_LEVEL_LEN :: nat where "SNAPSHOT_LEVEL_LEN = 34"
definition SNAPSHOT_ACCOUNT_LEN :: nat where "SNAPSHOT_ACCOUNT_LEN = 41"
definition SNAPSHOT_SUMMARY_LEN :: nat where "SNAPSHOT_SUMMARY_LEN = 68"
definition MAX_MESSAGE_LEN :: nat where "MAX_MESSAGE_LEN = SNAPSHOT_SUMMARY_LEN"

lemmas tag_defs = TAG_NEW_ORDER_def TAG_CANCEL_ORDER_def TAG_CANCEL_REPLACE_def TAG_MASS_CANCEL_def
  TAG_KILL_SWITCH_def TAG_SNAPSHOT_def TAG_ACCEPTED_def TAG_REJECTED_def TAG_FILLED_def TAG_CANCELLED_def
  TAG_REPLACED_def TAG_TRADE_def TAG_BOOK_UPDATE_def TAG_SNAPSHOT_LEVEL_def TAG_SNAPSHOT_ACCOUNT_def
  TAG_SNAPSHOT_SUMMARY_def

lemmas len_defs = NEW_ORDER_LEN_def CANCEL_ORDER_LEN_def CANCEL_REPLACE_LEN_def MASS_CANCEL_LEN_def
  KILL_SWITCH_LEN_def SNAPSHOT_LEN_def ACCEPTED_LEN_def REJECTED_LEN_def FILLED_LEN_def CANCELLED_LEN_def
  REPLACED_LEN_def TRADE_LEN_def BOOK_UPDATE_LEN_def SNAPSHOT_LEVEL_LEN_def SNAPSHOT_ACCOUNT_LEN_def
  SNAPSHOT_SUMMARY_LEN_def MAX_MESSAGE_LEN_def

definition message_len :: "u8 \<Rightarrow> nat option" where
  "message_len tag =
     (if tag = TAG_NEW_ORDER then Some NEW_ORDER_LEN
      else if tag = TAG_CANCEL_ORDER then Some CANCEL_ORDER_LEN
      else if tag = TAG_CANCEL_REPLACE then Some CANCEL_REPLACE_LEN
      else if tag = TAG_MASS_CANCEL then Some MASS_CANCEL_LEN
      else if tag = TAG_KILL_SWITCH then Some KILL_SWITCH_LEN
      else if tag = TAG_SNAPSHOT then Some SNAPSHOT_LEN
      else if tag = TAG_ACCEPTED then Some ACCEPTED_LEN
      else if tag = TAG_REJECTED then Some REJECTED_LEN
      else if tag = TAG_FILLED then Some FILLED_LEN
      else if tag = TAG_CANCELLED then Some CANCELLED_LEN
      else if tag = TAG_REPLACED then Some REPLACED_LEN
      else if tag = TAG_TRADE then Some TRADE_LEN
      else if tag = TAG_BOOK_UPDATE then Some BOOK_UPDATE_LEN
      else if tag = TAG_SNAPSHOT_LEVEL then Some SNAPSHOT_LEVEL_LEN
      else if tag = TAG_SNAPSHOT_ACCOUNT then Some SNAPSHOT_ACCOUNT_LEN
      else if tag = TAG_SNAPSHOT_SUMMARY then Some SNAPSHOT_SUMMARY_LEN
      else None)"

lemma message_len_bounds: "message_len tag = Some n \<Longrightarrow> 0 < n \<and> n \<le> MAX_MESSAGE_LEN"
  unfolding message_len_def by (simp add: len_defs split: if_split_asm)

section \<open>Consecutive writes and reads at known offsets\<close>

lemma write_at:
  assumes "length pre = offset" and "offset + length bs \<le> length buf"
  shows "write_slice (pre @ drop offset buf) offset bs = Some ((pre @ bs) @ drop (offset + length bs) buf)"
  using assms by (simp add: write_slice_def add.commute)

lemma read_at:
  assumes "length pre = offset"
  shows "read_u64 (pre @ to_le_bytes 8 v @ post) offset = Some v"
    and "read_u128 (pre @ to_le_bytes 16 w @ post) offset = Some w"
    and "read_u8 (pre @ b # post) offset = Some b"
    and "read_bool (pre @ bool_to_u8 c # post) offset = Some (Inr c)"
  using assms by (auto simp: read_u64_def read_u128_def read_u8_def read_bool_def read_slice_def
      bool_byte.from_to vec_get_def)

end
