(* ===== verification/Wire_Messages.thy ===== *)
theory Wire_Messages
  imports Wire_Codec
begin

text \<open>
  Encoding and decoding of the messages (\<open>inbound.rs\<close>, \<open>outbound.rs\<close>). An encoder
  writes into a caller-owned buffer and returns the updated buffer with the number of bytes
  written; \<^const>\<open>None\<close> is a panic. A decoder returns \<^const>\<open>None\<close> for a panic and a result otherwise.
\<close>

section \<open>Inbound\<close>

definition encode_command :: "command \<Rightarrow> bytes \<Rightarrow> (bytes \<times> nat) option" where
  "encode_command cmd buf =
     (case cmd of
        NewOrder account_id order_id side price qty kind tif client_ts \<Rightarrow> do {
          buf \<leftarrow> write_u8 buf 0 TAG_NEW_ORDER;
          buf \<leftarrow> write_u64 buf 1 order_id;
          buf \<leftarrow> write_u64 buf 9 account_id;
          buf \<leftarrow> write_u8 buf 17 (side_to_u8 side);
          buf \<leftarrow> write_u64 buf 18 price;
          buf \<leftarrow> write_u64 buf 26 qty;
          buf \<leftarrow> write_u8 buf 34 (order_kind_to_u8 kind);
          buf \<leftarrow> write_u8 buf 35 (tif_to_u8 tif);
          buf \<leftarrow> write_u64 buf 36 client_ts;
          Some (buf, NEW_ORDER_LEN)
        }
      | CancelOrder account_id order_id \<Rightarrow> do {
          buf \<leftarrow> write_u8 buf 0 TAG_CANCEL_ORDER;
          buf \<leftarrow> write_u64 buf 1 order_id;
          buf \<leftarrow> write_u64 buf 9 account_id;
          Some (buf, CANCEL_ORDER_LEN)
        }
      | CancelReplace account_id order_id new_price new_qty \<Rightarrow> do {
          buf \<leftarrow> write_u8 buf 0 TAG_CANCEL_REPLACE;
          buf \<leftarrow> write_u64 buf 1 order_id;
          buf \<leftarrow> write_u64 buf 9 account_id;
          buf \<leftarrow> write_u64 buf 17 new_price;
          buf \<leftarrow> write_u64 buf 25 new_qty;
          Some (buf, CANCEL_REPLACE_LEN)
        }
      | MassCancel account_id \<Rightarrow> do {
          buf \<leftarrow> write_u8 buf 0 TAG_MASS_CANCEL;
          buf \<leftarrow> write_u64 buf 1 account_id;
          Some (buf, MASS_CANCEL_LEN)
        }
      | KillSwitch engaged \<Rightarrow> do {
          buf \<leftarrow> write_u8 buf 0 TAG_KILL_SWITCH;
          buf \<leftarrow> write_bool buf 1 engaged;
          Some (buf, KILL_SWITCH_LEN)
        }
      | Snapshot \<Rightarrow> do {
          buf \<leftarrow> write_u8 buf 0 TAG_SNAPSHOT;
          Some (buf, SNAPSHOT_LEN)
        })"

definition decode_new_order :: "bytes \<Rightarrow> command result option" where
  "decode_new_order frame = do {
     k \<leftarrow> read_u8 frame 34;
     try_then (order_kind_from_u8 k) (\<lambda>kind. do {
       price \<leftarrow> read_u64 frame 18;
       qty \<leftarrow> read_u64 frame 26;
       if qty = 0 then Some (Inl ZeroQuantity)
       else if kind = Limit \<and> price = 0 then Some (Inl ZeroPrice)
       else do {
         order_id \<leftarrow> read_u64 frame 1;
         account_id \<leftarrow> read_u64 frame 9;
         s \<leftarrow> read_u8 frame 17;
         try_then (side_from_u8 s) (\<lambda>side. do {
           t \<leftarrow> read_u8 frame 35;
           try_then (tif_from_u8 t) (\<lambda>tif. do {
             client_ts \<leftarrow> read_u64 frame 36;
             Some (Inr (NewOrder account_id order_id side price qty kind tif client_ts))
           })
         })
       }
     })
   }"

definition decode_command :: "bytes \<Rightarrow> command result option" where
  "decode_command frame =
     (case frame of
        [] \<Rightarrow> Some (Inl MalformedMessage)
      | tag # _ \<Rightarrow>
          (case message_len tag of
             None \<Rightarrow> Some (Inl UnknownMessageType)
           | Some expected_len \<Rightarrow>
               if length frame \<noteq> expected_len then Some (Inl MalformedMessage)
               else if tag = TAG_NEW_ORDER then decode_new_order frame
               else if tag = TAG_CANCEL_ORDER then do {
                 order_id \<leftarrow> read_u64 frame 1;
                 account_id \<leftarrow> read_u64 frame 9;
                 Some (Inr (CancelOrder account_id order_id))
               }
               else if tag = TAG_CANCEL_REPLACE then do {
                 new_qty \<leftarrow> read_u64 frame 25;
                 if new_qty = 0 then Some (Inl ZeroQuantity)
                 else do {
                   order_id \<leftarrow> read_u64 frame 1;
                   account_id \<leftarrow> read_u64 frame 9;
                   new_price \<leftarrow> read_u64 frame 17;
                   Some (Inr (CancelReplace account_id order_id new_price new_qty))
                 }
               }
               else if tag = TAG_MASS_CANCEL then do {
                 account_id \<leftarrow> read_u64 frame 1;
                 Some (Inr (MassCancel account_id))
               }
               else if tag = TAG_KILL_SWITCH then do {
                 e \<leftarrow> read_bool frame 1;
                 try_then e (\<lambda>engaged. Some (Inr (KillSwitch engaged)))
               }
               else if tag = TAG_SNAPSHOT then Some (Inr Snapshot)
               else None))"

subsection \<open>The layout of an encoded command\<close>

definition command_bytes :: "command \<Rightarrow> bytes" where
  "command_bytes cmd = (case cmd of
       NewOrder account_id order_id side price qty kind tif client_ts \<Rightarrow>
         [TAG_NEW_ORDER] @ to_le_bytes 8 order_id @ to_le_bytes 8 account_id @ [side_to_u8 side] @
         to_le_bytes 8 price @ to_le_bytes 8 qty @ [order_kind_to_u8 kind] @ [tif_to_u8 tif] @
         to_le_bytes 8 client_ts
     | CancelOrder account_id order_id \<Rightarrow>
         [TAG_CANCEL_ORDER] @ to_le_bytes 8 order_id @ to_le_bytes 8 account_id
     | CancelReplace account_id order_id new_price new_qty \<Rightarrow>
         [TAG_CANCEL_REPLACE] @ to_le_bytes 8 order_id @ to_le_bytes 8 account_id @
         to_le_bytes 8 new_price @ to_le_bytes 8 new_qty
     | MassCancel account_id \<Rightarrow> [TAG_MASS_CANCEL] @ to_le_bytes 8 account_id
     | KillSwitch engaged \<Rightarrow> [TAG_KILL_SWITCH, bool_to_u8 engaged]
     | Snapshot \<Rightarrow> [TAG_SNAPSHOT])"

lemma encode_command_layout:
  assumes "MAX_MESSAGE_LEN \<le> length buf"
  shows "encode_command cmd buf =
    Some (command_bytes cmd @ drop (length (command_bytes cmd)) buf, length (command_bytes cmd))"
proof -
  have w: "write_slice (pre @ drop m buf) m bs = Some ((pre @ bs) @ drop (m + length bs) buf)"
    if "length pre = m" "m + length bs \<le> 68" for pre m bs
    using that assms by (intro write_at) (simp_all add: len_defs)
  have w0: "write_slice buf 0 [t] = Some ([t] @ drop 1 buf)" for t
    using w [of "[]" 0 "[t]"] by simp
  show ?thesis
    by (cases cmd)
      (simp_all add: encode_command_def command_bytes_def write_u8_def write_u64_def write_bool_def
        w0 w len_defs del: append.simps append_assoc)
qed

text \<open>What \<open>decode_command\<close> checks: quantities nonzero, and prices of limit orders.\<close>

definition wire_ok :: "command \<Rightarrow> bool" where
  "wire_ok cmd = (case cmd of
       NewOrder account_id order_id side price qty kind tif client_ts \<Rightarrow>
         qty \<noteq> 0 \<and> (kind = Market \<or> price \<noteq> 0)
     | CancelReplace account_id order_id new_price new_qty \<Rightarrow> new_qty \<noteq> 0
     | _ \<Rightarrow> True)"

lemma length_command_bytes: "message_len (hd (command_bytes cmd)) = Some (length (command_bytes cmd))"
  by (cases cmd) (simp_all add: command_bytes_def message_len_def len_defs tag_defs)

lemma command_bytes_ne [simp]: "command_bytes cmd \<noteq> []"
  by (cases cmd) (simp_all add: command_bytes_def)

lemmas read_defs = read_u64_def read_u128_def read_u8_def read_bool_def read_slice_def vec_get_def

lemma decode_command_bytes:
  assumes "wire_ok cmd"
  shows "decode_command (command_bytes cmd) = Some (Inr cmd)"
proof -
  show ?thesis
  proof (cases cmd)
    case (NewOrder account_id order_id side price qty kind tif client_ts)
    then show ?thesis using assms
      by (auto simp: decode_command_def decode_new_order_def command_bytes_def message_len_def tag_defs len_defs
          wire_ok_def read_defs drop_append nth_append nth_Cons' kind_byte.from_to side_byte.from_to tif_byte.from_to)
  qed (use assms in \<open>auto simp: decode_command_def command_bytes_def message_len_def tag_defs len_defs
          wire_ok_def read_defs drop_append nth_append bool_byte.from_to\<close>)
qed

subsection \<open>A decoded frame is canonical\<close>

lemma try_then_Inr: "try_then r f = Some (Inr y) \<longleftrightarrow> (\<exists>x. r = Inr x \<and> f x = Some (Inr y))"
  by (cases r) auto

lemma read_u64_split: "read_u64 f off = Some v \<Longrightarrow> drop off f = to_le_bytes 8 v @ drop (off + 8) f"
proof -
  assume "read_u64 f off = Some v"
  then have "off + 8 \<le> length f" and v: "v = from_le_bytes (take 8 (drop off f))"
    by (auto simp: read_u64_def read_slice_def split: if_splits)
  then have "to_le_bytes 8 v = take 8 (drop off f)" by (simp add: v to_from_le_bytes_u64)
  then show ?thesis by (metis add.commute append_take_drop_id drop_drop)
qed

lemma read_u128_split: "read_u128 f off = Some v \<Longrightarrow> drop off f = to_le_bytes 16 v @ drop (off + 16) f"
proof -
  assume "read_u128 f off = Some v"
  then have "off + 16 \<le> length f" and v: "v = from_le_bytes (take 16 (drop off f))"
    by (auto simp: read_u128_def read_slice_def split: if_splits)
  then have "to_le_bytes 16 v = take 16 (drop off f)" by (simp add: v to_from_le_bytes_u128)
  then show ?thesis by (metis add.commute append_take_drop_id drop_drop)
qed

lemma read_u8_split: "read_u8 f off = Some b \<Longrightarrow> drop off f = b # drop (Suc off) f"
  by (auto simp: read_u8_def Cons_nth_drop_Suc)

lemma read_bool_split: "read_bool f off = Some (Inr c) \<Longrightarrow> drop off f = bool_to_u8 c # drop (Suc off) f"
  by (auto simp: read_bool_def bool_byte.from_byte_iff) (metis Cons_nth_drop_Suc)

lemmas read_splits = read_u64_split read_u128_split read_u8_split read_bool_split

lemma decode_new_order_canonical:
  assumes "decode_new_order f = Some (Inr cmd)" and "f = TAG_NEW_ORDER # g" and "length f = NEW_ORDER_LEN"
  shows "f = command_bytes cmd \<and> wire_ok cmd"
proof -
  obtain kind price qty oid account side tif ts where
    r: "read_u8 f 34 = Some (order_kind_to_u8 kind)" "read_u64 f 18 = Some price" "read_u64 f 26 = Some qty"
      "read_u64 f 1 = Some oid" "read_u64 f 9 = Some account" "read_u8 f 17 = Some (side_to_u8 side)"
      "read_u8 f 35 = Some (tif_to_u8 tif)" "read_u64 f 36 = Some ts"
    and cmd: "cmd = NewOrder account oid side price qty kind tif ts" "qty \<noteq> 0" "\<not> (kind = Limit \<and> price = 0)"
    using assms(1) unfolding decode_new_order_def
    by (auto simp: bind_eq_Some_iff try_then_Inr kind_byte.from_byte_iff side_byte.from_byte_iff
        tif_byte.from_byte_iff split: if_splits)
  have "f = TAG_NEW_ORDER # drop 1 f" using assms(2) by simp
  moreover have "drop 44 f = []" using assms(3) by (simp add: len_defs)
  ultimately have "f = command_bytes cmd"
    using r(4,5,2,3,8) [THEN read_u64_split] r(6,1,7) [THEN read_u8_split]
    by (simp add: cmd(1) command_bytes_def)
  then show ?thesis using cmd by (cases kind) (auto simp: wire_ok_def)
qed

theorem decode_command_canonical:
  assumes "decode_command f = Some (Inr cmd)"
  shows "f = command_bytes cmd \<and> wire_ok cmd"
proof -
  obtain tag g n where f: "f = tag # g" "message_len tag = Some n" "length f = n"
    using assms by (auto simp: decode_command_def split: list.splits option.splits if_splits)
  then have hd: "f = tag # drop 1 f" and fin: "drop n f = []" by auto
  note d = assms [unfolded decode_command_def f(1) list.case f(2) option.case]
  have n: "length (tag # g) = n" using f by simp
  consider "tag = TAG_NEW_ORDER" | "tag = TAG_CANCEL_ORDER" | "tag = TAG_CANCEL_REPLACE"
    | "tag = TAG_MASS_CANCEL" | "tag = TAG_KILL_SWITCH" | "tag = TAG_SNAPSHOT"
    using d n by (simp split: if_splits)
  then show ?thesis
  proof cases
    case 1
    then show ?thesis using d n f decode_new_order_canonical [of f cmd g]
      by (simp add: message_len_def)
  next
    case 2
    then obtain oid a where "read_u64 f 1 = Some oid" "read_u64 f 9 = Some a" "cmd = CancelOrder a oid"
      using d n f(1) by (auto simp: bind_eq_Some_iff tag_defs split: if_splits)
    moreover have "n = 17" using f(2) 2 by (simp add: message_len_def tag_defs len_defs)
    ultimately show ?thesis using hd fin 2 read_u64_split [of f 1 oid] read_u64_split [of f 9 a]
      by (simp add: command_bytes_def wire_ok_def)
  next
    case 3
    then obtain oid a p q where r: "read_u64 f 1 = Some oid" "read_u64 f 9 = Some a" "read_u64 f 17 = Some p"
      "read_u64 f 25 = Some q" "q \<noteq> 0" "cmd = CancelReplace a oid p q"
      using d n f(1) by (auto simp: bind_eq_Some_iff tag_defs split: if_splits)
    moreover have "n = 33" using f(2) 3 by (simp add: message_len_def tag_defs len_defs)
    ultimately show ?thesis using hd fin 3 r(1-4) [THEN read_u64_split]
      by (simp add: command_bytes_def wire_ok_def)
  next
    case 4
    then obtain a where "read_u64 f 1 = Some a" "cmd = MassCancel a"
      using d n f(1) by (auto simp: bind_eq_Some_iff tag_defs split: if_splits)
    moreover have "n = 9" using f(2) 4 by (simp add: message_len_def tag_defs len_defs)
    ultimately show ?thesis using hd fin 4 read_u64_split [of f 1 a] by (simp add: command_bytes_def wire_ok_def)
  next
    case 5
    then obtain e where "read_bool f 1 = Some (Inr e)" "cmd = KillSwitch e"
      using d n f(1) by (auto simp: bind_eq_Some_iff tag_defs try_then_Inr split: if_splits)
    moreover have "n = 2" using f(2) 5 by (simp add: message_len_def tag_defs len_defs)
    ultimately show ?thesis using hd fin 5 read_bool_split [of f 1 e]
      by (simp add: command_bytes_def wire_ok_def numeral_2_eq_2)
  next
    case 6
    then have "cmd = Snapshot" using d n by (simp add: tag_defs)
    moreover have "n = 1" using f(2) 6 by (simp add: message_len_def tag_defs len_defs)
    ultimately show ?thesis using f 6 by (simp add: command_bytes_def wire_ok_def)
  qed
qed

section \<open>Outbound\<close>

definition touch_or_zero :: "touch_side \<Rightarrow> price \<times> qty" where
  "touch_or_zero t = (case t of None \<Rightarrow> (0, 0) | Some pq \<Rightarrow> pq)"

definition encode_event :: "stream_seq \<Rightarrow> engine_seq option \<Rightarrow> event \<Rightarrow> bytes \<Rightarrow> (bytes \<times> nat) option" where
  "encode_event seq engine_seq ev buf =
     (case ev of
        Accepted account_id order_id resting_qty \<Rightarrow> do {
          buf \<leftarrow> write_u8 buf 0 TAG_ACCEPTED;
          buf \<leftarrow> write_u64 buf 1 seq;
          es \<leftarrow> engine_seq;
          buf \<leftarrow> write_u64 buf 9 es;
          buf \<leftarrow> write_u64 buf 17 account_id;
          buf \<leftarrow> write_u64 buf 25 order_id;
          buf \<leftarrow> write_u64 buf 33 resting_qty;
          Some (buf, ACCEPTED_LEN)
        }
      | Rejected account_id order_id reason \<Rightarrow> do {
          buf \<leftarrow> write_u8 buf 0 TAG_REJECTED;
          buf \<leftarrow> write_u64 buf 1 seq;
          es \<leftarrow> engine_seq;
          buf \<leftarrow> write_u64 buf 9 es;
          buf \<leftarrow> write_u64 buf 17 account_id;
          buf \<leftarrow> write_u64 buf 25 order_id;
          buf \<leftarrow> write_u8 buf 33 (reject_reason_to_u8 reason);
          Some (buf, REJECTED_LEN)
        }
      | Filled account_id order_id side price qty resting_qty state \<Rightarrow> do {
          buf \<leftarrow> write_u8 buf 0 TAG_FILLED;
          buf \<leftarrow> write_u64 buf 1 seq;
          es \<leftarrow> engine_seq;
          buf \<leftarrow> write_u64 buf 9 es;
          buf \<leftarrow> write_u64 buf 17 account_id;
          buf \<leftarrow> write_u64 buf 25 order_id;
          buf \<leftarrow> write_u8 buf 33 (side_to_u8 side);
          buf \<leftarrow> write_u64 buf 34 price;
          buf \<leftarrow> write_u64 buf 42 qty;
          buf \<leftarrow> write_u64 buf 50 resting_qty;
          buf \<leftarrow> write_u8 buf 58 (fill_state_to_u8 state);
          Some (buf, FILLED_LEN)
        }
      | Cancelled account_id order_id \<Rightarrow> do {
          buf \<leftarrow> write_u8 buf 0 TAG_CANCELLED;
          buf \<leftarrow> write_u64 buf 1 seq;
          es \<leftarrow> engine_seq;
          buf \<leftarrow> write_u64 buf 9 es;
          buf \<leftarrow> write_u64 buf 17 account_id;
          buf \<leftarrow> write_u64 buf 25 order_id;
          Some (buf, CANCELLED_LEN)
        }
      | Replaced account_id order_id new_qty priority_retained \<Rightarrow> do {
          buf \<leftarrow> write_u8 buf 0 TAG_REPLACED;
          buf \<leftarrow> write_u64 buf 1 seq;
          es \<leftarrow> engine_seq;
          buf \<leftarrow> write_u64 buf 9 es;
          buf \<leftarrow> write_u64 buf 17 account_id;
          buf \<leftarrow> write_u64 buf 25 order_id;
          buf \<leftarrow> write_u64 buf 33 new_qty;
          buf \<leftarrow> write_bool buf 41 priority_retained;
          Some (buf, REPLACED_LEN)
        }
      | Trade price qty taker_side \<Rightarrow> do {
          buf \<leftarrow> write_u8 buf 0 TAG_TRADE;
          buf \<leftarrow> write_u64 buf 1 seq;
          buf \<leftarrow> write_u64 buf 9 price;
          buf \<leftarrow> write_u64 buf 17 qty;
          buf \<leftarrow> write_u8 buf 25 (side_to_u8 taker_side);
          Some (buf, TRADE_LEN)
        }
      | BookUpdate best_bid best_ask \<Rightarrow> do {
          buf \<leftarrow> write_u8 buf 0 TAG_BOOK_UPDATE;
          buf \<leftarrow> write_u64 buf 1 seq;
          buf \<leftarrow> write_bool buf 9 (best_bid \<noteq> None);
          let (bid_price, bid_qty) = touch_or_zero best_bid;
          buf \<leftarrow> write_u64 buf 10 bid_price;
          buf \<leftarrow> write_u64 buf 18 bid_qty;
          buf \<leftarrow> write_bool buf 26 (best_ask \<noteq> None);
          let (ask_price, ask_qty) = touch_or_zero best_ask;
          buf \<leftarrow> write_u64 buf 27 ask_price;
          buf \<leftarrow> write_u64 buf 35 ask_qty;
          Some (buf, BOOK_UPDATE_LEN)
        }
      | SnapshotLevel side price qty order_count \<Rightarrow> do {
          buf \<leftarrow> write_u8 buf 0 TAG_SNAPSHOT_LEVEL;
          buf \<leftarrow> write_u64 buf 1 seq;
          buf \<leftarrow> write_u8 buf 9 (side_to_u8 side);
          buf \<leftarrow> write_u64 buf 10 price;
          buf \<leftarrow> write_u64 buf 18 qty;
          buf \<leftarrow> write_u64 buf 26 order_count;
          Some (buf, SNAPSHOT_LEVEL_LEN)
        }
      | SnapshotAccount account_id open_count notional \<Rightarrow> do {
          buf \<leftarrow> write_u8 buf 0 TAG_SNAPSHOT_ACCOUNT;
          buf \<leftarrow> write_u64 buf 1 seq;
          buf \<leftarrow> write_u64 buf 9 account_id;
          buf \<leftarrow> write_u64 buf 17 open_count;
          buf \<leftarrow> write_u128 buf 25 notional;
          Some (buf, SNAPSHOT_ACCOUNT_LEN)
        }
      | SnapshotSummary best_bid best_ask last_trade level_count account_count \<Rightarrow> do {
          buf \<leftarrow> write_u8 buf 0 TAG_SNAPSHOT_SUMMARY;
          buf \<leftarrow> write_u64 buf 1 seq;
          buf \<leftarrow> write_bool buf 9 (best_bid \<noteq> None);
          let (bid_price, bid_qty) = touch_or_zero best_bid;
          buf \<leftarrow> write_u64 buf 10 bid_price;
          buf \<leftarrow> write_u64 buf 18 bid_qty;
          buf \<leftarrow> write_bool buf 26 (best_ask \<noteq> None);
          let (ask_price, ask_qty) = touch_or_zero best_ask;
          buf \<leftarrow> write_u64 buf 27 ask_price;
          buf \<leftarrow> write_u64 buf 35 ask_qty;
          buf \<leftarrow> write_bool buf 43 (last_trade \<noteq> None);
          buf \<leftarrow> write_u64 buf 44 (case last_trade of None \<Rightarrow> 0 | Some p \<Rightarrow> p);
          buf \<leftarrow> write_u64 buf 52 level_count;
          buf \<leftarrow> write_u64 buf 60 account_count;
          Some (buf, SNAPSHOT_SUMMARY_LEN)
        })"

text \<open>\<open>read_bool(frame, off)?.then(|| (Price(..), Qty(..)))\<close>.\<close>

definition read_touch :: "bytes \<Rightarrow> nat \<Rightarrow> touch_side result option" where
  "read_touch frame offset = do {
     present \<leftarrow> read_bool frame offset;
     try_then present (\<lambda>c. if c then do {
         p \<leftarrow> read_u64 frame (offset + 1);
         q \<leftarrow> read_u64 frame (offset + 9);
         Some (Inr (Some (p, q)))
       } else Some (Inr None))
   }"

definition then_res :: "'a result option \<Rightarrow> ('a \<Rightarrow> 'b result option) \<Rightarrow> 'b result option" where
  "then_res r f = Option.bind r (\<lambda>x. try_then x f)"

definition decode_event_body :: "u8 \<Rightarrow> bytes \<Rightarrow> (engine_seq option \<times> event) result option" where
  "decode_event_body tag frame =
     (if tag = TAG_ACCEPTED then do {
        es \<leftarrow> read_u64 frame 9;
        account_id \<leftarrow> read_u64 frame 17;
        order_id \<leftarrow> read_u64 frame 25;
        resting_qty \<leftarrow> read_u64 frame 33;
        Some (Inr (Some es, Accepted account_id order_id resting_qty))
      } else if tag = TAG_REJECTED then do {
        es \<leftarrow> read_u64 frame 9;
        account_id \<leftarrow> read_u64 frame 17;
        order_id \<leftarrow> read_u64 frame 25;
        r \<leftarrow> read_u8 frame 33;
        try_then (reject_reason_from_u8 r) (\<lambda>reason. Some (Inr (Some es, Rejected account_id order_id reason)))
      } else if tag = TAG_FILLED then do {
        es \<leftarrow> read_u64 frame 9;
        account_id \<leftarrow> read_u64 frame 17;
        order_id \<leftarrow> read_u64 frame 25;
        s \<leftarrow> read_u8 frame 33;
        try_then (side_from_u8 s) (\<lambda>side. do {
          price \<leftarrow> read_u64 frame 34;
          qty \<leftarrow> read_u64 frame 42;
          resting_qty \<leftarrow> read_u64 frame 50;
          st \<leftarrow> read_u8 frame 58;
          try_then (fill_state_from_u8 st) (\<lambda>state.
            Some (Inr (Some es, Filled account_id order_id side price qty resting_qty state)))
        })
      } else if tag = TAG_CANCELLED then do {
        es \<leftarrow> read_u64 frame 9;
        account_id \<leftarrow> read_u64 frame 17;
        order_id \<leftarrow> read_u64 frame 25;
        Some (Inr (Some es, Cancelled account_id order_id))
      } else if tag = TAG_REPLACED then do {
        es \<leftarrow> read_u64 frame 9;
        account_id \<leftarrow> read_u64 frame 17;
        order_id \<leftarrow> read_u64 frame 25;
        new_qty \<leftarrow> read_u64 frame 33;
        then_res (read_bool frame 41) (\<lambda>kept. Some (Inr (Some es, Replaced account_id order_id new_qty kept)))
      } else if tag = TAG_TRADE then do {
        price \<leftarrow> read_u64 frame 9;
        qty \<leftarrow> read_u64 frame 17;
        s \<leftarrow> read_u8 frame 25;
        try_then (side_from_u8 s) (\<lambda>taker_side. Some (Inr (None, Trade price qty taker_side)))
      } else if tag = TAG_BOOK_UPDATE then
        then_res (read_touch frame 9) (\<lambda>bid. then_res (read_touch frame 26) (\<lambda>ask.
          Some (Inr (None, BookUpdate bid ask))))
      else if tag = TAG_SNAPSHOT_LEVEL then do {
        s \<leftarrow> read_u8 frame 9;
        try_then (side_from_u8 s) (\<lambda>side. do {
          price \<leftarrow> read_u64 frame 10;
          qty \<leftarrow> read_u64 frame 18;
          order_count \<leftarrow> read_u64 frame 26;
          Some (Inr (None, SnapshotLevel side price qty order_count))
        })
      } else if tag = TAG_SNAPSHOT_ACCOUNT then do {
        account_id \<leftarrow> read_u64 frame 9;
        open_count \<leftarrow> read_u64 frame 17;
        notional \<leftarrow> read_u128 frame 25;
        Some (Inr (None, SnapshotAccount account_id open_count notional))
      } else if tag = TAG_SNAPSHOT_SUMMARY then
        then_res (read_touch frame 9) (\<lambda>bid. then_res (read_touch frame 26) (\<lambda>ask.
          then_res (read_bool frame 43) (\<lambda>traded. do {
            last_trade \<leftarrow> (if traded then map_option Some (read_u64 frame 44) else Some None);
            level_count \<leftarrow> read_u64 frame 52;
            account_count \<leftarrow> read_u64 frame 60;
            Some (Inr (None, SnapshotSummary bid ask last_trade level_count account_count))
          })))
      else None)"

definition decode_event :: "bytes \<Rightarrow> (stream_seq \<times> engine_seq option \<times> event) result option" where
  "decode_event frame =
     (case frame of
        [] \<Rightarrow> Some (Inl MalformedMessage)
      | tag # _ \<Rightarrow>
          (case message_len tag of
             None \<Rightarrow> Some (Inl UnknownMessageType)
           | Some expected_len \<Rightarrow>
               if length frame \<noteq> expected_len then Some (Inl MalformedMessage)
               else do {
                 seq \<leftarrow> read_u64 frame 1;
                 then_res (decode_event_body tag frame) (\<lambda>(engine_seq, ev). Some (Inr (seq, engine_seq, ev)))
               }))"

subsection \<open>Round trip\<close>

text \<open>The five execution reports carry the engine sequence number.\<close>

fun is_report :: "event \<Rightarrow> bool" where
  "is_report (Accepted _ _ _) = True"
| "is_report (Rejected _ _ _) = True"
| "is_report (Filled _ _ _ _ _ _ _) = True"
| "is_report (Cancelled _ _) = True"
| "is_report (Replaced _ _ _ _) = True"
| "is_report _ = False"

fun touch_bytes :: "touch_side \<Rightarrow> bytes" where
  "touch_bytes t = [bool_to_u8 (t \<noteq> None)] @ to_le_bytes 8 (fst (touch_or_zero t)) @ to_le_bytes 8 (snd (touch_or_zero t))"

definition event_bytes :: "stream_seq \<Rightarrow> engine_seq \<Rightarrow> event \<Rightarrow> bytes" where
  "event_bytes seq es ev = (case ev of
       Accepted a oid q \<Rightarrow> [TAG_ACCEPTED] @ to_le_bytes 8 seq @ to_le_bytes 8 es @ to_le_bytes 8 a @
         to_le_bytes 8 oid @ to_le_bytes 8 q
     | Rejected a oid r \<Rightarrow> [TAG_REJECTED] @ to_le_bytes 8 seq @ to_le_bytes 8 es @ to_le_bytes 8 a @
         to_le_bytes 8 oid @ [reject_reason_to_u8 r]
     | Filled a oid sd p q left st \<Rightarrow> [TAG_FILLED] @ to_le_bytes 8 seq @ to_le_bytes 8 es @ to_le_bytes 8 a @
         to_le_bytes 8 oid @ [side_to_u8 sd] @ to_le_bytes 8 p @ to_le_bytes 8 q @ to_le_bytes 8 left @
         [fill_state_to_u8 st]
     | Cancelled a oid \<Rightarrow> [TAG_CANCELLED] @ to_le_bytes 8 seq @ to_le_bytes 8 es @ to_le_bytes 8 a @
         to_le_bytes 8 oid
     | Replaced a oid q kept \<Rightarrow> [TAG_REPLACED] @ to_le_bytes 8 seq @ to_le_bytes 8 es @ to_le_bytes 8 a @
         to_le_bytes 8 oid @ to_le_bytes 8 q @ [bool_to_u8 kept]
     | Trade p q sd \<Rightarrow> [TAG_TRADE] @ to_le_bytes 8 seq @ to_le_bytes 8 p @ to_le_bytes 8 q @ [side_to_u8 sd]
     | BookUpdate bid ask \<Rightarrow> [TAG_BOOK_UPDATE] @ to_le_bytes 8 seq @ touch_bytes bid @ touch_bytes ask
     | SnapshotLevel sd p q n \<Rightarrow> [TAG_SNAPSHOT_LEVEL] @ to_le_bytes 8 seq @ [side_to_u8 sd] @ to_le_bytes 8 p @
         to_le_bytes 8 q @ to_le_bytes 8 n
     | SnapshotAccount a n notional \<Rightarrow> [TAG_SNAPSHOT_ACCOUNT] @ to_le_bytes 8 seq @ to_le_bytes 8 a @
         to_le_bytes 8 n @ to_le_bytes 16 notional
     | SnapshotSummary bid ask lt n m \<Rightarrow> [TAG_SNAPSHOT_SUMMARY] @ to_le_bytes 8 seq @ touch_bytes bid @
         touch_bytes ask @ [bool_to_u8 (lt \<noteq> None)] @ to_le_bytes 8 (case lt of None \<Rightarrow> 0 | Some p \<Rightarrow> p) @
         to_le_bytes 8 n @ to_le_bytes 8 m)"

lemma encode_event_layout:
  assumes "MAX_MESSAGE_LEN \<le> length buf"
  shows "encode_event seq (Some es) ev buf =
    Some (event_bytes seq es ev @ drop (length (event_bytes seq es ev)) buf, length (event_bytes seq es ev))"
    and "\<not> is_report ev \<Longrightarrow> encode_event seq None ev buf = encode_event seq (Some es) ev buf"
    and "is_report ev \<Longrightarrow> encode_event seq None ev buf = None"
proof -
  have w: "write_slice (pre @ drop m buf) m bs = Some ((pre @ bs) @ drop (m + length bs) buf)"
    if "length pre = m" "m + length bs \<le> 68" for pre m bs
    using that assms by (intro write_at) (simp_all add: len_defs)
  have w0: "write_slice buf 0 [t] = Some ([t] @ drop 1 buf)" for t
    using w [of "[]" 0 "[t]"] by simp
  show "encode_event seq (Some es) ev buf =
    Some (event_bytes seq es ev @ drop (length (event_bytes seq es ev)) buf, length (event_bytes seq es ev))"
    by (cases ev)
      (simp_all add: encode_event_def event_bytes_def write_u8_def write_u64_def write_u128_def write_bool_def
        case_prod_unfold Let_def w0 w len_defs del: append.simps append_assoc)
  show "encode_event seq None ev buf = encode_event seq (Some es) ev buf" if "\<not> is_report ev"
    using that by (cases ev) (simp_all add: encode_event_def)
  show "encode_event seq None ev buf = None" if "is_report ev"
    using that by (cases ev) (simp_all add: encode_event_def bind_eq_None_conv)
qed

lemma length_event_bytes: "message_len (hd (event_bytes seq es ev)) = Some (length (event_bytes seq es ev))"
  by (cases ev) (simp_all add: event_bytes_def message_len_def len_defs tag_defs)

lemma event_bytes_ne [simp]: "event_bytes seq es ev \<noteq> []"
  by (cases ev) (simp_all add: event_bytes_def)

lemma event_bytes_seq: "read_u64 (event_bytes seq es ev) 1 = Some seq"
  by (cases ev) (simp_all add: event_bytes_def read_defs)

lemma length_touch_bytes [simp]: "length (touch_bytes t) = 17"
  by simp

lemma read_touch_at:
  assumes "length pre = off"
  shows "read_touch (pre @ touch_bytes t @ post) off = Some (Inr t)"
  using assms
  by (cases t) (auto simp: read_touch_def touch_or_zero_def read_defs bool_byte.from_to drop_append nth_append)

lemma decode_touches:
  assumes "length pre = 9"
  shows "read_touch (pre @ touch_bytes bid @ touch_bytes ask @ post) 9 = Some (Inr bid)"
    and "read_touch (pre @ touch_bytes bid @ touch_bytes ask @ post) 26 = Some (Inr ask)"
  using assms read_touch_at [of pre 9 bid "touch_bytes ask @ post"]
    read_touch_at [of "pre @ touch_bytes bid" 26 ask post] by (simp_all del: touch_bytes.simps)

lemma decode_body_touches:
  "decode_event_body TAG_BOOK_UPDATE (event_bytes seq es (BookUpdate bid ask)) =
     Some (Inr (None, BookUpdate bid ask))"
  "decode_event_body TAG_SNAPSHOT_SUMMARY (event_bytes seq es (SnapshotSummary bid ask lt n m)) =
     Some (Inr (None, SnapshotSummary bid ask lt n m))"
proof -
  let ?pre = "\<lambda>t. [t] @ to_le_bytes 8 seq"
  show "decode_event_body TAG_BOOK_UPDATE (event_bytes seq es (BookUpdate bid ask)) =
     Some (Inr (None, BookUpdate bid ask))"
    using decode_touches [of "?pre TAG_BOOK_UPDATE" bid ask "[]"]
    by (simp add: decode_event_body_def event_bytes_def then_res_def tag_defs del: touch_bytes.simps)
  let ?post = "[bool_to_u8 (lt \<noteq> None)] @ to_le_bytes 8 (case lt of None \<Rightarrow> 0 | Some p \<Rightarrow> p) @
      to_le_bytes 8 n @ to_le_bytes 8 m"
  let ?f = "event_bytes seq es (SnapshotSummary bid ask lt n m)"
  have touches: "read_touch ?f 9 = Some (Inr bid)" "read_touch ?f 26 = Some (Inr ask)"
    using decode_touches [of "?pre TAG_SNAPSHOT_SUMMARY" bid ask ?post]
    by (simp_all add: event_bytes_def del: touch_bytes.simps)
  have rest: "read_bool ?f 43 = Some (Inr (lt \<noteq> None))" "read_u64 ?f 52 = Some n" "read_u64 ?f 60 = Some m"
    "lt = Some p \<Longrightarrow> read_u64 ?f 44 = Some p" for p
    by (auto simp: event_bytes_def read_defs bool_byte.from_to drop_append nth_append)
  show "decode_event_body TAG_SNAPSHOT_SUMMARY ?f = Some (Inr (None, SnapshotSummary bid ask lt n m))"
    using touches rest by (cases lt) (simp_all add: decode_event_body_def then_res_def tag_defs)
qed

lemma decode_body_bytes:
  "decode_event_body (hd (event_bytes seq es ev)) (event_bytes seq es ev) =
     Some (Inr (if is_report ev then Some es else None, ev))"
proof (cases ev)
  case (BookUpdate bid ask)
  then show ?thesis using decode_body_touches(1) by (simp add: event_bytes_def)
next
  case (SnapshotSummary bid ask lt n m)
  then show ?thesis using decode_body_touches(2) by (simp add: event_bytes_def)
qed (auto simp: decode_event_body_def event_bytes_def then_res_def tag_defs read_defs drop_append nth_append
    reason_byte.from_to side_byte.from_to state_byte.from_to bool_byte.from_to)

theorem decode_event_bytes:
  "decode_event (event_bytes seq es ev) = Some (Inr (seq, (if is_report ev then Some es else None), ev))"
proof -
  obtain tag bs where t: "event_bytes seq es ev = tag # bs" by (cases "event_bytes seq es ev") auto
  then show ?thesis
    using length_event_bytes [of seq es ev] event_bytes_seq [of seq es ev] decode_body_bytes [of seq es ev]
    by (simp add: decode_event_def then_res_def)
qed

section \<open>Frames of the wrong direction\<close>

text \<open>
  \<open>message_len\<close> knows every tag of both directions, so a well-sized frame of the other
  direction passes the length check and reaches the \<open>unreachable!\<close> arm.
\<close>

definition inbound_tag :: "u8 \<Rightarrow> bool" where
  "inbound_tag t \<longleftrightarrow> t \<in> {TAG_NEW_ORDER, TAG_CANCEL_ORDER, TAG_CANCEL_REPLACE, TAG_MASS_CANCEL,
     TAG_KILL_SWITCH, TAG_SNAPSHOT}"

lemma try_then_None: "try_then r f = None \<longleftrightarrow> (\<exists>x. r = Inr x \<and> f x = None)"
  by (cases r) auto

lemma read_u64_None [simp]: "read_u64 f off = None \<longleftrightarrow> length f < off + 8"
  by (simp add: read_u64_def read_slice_def not_le)

lemma read_byte_None [simp]:
  "read_u8 f off = None \<longleftrightarrow> length f \<le> off" "read_bool f off = None \<longleftrightarrow> length f \<le> off"
  by (simp_all add: read_u8_def read_bool_def vec_get_def)

lemma decode_new_order_total: "length f = NEW_ORDER_LEN \<Longrightarrow> decode_new_order f \<noteq> None"
proof -
  assume len: "length f = NEW_ORDER_LEN"
  have u: "\<exists>v. read_u64 f n = Some v" if "n + 8 \<le> 44" for n
    using that len read_u64_None [of f n] by (cases "read_u64 f n") (auto simp: len_defs)
  have b: "\<exists>v. read_u8 f n = Some v" if "n < 44" for n
    using that len read_byte_None(1) [of f n] by (cases "read_u8 f n") (auto simp: len_defs)
  obtain k s t where "read_u8 f 34 = Some k" "read_u8 f 17 = Some s" "read_u8 f 35 = Some t"
    using b [of 34] b [of 17] b [of 35] by auto
  moreover obtain p q oid a ts where "read_u64 f 18 = Some p" "read_u64 f 26 = Some q"
    "read_u64 f 1 = Some oid" "read_u64 f 9 = Some a" "read_u64 f 36 = Some ts"
    using u [of 18] u [of 26] u [of 1] u [of 9] u [of 36] by auto
  ultimately show ?thesis by (simp add: decode_new_order_def try_then_def split: sum.split)
qed

lemma decode_inbound_total:
  assumes "message_len tag = Some (length (tag # g))" and "inbound_tag tag"
  shows "decode_command (tag # g) \<noteq> None"
proof -
  consider "tag = TAG_NEW_ORDER" "length (tag # g) = NEW_ORDER_LEN" | "tag = TAG_CANCEL_ORDER" "length g = 16"
    | "tag = TAG_CANCEL_REPLACE" "length g = 32" | "tag = TAG_MASS_CANCEL" "length g = 8"
    | "tag = TAG_KILL_SWITCH" "length g = 1" | "tag = TAG_SNAPSHOT"
    using assms by (auto simp: inbound_tag_def message_len_def tag_defs len_defs)
  then show ?thesis
  proof cases
    case 1
    then show ?thesis using decode_new_order_total [of "tag # g"] assms(1) by (simp add: decode_command_def)
  next
    case 3
    have u: "\<exists>v. read_u64 (tag # g) n = Some v" if "n \<le> 25" for n
      using that 3(2) read_u64_None [of "tag # g" n] by (cases "read_u64 (tag # g) n") auto
    obtain p q oid a where "read_u64 (tag # g) 17 = Some p" "read_u64 (tag # g) 25 = Some q"
      "read_u64 (tag # g) 1 = Some oid" "read_u64 (tag # g) 9 = Some a"
      using u [of 17] u [of 25] u [of 1] u [of 9] by auto
    then show ?thesis using 3 assms(1) by (simp add: decode_command_def tag_defs)
  qed (use assms(1) in \<open>auto simp: decode_command_def tag_defs bind_eq_None_conv try_then_None\<close>)
qed

theorem decode_command_None:
  "decode_command f = None \<longleftrightarrow> f \<noteq> [] \<and> message_len (hd f) = Some (length f) \<and> \<not> inbound_tag (hd f)"
proof (cases f)
  case Nil
  then show ?thesis by (simp add: decode_command_def)
next
  case (Cons tag g)
  show ?thesis
  proof (cases "message_len tag = Some (length (tag # g))")
    case False
    then have "decode_command (tag # g) \<noteq> None"
      by (cases "message_len tag") (auto simp: decode_command_def)
    then show ?thesis using False Cons by simp
  next
    case True
    moreover have "decode_command (tag # g) = None" if "\<not> inbound_tag tag"
      using that True by (auto simp: decode_command_def inbound_tag_def)
    ultimately show ?thesis using decode_inbound_total [OF True] Cons by auto
  qed
qed

end
