(* ===== verification/Framing.thy ===== *)
theory Framing
  imports Wire_Messages
begin

text \<open>
  The framer (\<open>framer.rs\<close>): it accumulates bytes and extracts whole frames by the length
  their tag implies. Frames come out in order and do not depend on how the stream was cut into
  reads; the interface \<open>framed_codec\<close> states what a message codec must promise so that a
  stream of encoded messages decodes to the messages.
\<close>

record framer =
  framer_buf :: bytes

definition framer_new :: framer where
  "framer_new = \<lparr>framer_buf = []\<rparr>"

definition feed :: "framer \<Rightarrow> bytes \<Rightarrow> framer" where
  "feed f bs = f\<lparr>framer_buf := framer_buf f @ bs\<rparr>"

function drain_loop :: "bytes \<Rightarrow> nat \<Rightarrow> bytes list \<times> nat \<times> unit result" where
  "drain_loop buf consumed =
     (case drop consumed buf of
        [] \<Rightarrow> ([], consumed, Inr ())
      | tag # _ \<Rightarrow>
          (case message_len tag of
             None \<Rightarrow> ([], consumed, Inl UnknownMessageType)
           | Some len \<Rightarrow>
               if length (drop consumed buf) < len then ([], consumed, Inr ())
               else (let (fs, c, r) = drain_loop buf (consumed + len)
                     in (take len (drop consumed buf) # fs, c, r))))"
  by pat_completeness auto
termination
proof (relation "measure (\<lambda>(buf, consumed). length buf - consumed)")
  fix buf consumed tag rest and len
  assume "drop consumed buf = tag # rest" and "message_len tag = Some len"
  then have "consumed < length buf" and "0 < len" by (auto dest: message_len_bounds intro: ccontr)
  then show "((buf, consumed + len), buf, consumed) \<in> measure (\<lambda>(buf, consumed). length buf - consumed)" by simp
qed simp

declare drain_loop.simps [simp del]

definition drain_frames :: "framer \<Rightarrow> framer \<times> bytes list \<times> unit result" where
  "drain_frames f =
     (let (frames, consumed, r) = drain_loop (framer_buf f) 0
      in (f\<lparr>framer_buf := drop consumed (framer_buf f)\<rparr>, frames, r))"

definition pending :: "framer \<Rightarrow> nat" where
  "pending f = length (framer_buf f)"

section \<open>The frames of a byte stream\<close>

definition frame_ok :: "bytes \<Rightarrow> bool" where
  "frame_ok f \<longleftrightarrow> f \<noteq> [] \<and> message_len (hd f) = Some (length f)"

function split_frames :: "bytes \<Rightarrow> bytes list \<times> bytes \<times> unit result" where
  "split_frames bs =
     (case bs of
        [] \<Rightarrow> ([], [], Inr ())
      | tag # _ \<Rightarrow>
          (case message_len tag of
             None \<Rightarrow> ([], bs, Inl UnknownMessageType)
           | Some len \<Rightarrow>
               if length bs < len then ([], bs, Inr ())
               else (let (fs, rest, r) = split_frames (drop len bs) in (take len bs # fs, rest, r))))"
  by pat_completeness auto
termination
  by (relation "measure length") (auto dest: message_len_bounds)

declare split_frames.simps [simp del]

text \<open>The four cases of a stream, and the induction they give.\<close>

lemma split_frames_eqs:
  "split_frames [] = ([], [], Inr ())"
  "message_len tag = None \<Longrightarrow> split_frames (tag # g) = ([], tag # g, Inl UnknownMessageType)"
  "message_len tag = Some len \<Longrightarrow> Suc (length g) < len \<Longrightarrow> split_frames (tag # g) = ([], tag # g, Inr ())"
  "message_len tag = Some len \<Longrightarrow> len \<le> Suc (length g) \<Longrightarrow> split_frames (tag # g) =
     (case split_frames (drop len (tag # g)) of (fs, rest, r) \<Rightarrow> (take len (tag # g) # fs, rest, r))"
  by (simp_all add: split_frames.simps [of "[]"] split_frames.simps [of "tag # g"])

lemma split_induct [case_names empty unknown partial step]:
  assumes "P []" and "\<And>tag g. message_len tag = None \<Longrightarrow> P (tag # g)"
    and "\<And>tag g len. message_len tag = Some len \<Longrightarrow> Suc (length g) < len \<Longrightarrow> P (tag # g)"
    and "\<And>tag g len. message_len tag = Some len \<Longrightarrow> len \<le> Suc (length g) \<Longrightarrow>
      P (drop len (tag # g)) \<Longrightarrow> P (tag # g)"
  shows "P bs"
proof (induction bs rule: split_frames.induct)
  case (1 bs)
  show ?case
  proof (cases bs)
    case Nil
    then show ?thesis using assms(1) by simp
  next
    case (Cons tag g)
    show ?thesis
    proof (cases "message_len tag")
      case None
      then show ?thesis using assms(2) Cons by simp
    next
      case (Some len)
      then show ?thesis using assms(3,4) [of tag len g] 1 [OF Cons Some] Cons
        by (cases "Suc (length g) < len") auto
    qed
  qed
qed

lemma drain_loop_split:
  assumes "split_frames (drop c buf) = (fs, rest, r)"
  shows "\<exists>c'. drain_loop buf c = (fs, c', r) \<and> drop c' buf = rest"
  using assms
proof (induction "drop c buf" arbitrary: c fs rule: split_induct)
  case (step tag g len)
  obtain fs' where fs': "split_frames (drop len (tag # g)) = (fs', rest, r)" "fs = take len (tag # g) # fs'"
    using step(5) step(1,2) by (auto simp: split_frames_eqs(4) simp flip: step(4) split: prod.splits)
  have d: "drop len (tag # g) = drop (c + len) buf" by (simp add: step(4) add.commute)
  obtain c' where "drain_loop buf (c + len) = (fs', c', r)" "drop c' buf = rest"
    using step(3) [OF d] fs'(1) d by auto
  then show ?case using step(1,2) fs'(2) by (simp add: drain_loop.simps [of buf c] flip: step(4))
next
  case (empty c)
  have "drop c buf = []" by (rule sym) (rule empty(1))
  then show ?case using empty(2) by (auto simp: split_frames_eqs drain_loop.simps [of buf c])
next
  case (unknown tag g c)
  have d: "drop c buf = tag # g" by (rule sym) (rule unknown(2))
  then have "drain_loop buf c = ([], c, Inl UnknownMessageType)" using unknown(1) by (simp add: drain_loop.simps [of buf c])
  then show ?case using unknown(1,3) d by (simp add: split_frames_eqs(2))
next
  case (partial tag g len c)
  have d: "drop c buf = tag # g" by (rule sym) (rule partial(3))
  then have "length (drop c buf) = Suc (length g)" by simp
  then have "drain_loop buf c = ([], c, Inr ())" using d partial(1,2) by (simp add: drain_loop.simps [of buf c] del: length_drop)
  then show ?case using partial(1,2,4) d by (simp add: split_frames_eqs(3))
qed

theorem drain_frames_split:
  "drain_frames f = (case split_frames (framer_buf f) of (fs, rest, r) \<Rightarrow> (f\<lparr>framer_buf := rest\<rparr>, fs, r))"
proof -
  obtain fs rest r where s: "split_frames (framer_buf f) = (fs, rest, r)" by (metis prod.exhaust)
  then show ?thesis using drain_loop_split [of 0 "framer_buf f" fs rest r] by (auto simp: drain_frames_def)
qed

text \<open>Frames do not depend on where the stream is cut.\<close>

lemma cut_append:
  assumes "len \<le> Suc (length g)"
  shows "drop len (tag # g @ xs) = drop len (tag # g) @ xs" "take len (tag # g @ xs) = take len (tag # g)"
  using assms drop_append [of len "tag # g" xs] take_append [of len "tag # g" xs] by simp_all

lemma split_frames_append:
  assumes "split_frames bs = (fs, rest, Inr ())" and "split_frames (rest @ xs) = (fs', rest', r)"
  shows "split_frames (bs @ xs) = (fs @ fs', rest', r)"
  using assms(1)
proof (induction bs arbitrary: fs rule: split_induct)
  case (step tag g len)
  then obtain fs1 where "split_frames (drop len (tag # g)) = (fs1, rest, Inr ())" "fs = take len (tag # g) # fs1"
    by (auto simp: split_frames_eqs(4) split: prod.splits)
  then show ?case using step(1-3) cut_append [OF step(2)] by (simp add: split_frames_eqs(4) [of tag len "g @ xs"])
qed (use assms(2) in \<open>auto simp: split_frames_eqs\<close>)

lemma split_frames_rest: "split_frames bs = (fs, rest, r) \<Longrightarrow> split_frames rest = ([], rest, r)"
proof (induction bs arbitrary: fs rule: split_induct)
  case (step tag g len)
  then show ?case by (auto simp: split_frames_eqs(4) split: prod.splits)
qed (auto simp: split_frames_eqs)

lemma split_frames_error:
  "split_frames bs = (fs, rest, Inl e) \<Longrightarrow> split_frames (bs @ xs) = (fs, rest @ xs, Inl e)"
proof (induction bs arbitrary: fs rule: split_induct)
  case (step tag g len)
  then obtain fs1 where "split_frames (drop len (tag # g)) = (fs1, rest, Inl e)" "fs = take len (tag # g) # fs1"
    by (auto simp: split_frames_eqs(4) split: prod.splits)
  then show ?case using step(1-3) cut_append [OF step(2)] by (simp add: split_frames_eqs(4) [of tag len "g @ xs"])
qed (auto simp: split_frames_eqs)

text \<open>Reading a stream in chunks: feed each chunk, extract what is complete, stop at an error.\<close>

fun pump :: "framer \<Rightarrow> bytes list \<Rightarrow> framer \<times> bytes list \<times> unit result" where
  "pump f [] = (f, [], Inr ())"
| "pump f (chunk # chunks) =
     (case drain_frames (feed f chunk) of
        (f', fs, Inl e) \<Rightarrow> (f', fs, Inl e)
      | (f', fs, Inr _) \<Rightarrow> (case pump f' chunks of (f'', fs', r) \<Rightarrow> (f'', fs @ fs', r)))"

theorem pump_split:
  assumes "split_frames (framer_buf f) = ([], framer_buf f, Inr ())"
    and "split_frames (framer_buf f @ concat chunks) = (fs, rest, Inr ())"
  shows "pump f chunks = (f\<lparr>framer_buf := rest\<rparr>, fs, Inr ())"
  using assms
proof (induction chunks arbitrary: f fs)
  case Nil
  then show ?case by simp
next
  case (Cons chunk chunks)
  obtain fs1 rest1 r1 where s1: "split_frames (framer_buf f @ chunk) = (fs1, rest1, r1)" by (metis prod.exhaust)
  have ok: "r1 = Inr ()"
  proof (cases r1)
    case (Inl e)
    then show ?thesis using split_frames_error [of "framer_buf f @ chunk" fs1 rest1 e "concat chunks"] s1 Cons.prems(2)
      by simp
  qed simp
  obtain fs2 rest2 r2 where s2: "split_frames (rest1 @ concat chunks) = (fs2, rest2, r2)" by (metis prod.exhaust)
  have "fs = fs1 @ fs2" "rest2 = rest" "r2 = Inr ()"
    using split_frames_append [OF s1 [unfolded ok] s2] Cons.prems(2) by simp_all
  moreover have "pump (f\<lparr>framer_buf := rest1\<rparr>) chunks = (f\<lparr>framer_buf := rest\<rparr>, fs2, Inr ())"
    using Cons.IH [of "f\<lparr>framer_buf := rest1\<rparr>" fs2] split_frames_rest [OF s1] s2 calculation ok by simp
  ultimately show ?case using s1 ok by (simp add: drain_frames_split feed_def)
qed

text \<open>The frames and the outcome are those of the whole stream; on an error some bytes may be unread.\<close>

lemma pump_frames:
  assumes "split_frames (framer_buf f) = ([], framer_buf f, Inr ())"
    and "split_frames (framer_buf f @ concat chunks) = (fs, rest, r)"
  shows "snd (pump f chunks) = (fs, r)"
  using assms
proof (induction chunks arbitrary: f fs)
  case (Cons chunk chunks)
  obtain fs1 rest1 r1 where s1: "split_frames (framer_buf f @ chunk) = (fs1, rest1, r1)" by (metis prod.exhaust)
  show ?case
  proof (cases r1)
    case (Inl e)
    then show ?thesis
      using split_frames_error [of "framer_buf f @ chunk" fs1 rest1 e "concat chunks"] s1 Cons.prems(2)
      by (auto simp: drain_frames_split feed_def)
  next
    case (Inr u)
    obtain fs2 rest2 r2 where s2: "split_frames (rest1 @ concat chunks) = (fs2, rest2, r2)" by (metis prod.exhaust)
    have "fs = fs1 @ fs2" "r2 = r" "rest2 = rest"
      using split_frames_append [of "framer_buf f @ chunk" fs1 rest1 "concat chunks"] s1 s2 Inr Cons.prems(2) by simp_all
    moreover have "snd (pump (f\<lparr>framer_buf := rest1\<rparr>) chunks) = (fs2, r2)"
      using Cons.IH [of "f\<lparr>framer_buf := rest1\<rparr>" fs2] split_frames_rest [OF s1] s2 Inr calculation by simp
    ultimately show ?thesis using s1 Inr
      by (cases "pump (f\<lparr>framer_buf := rest1\<rparr>) chunks") (simp add: drain_frames_split feed_def)
  qed
qed simp

lemma split_frames_cut:
  "split_frames bs = (fs, rest, r) \<Longrightarrow> bs = concat fs @ rest \<and> (\<forall>f \<in> set fs. frame_ok f)"
proof (induction bs arbitrary: fs rule: split_induct)
  case (step tag g len)
  then obtain fs1 where s: "split_frames (drop len (tag # g)) = (fs1, rest, r)" "fs = take len (tag # g) # fs1"
    by (auto simp: split_frames_eqs(4) split: prod.splits)
  moreover have "frame_ok (take len (tag # g))"
    using step(1,2) message_len_bounds [OF step(1)] by (cases len) (auto simp: frame_ok_def)
  ultimately show ?case using step(3) [OF s(1)] by (auto, metis append.assoc append_take_drop_id)
qed (auto simp: split_frames_eqs)

lemma split_frames_rest_short:
  "split_frames bs = (fs, rest, Inr ()) \<Longrightarrow> length rest < MAX_MESSAGE_LEN"
proof (induction bs arbitrary: fs rule: split_induct)
  case (step tag g len)
  then show ?case by (auto simp: split_frames_eqs(4) split: prod.splits)
next
  case (partial tag g len)
  then show ?case using message_len_bounds [OF partial(1)] by (auto simp: split_frames_eqs)
qed (auto simp: split_frames_eqs len_defs)

section \<open>Streams of encoded messages\<close>

lemma split_frames_concat:
  assumes "\<forall>f \<in> set fs. frame_ok f"
  shows "split_frames (concat fs) = (fs, [], Inr ())"
  using assms
proof (induction fs)
  case Nil
  then show ?case by (simp add: split_frames_eqs)
next
  case (Cons f fs)
  then obtain tag g where "f = tag # g" "message_len tag = Some (length f)"
    by (cases f) (auto simp: frame_ok_def)
  then show ?case using Cons split_frames_eqs(4) [of tag "length f" "g @ concat fs"] by simp
qed

locale framed_codec =
  fixes enc :: "'m \<Rightarrow> bytes" and dec :: "bytes \<Rightarrow> 'm result option" and ok :: "'m \<Rightarrow> bool"
  assumes enc_framed: "frame_ok (enc m)"
    and dec_enc: "ok m \<Longrightarrow> dec (enc m) = Some (Inr m)"
begin

text \<open>However the stream is cut, the frames extracted decode to the messages sent, in order.\<close>

lemma stream_roundtrip:
  assumes "concat chunks = concat (map enc ms)" and "\<forall>m \<in> set ms. ok m"
  shows "\<exists>f fs. pump framer_new chunks = (f, fs, Inr ()) \<and> pending f = 0 \<and>
    map dec fs = map (\<lambda>m. Some (Inr m)) ms"
proof -
  have "split_frames (concat chunks) = (map enc ms, [], Inr ())"
    unfolding assms(1) by (rule split_frames_concat) (simp add: enc_framed)
  then have "pump framer_new chunks = (framer_new\<lparr>framer_buf := []\<rparr>, map enc ms, Inr ())"
    by (intro pump_split) (simp_all add: framer_new_def split_frames_eqs)
  then show ?thesis using assms(2) dec_enc by (simp add: pending_def)
qed

end

interpretation command_codec: framed_codec command_bytes decode_command wire_ok
  by unfold_locales (simp_all add: frame_ok_def length_command_bytes decode_command_bytes)

interpretation event_codec: framed_codec "\<lambda>(seq, es, ev). event_bytes seq (case es of None \<Rightarrow> 0 | Some e \<Rightarrow> e) ev"
  decode_event "\<lambda>(seq, es, ev). (es \<noteq> None) = is_report ev"
  by unfold_locales (auto simp: frame_ok_def length_event_bytes decode_event_bytes split: option.splits)

end
