(* ===== verification/Wire_Props.thy ===== *)
theory Wire_Props
  imports Framing
begin

text \<open>
  The properties of the wire layer: round trips of commands and events through a caller's
  buffer, canonicity of what decodes, framing that does not depend on how the stream is read,
  and the one way a decoder can panic.
\<close>

text \<open>Command round trip: \<open>encode_command\<close> into any buffer of at least
  \<open>MAX_MESSAGE_LEN\<close> bytes never panics, leaves the bytes after the message alone, and
  \<open>decode_command\<close> of the bytes written gives the command back.\<close>

theorem command_roundtrip:
  assumes "wire_ok cmd" and "MAX_MESSAGE_LEN \<le> length buf"
  shows "\<exists>buf' n. encode_command cmd buf = Some (buf', n) \<and> length buf' = length buf \<and>
    drop n buf' = drop n buf \<and> decode_command (take n buf') = Some (Inr cmd)"
proof -
  have "length (command_bytes cmd) \<le> length buf"
    using message_len_bounds [OF length_command_bytes, of cmd] assms(2) by simp
  then show ?thesis using encode_command_layout [OF assms(2), of cmd] decode_command_bytes [OF assms(1)] by simp
qed

theorem command_roundtrip_witness:
  "\<exists>buf' n. encode_command (NewOrder 7 9 Buy 100 5 Limit Gtc 3) (replicate 80 0) = Some (buf', n) \<and>
    length buf' = length (replicate 80 (0 :: u8)) \<and> drop n buf' = drop n (replicate 80 0) \<and>
    decode_command (take n buf') = Some (Inr (NewOrder 7 9 Buy 100 5 Limit Gtc 3))"
  by (rule command_roundtrip) (simp_all add: wire_ok_def len_defs)

text \<open>C31. What decodes is validated and canonical: a frame \<open>decode_command\<close> accepts is, byte
  for byte, the encoding of the command it returns, whose quantities are nonzero and whose limit
  price is nonzero.\<close>

theorem decode_command_accepts:
  assumes "decode_command frame = Some (Inr cmd)" and "MAX_MESSAGE_LEN \<le> length buf"
  shows "wire_ok cmd \<and> encode_command cmd buf = Some (frame @ drop (length frame) buf, length frame)"
  using decode_command_canonical [OF assms(1)] encode_command_layout [OF assms(2), of cmd] by simp

theorem decode_command_accepts_witness:
  "wire_ok (CancelOrder 2 1) \<and>
    encode_command (CancelOrder 2 1) (replicate 68 0) =
      Some ([2, 1, 0, 0, 0, 0, 0, 0, 0, 2, 0, 0, 0, 0, 0, 0, 0] @ replicate 51 0, 17)"
proof -
  have "decode_command [2, 1, 0, 0, 0, 0, 0, 0, 0, 2, 0, 0, 0, 0, 0, 0, 0] = Some (Inr (CancelOrder 2 1))"
    by code_simp
  from decode_command_accepts [OF this, of "replicate 68 0"] show ?thesis by (simp add: len_defs)
qed

text \<open>C32. Event round trip: \<open>encode_event\<close> never panics when an execution report comes with
  its engine sequence number, and \<open>decode_event\<close> of the bytes written gives back the stream
  sequence number, the engine sequence number of a report, and the event.\<close>

theorem event_roundtrip:
  assumes "(es \<noteq> None) = is_report ev" and "MAX_MESSAGE_LEN \<le> length buf"
  shows "\<exists>buf' n. encode_event seq es ev buf = Some (buf', n) \<and> length buf' = length buf \<and>
    drop n buf' = drop n buf \<and> decode_event (take n buf') = Some (Inr (seq, es, ev))"
proof -
  let ?e = "case es of None \<Rightarrow> 0 | Some e \<Rightarrow> e"
  have "length (event_bytes seq ?e ev) \<le> length buf"
    using message_len_bounds [OF length_event_bytes, of seq ?e ev] assms(2) by simp
  moreover have "encode_event seq es ev buf = encode_event seq (Some ?e) ev buf"
    using encode_event_layout(2) [OF assms(2), of ev seq ?e] assms(1) by (cases es) auto
  moreover have "(if is_report ev then Some ?e else None) = es" using assms(1) by (cases es) auto
  ultimately show ?thesis
    using encode_event_layout(1) [OF assms(2), of seq ?e ev] decode_event_bytes [of seq ?e ev] by simp
qed

theorem event_roundtrip_witness:
  "\<exists>buf' n. encode_event 4 (Some 9) (Filled 1 2 Sell 100 5 0 State_Filled) (replicate 68 0) = Some (buf', n) \<and>
    length buf' = length (replicate 68 (0 :: u8)) \<and> drop n buf' = drop n (replicate 68 0) \<and>
    decode_event (take n buf') = Some (Inr (4, Some 9, Filled 1 2 Sell 100 5 0 State_Filled))"
  by (rule event_roundtrip) (simp_all add: len_defs)

text \<open>C33. The framer is independent of how the stream is cut: the frames it hands out and the
  outcome (including the unknown-tag error) are a function of the bytes alone, whatever the
  sizes of the reads.\<close>

theorem framing_chunk_independent:
  assumes "concat chunks = concat chunks'"
  shows "snd (pump framer_new chunks) = snd (pump framer_new chunks')"
proof -
  obtain fs rest r where s: "split_frames (concat chunks) = (fs, rest, r)" by (metis prod.exhaust)
  have e: "split_frames (framer_buf framer_new) = ([], framer_buf framer_new, Inr ())"
    by (simp add: framer_new_def split_frames_eqs)
  show ?thesis
    using pump_frames [OF e, of chunks fs rest r] pump_frames [OF e, of chunks' fs rest r] s assms
    by (simp add: framer_new_def)
qed

theorem framing_chunk_independent_witness:
  "snd (pump framer_new [[4, 9, 0, 0], [0, 0, 0, 0, 0, 6], [99]]) =
   snd (pump framer_new [[4, 9, 0, 0, 0, 0, 0, 0, 0, 6, 99]])"
  by (rule framing_chunk_independent) simp

text \<open>One drain loses nothing and keeps the buffer small: the buffer is the frames handed
  out followed by what is retained, every frame has exactly the length its tag implies, and on
  success fewer than \<open>MAX_MESSAGE_LEN\<close> bytes stay pending.\<close>

theorem drain_frames_bounded:
  assumes "drain_frames f = (f', fs, r)"
  shows "framer_buf f = concat fs @ framer_buf f' \<and> (\<forall>x \<in> set fs. frame_ok x) \<and>
    (r = Inr () \<longrightarrow> pending f' < MAX_MESSAGE_LEN)"
proof -
  obtain gs rest q where s: "split_frames (framer_buf f) = (gs, rest, q)" by (metis prod.exhaust)
  with assms have "f' = f\<lparr>framer_buf := rest\<rparr>" "fs = gs" "r = q" by (simp_all add: drain_frames_split)
  then show ?thesis using split_frames_cut [OF s] split_frames_rest_short [of "framer_buf f" gs rest] s
    by (auto simp: pending_def)
qed

theorem drain_frames_bounded_witness:
  "\<exists>f' fs r. drain_frames (feed framer_new [6, 5, 1, 2, 7]) = (f', fs, r) \<and>
    framer_buf (feed framer_new [6, 5, 1, 2, 7]) = concat fs @ framer_buf f' \<and> (\<forall>x \<in> set fs. frame_ok x) \<and>
    (r = Inr () \<longrightarrow> pending f' < MAX_MESSAGE_LEN)"
proof -
  have "drain_frames (feed framer_new [6, 5, 1, 2, 7]) = (\<lparr>framer_buf = [2, 7]\<rparr>, [[6], [5, 1]], Inr ())"
    by code_simp
  from this drain_frames_bounded [OF this] show ?thesis by blast
qed

text \<open>C34. End to end over a stream: a sequence of validated commands, encoded back to back and
  delivered in any chunks, is extracted and decoded to the same commands in the same order,
  with nothing left in the buffer.\<close>

theorem command_stream_roundtrip:
  assumes "concat chunks = concat (map command_bytes cmds)" and "\<forall>c \<in> set cmds. wire_ok c"
  shows "\<exists>f fs. pump framer_new chunks = (f, fs, Inr ()) \<and> pending f = 0 \<and>
    map decode_command fs = map (\<lambda>c. Some (Inr c)) cmds"
  using assms by (rule command_codec.stream_roundtrip)

theorem command_stream_roundtrip_witness:
  "\<exists>f fs. pump framer_new [[4, 9, 0, 0], [0, 0, 0, 0, 0, 6, 5], [1]] = (f, fs, Inr ()) \<and> pending f = 0 \<and>
    map decode_command fs = map (\<lambda>c. Some (Inr c)) [MassCancel 9, Snapshot, KillSwitch True]"
  by (rule command_stream_roundtrip) code_simp+

text \<open>The events of the outbound stream, encoded back to back and delivered in any chunks,
  are decoded to the same sequence numbers and events in the same order.\<close>

theorem event_stream_roundtrip:
  assumes "concat chunks = concat (map (\<lambda>(seq, es, ev). event_bytes seq (case es of None \<Rightarrow> 0 | Some e \<Rightarrow> e) ev) ms)"
    and "\<forall>(seq, es, ev) \<in> set ms. (es \<noteq> None) = is_report ev"
  shows "\<exists>f fs. pump framer_new chunks = (f, fs, Inr ()) \<and> pending f = 0 \<and>
    map decode_event fs = map (\<lambda>m. Some (Inr m)) ms"
  using event_codec.stream_roundtrip [of chunks ms] assms by auto

theorem event_stream_roundtrip_witness:
  "\<exists>f fs. pump framer_new [event_bytes 1 3 (Cancelled 1 2), event_bytes 2 0 (Trade 100 5 Buy)] = (f, fs, Inr ()) \<and>
    pending f = 0 \<and> map decode_event fs = map (\<lambda>m. Some (Inr m)) [(1, Some 3, Cancelled 1 2), (2, None, Trade 100 5 Buy)]"
  by (rule event_stream_roundtrip) simp_all

text \<open>C35. When \<open>decode_command\<close> panics: exactly on a frame that has the length of its tag and
  an outbound tag, which reaches \<open>unreachable!\<close>; on every other input it returns a
  command or a reason.\<close>

theorem decode_command_panics_iff:
  "decode_command frame = None \<longleftrightarrow>
     frame \<noteq> [] \<and> message_len (hd frame) = Some (length frame) \<and> \<not> inbound_tag (hd frame)"
  by (rule decode_command_None)

end
