(* ===== verification/Risk.thy ===== *)
theory Risk
  imports Engine
begin

text \<open>
  The risk gate (\<open>risk/src/lib.rs\<close>): kill switch, per-account limits and price band,
  checked before every command reaches the engine, and \<open>process_command\<close>, the path the
  matching thread and replay share. A check returns the updated risk state and the rejection,
  if any. Sums and products are \<open>u128\<close> or \<open>u64\<close> words and wrap as in the release profile.
\<close>

record risk_config =
  max_open_orders :: nat
  max_notional :: u128
  price_band_pct :: u64

definition risk_config_default :: risk_config where
  "risk_config_default = \<lparr>max_open_orders = MAX_OPEN_ORDERS, max_notional = MAX_NOTIONAL_TICKS,
     price_band_pct = PRICE_BAND_PCT\<rparr>"

record risk_state =
  config :: risk_config
  kill_switch_engaged :: bool

definition risk_state_new :: "risk_config \<Rightarrow> risk_state" where
  "risk_state_new cfg = \<lparr>config = cfg, kill_switch_engaged = False\<rparr>"

definition kill_switch_check :: "risk_state \<Rightarrow> command \<Rightarrow> book \<Rightarrow> event option" where
  "kill_switch_check rs cmd b =
     (case cmd of
        NewOrder account oid side price qty kind tif ts \<Rightarrow> Some (Rejected account oid KillSwitchActive)
      | CancelOrder account oid \<Rightarrow> None
      | MassCancel account \<Rightarrow> None
      | CancelReplace account oid new_price new_qty \<Rightarrow>
          (case resting_order_snapshot b account oid of
             None \<Rightarrow> None
           | Some (old_price, old_qty) \<Rightarrow>
               (let is_new_commitment = (new_price \<noteq> old_price \<or> old_qty < new_qty)
                in if is_new_commitment then Some (Rejected account oid KillSwitchActive) else None))
      | KillSwitch engaged \<Rightarrow> None
      | Snapshot \<Rightarrow> None)"

definition market_reference_price :: "risk_state \<Rightarrow> side \<Rightarrow> book \<Rightarrow> price option" where
  "market_reference_price rs side b =
     (case book_last_trade b of
        Some l \<Rightarrow> Some l
      | None \<Rightarrow> (case side of Buy \<Rightarrow> best_ask b | Sell \<Rightarrow> best_bid b))"

definition price_band_reference :: "risk_state \<Rightarrow> book \<Rightarrow> price option" where
  "price_band_reference rs b =
     (case book_last_trade b of
        Some l \<Rightarrow> Some l
      | None \<Rightarrow>
          (case (best_bid b, best_ask b) of
             (Some bid, Some ask) \<Rightarrow> Some ((bid + ask) div 2)
           | _ \<Rightarrow> None))"

definition can_rest :: "order_kind \<Rightarrow> tif \<Rightarrow> bool" where
  "can_rest kind tif \<longleftrightarrow> kind = Limit \<and> (tif = Gtc \<or> tif = PostOnly)"

definition band_violated :: "u64 \<Rightarrow> price \<Rightarrow> price \<Rightarrow> bool" where
  "band_violated pct r p =
     (let band = ucast pct :: u128;
          reference = ucast r :: u128;
          lower = reference * (100 - band) div 100;
          upper = reference * (100 + band) div 100;
          p = ucast p :: u128
      in p < lower \<or> upper < p)"

definition new_order_check ::
  "risk_state \<Rightarrow> account_id \<Rightarrow> order_id \<Rightarrow> side \<Rightarrow> price \<Rightarrow> qty \<Rightarrow> order_kind \<Rightarrow> tif \<Rightarrow> book \<Rightarrow> event option" where
  "new_order_check rs account oid side price qty kind tif b =
     (if can_rest kind tif \<and> max_open_orders (config rs) \<le> account_open_order_count b account
      then Some (Rejected account oid MaxOpenOrders)
      else case (case kind of Limit \<Rightarrow> Some price | Market \<Rightarrow> market_reference_price rs side b) of
        None \<Rightarrow> Some (Rejected account oid NotFullyFillable)
      | Some effective_price \<Rightarrow>
          (let incoming_notional = notional_of effective_price qty;
               total_notional = account_notional b account + incoming_notional
           in if max_notional (config rs) < total_notional then Some (Rejected account oid MaxNotional)
              else if kind = Limit \<and>
                (case price_band_reference rs b of
                   None \<Rightarrow> False
                 | Some reference \<Rightarrow> band_violated (price_band_pct (config rs)) reference price)
              then Some (Rejected account oid PriceBandViolation)
              else None))"

definition pre_apply_check :: "risk_state \<Rightarrow> command \<Rightarrow> book \<Rightarrow> risk_state \<times> event option" where
  "pre_apply_check rs cmd b =
     (case cmd of
        KillSwitch engaged \<Rightarrow> (rs\<lparr>kill_switch_engaged := engaged\<rparr>, None)
      | _ \<Rightarrow>
          (case (if kill_switch_engaged rs then kill_switch_check rs cmd b else None) of
             Some reject \<Rightarrow> (rs, Some reject)
           | None \<Rightarrow>
               (case cmd of
                  NewOrder account oid side price qty kind tif ts \<Rightarrow>
                    (rs, new_order_check rs account oid side price qty kind tif b)
                | _ \<Rightarrow> (rs, None))))"

definition process_command ::
  "engine \<Rightarrow> risk_state \<Rightarrow> command \<Rightarrow> engine_seq \<Rightarrow>
     ((engine \<times> risk_state \<times> engine_seq) \<times> (engine_seq \<times> event) list) option" where
  "process_command engine rs cmd engine_seq =
     (let seq = engine_seq + 1;
          (rs', rejected) = pre_apply_check rs cmd (engine_book engine)
      in case rejected of
           Some r \<Rightarrow> Some ((engine, rs', seq), [(seq, r)])
         | None \<Rightarrow> do {
             (engine', out) \<leftarrow> engine_apply engine cmd;
             Some ((engine', rs', seq), map (Pair seq) out)
           })"

section \<open>What the gate decides\<close>

lemma pre_apply_check_config [simp]: "config (fst (pre_apply_check rs cmd b)) = config rs"
  by (cases cmd) (auto simp: pre_apply_check_def split: option.split)

lemma pre_apply_check_switch:
  "kill_switch_engaged (fst (pre_apply_check rs cmd b)) =
     (case cmd of KillSwitch engaged \<Rightarrow> engaged | _ \<Rightarrow> kill_switch_engaged rs)"
  by (cases cmd) (auto simp: pre_apply_check_def split: option.split)

text \<open>The engine sequence number advances by one and stamps every event, whatever happens.\<close>

lemma process_commandE:
  assumes "process_command e rs cmd seq = Some ((e', rs', seq'), out)"
  obtains (rejected) r where "pre_apply_check rs cmd (engine_book e) = (rs', Some r)" and "e' = e"
      and "seq' = seq + 1" and "out = [(seq', r)]"
    | (applied) evs where "pre_apply_check rs cmd (engine_book e) = (rs', None)"
      and "engine_apply e cmd = Some (e', evs)" and "seq' = seq + 1" and "out = map (Pair seq') evs"
  using assms by (auto simp: process_command_def Let_def bind_eq_Some_iff split: prod.splits option.splits)

lemma pre_apply_reject:
  assumes "pre_apply_check rs cmd b = (rs', Some r)"
  shows "rs' = rs \<and> (\<exists>a oid reason. r = Rejected a oid reason)"
  using assms
  by (cases cmd) (auto simp: pre_apply_check_def kill_switch_check_def new_order_check_def Let_def
      split: option.splits if_splits)

text \<open>What a \<open>NewOrder\<close> that passes the gate satisfies.\<close>

lemma new_order_passes:
  assumes "pre_apply_check rs (NewOrder a oid side p q kind tif ts) b = (rs', None)"
  shows "\<not> kill_switch_engaged rs"
    and "can_rest kind tif \<Longrightarrow> account_open_order_count b a < max_open_orders (config rs)"
    and "kind = Limit \<Longrightarrow> account_notional b a + notional_of p q \<le> max_notional (config rs)"
    and "kind = Limit \<Longrightarrow> price_band_reference rs b = Some r \<Longrightarrow> \<not> band_violated (price_band_pct (config rs)) r p"
    and "kind = Market \<Longrightarrow> \<exists>m. market_reference_price rs side b = Some m \<and>
      account_notional b a + notional_of m q \<le> max_notional (config rs)"
  using assms
  by (auto simp: pre_apply_check_def kill_switch_check_def new_order_check_def Let_def not_le not_less
      split: option.splits if_splits)

subsection \<open>The price band over the integers\<close>

lemma unat_div_100:
  assumes "unat (x :: u64) * k < 2 ^ 128"
  shows "unat ((ucast x :: u128) * of_nat k div 100) = unat x * k div 100"
proof -
  have "(ucast x :: u128) * of_nat k = of_nat (unat x * k)" by simp
  then have "unat ((ucast x :: u128) * of_nat k) = unat x * k"
    using assms by (simp only: unsigned_of_nat) (simp add: take_bit_nat_eq_self)
  then show ?thesis by (simp add: unat_div)
qed

lemma band_violated_nat:
  assumes "unat pct \<le> 100"
  shows "band_violated pct r p \<longleftrightarrow>
    unat p < unat r * (100 - unat pct) div 100 \<or> unat r * (100 + unat pct) div 100 < unat p"
proof -
  have r: "unat r < 2 ^ 64" using unsigned_less [of r, where ?'a = nat] by simp
  then have b: "unat r * k < 2 ^ 128" if "k \<le> 200" for k
  proof -
    have "unat r * k \<le> 2 ^ 64 * 200" using r that by (intro mult_le_mono) auto
    then show ?thesis by (rule le_less_trans) simp
  qed
  have k: "(100 :: u128) - ucast pct = of_nat (100 - unat pct)" "(100 :: u128) + ucast pct = of_nat (100 + unat pct)"
    using assms by (simp_all add: of_nat_diff)
  have "unat ((ucast p :: u128)) = unat p" by (rule unat_ucast_u128)
  then show ?thesis
    unfolding band_violated_def Let_def k word_less_nat_alt
    using unat_div_100 [OF b, of "100 - unat pct"] unat_div_100 [OF b, of "100 + unat pct"] assms by simp
qed

end
