(* ===== verification/Risk_Inv.thy ===== *)
theory Risk_Inv
  imports Risk
begin

text \<open>
  What the risk gate maintains. The load of an account is a sum over its resting orders of a
  weight that does not grow when an order shrinks; the interface \<open>order_weight\<close> bounds what
  each command can add to a load, once, and is provided by the constant weight (open orders)
  and by price times quantity (notional, over the natural numbers).
\<close>

section \<open>Loads\<close>

definition load_of :: "(rorder \<Rightarrow> nat) \<Rightarrow> account_id \<Rightarrow> rorder list \<Rightarrow> nat" where
  "load_of w x rs = (\<Sum>r\<leftarrow>filter (\<lambda>r. r_account r = x) rs. w r)"

definition a_load :: "(rorder \<Rightarrow> nat) \<Rightarrow> abook \<Rightarrow> account_id \<Rightarrow> nat" where
  "a_load w ab x = load_of w x (a_orders ab Buy) + load_of w x (a_orders ab Sell)"

lemma load_of_simps [simp]:
  "load_of w x [] = 0"
  "load_of w x (r # rs) = (if r_account r = x then w r else 0) + load_of w x rs"
  "load_of w x (rs @ rs') = load_of w x rs + load_of w x rs'"
  by (simp_all add: load_of_def)

lemma load_of_rest: "load_of w x (a_rest sd r rs) = (if r_account r = x then w r else 0) + load_of w x rs"
proof -
  let ?P = "\<lambda>y. ahead sd (r_price y) (r_price r)"
  have "load_of w x rs = load_of w x (takeWhile ?P rs) + load_of w x (dropWhile ?P rs)"
    by (metis load_of_simps(3) takeWhile_dropWhile_id)
  then show ?thesis by (simp add: a_rest_def)
qed

lemma load_of_filter: "load_of w x (filter P rs) \<le> load_of w x rs"
  by (induction rs) auto

lemma a_load_side: "a_load w ab x = load_of w x (a_orders ab sd) + load_of w x (a_orders ab (opposite sd))"
  by (cases sd) (simp_all add: a_load_def)

lemma a_load_mono:
  assumes "\<And>sd. load_of w x (a_orders ab' sd) \<le> load_of w x (a_orders ab sd)"
  shows "a_load w ab' x \<le> a_load w ab x"
  using assms by (simp add: a_load_def add_mono)

lemma a_load_add: "a_load w (a_add sd r ab) x = (if r_account r = x then w r else 0) + a_load w ab x"
  by (simp add: a_load_side [of _ _ _ sd] a_add_def load_of_rest)

lemma a_load_drop: "a_load w (a_drop k ab) x \<le> a_load w ab x"
  by (rule a_load_mono) (simp add: a_drop_def drop_key_def load_of_filter)

text \<open>Dropping an order that is there takes its weight away.\<close>

lemma load_of_drop_key:
  assumes "r \<in> set rs" and "rkey r = k"
  shows "load_of w (r_account r) (drop_key k rs) + w r \<le> load_of w (r_account r) rs"
  using assms
proof (induction rs)
  case (Cons y ys)
  show ?case
  proof (cases "y = r")
    case True
    then show ?thesis using Cons.prems load_of_filter [of w "r_account r" _ ys] by (auto simp: drop_key_def)
  next
    case False
    then show ?thesis using Cons by (auto simp: drop_key_def)
  qed
qed simp

lemma a_find_mem: "a_find ab k = Some (sd, r) \<Longrightarrow> r \<in> set (a_orders ab sd) \<and> rkey r = k"
  by (auto simp: a_find_def find_Some_iff split: option.splits)

lemma a_load_drop_found:
  assumes "a_find ab k = Some (sd, r)"
  shows "a_load w (a_drop k ab) (r_account r) + w r \<le> a_load w ab (r_account r)"
proof -
  have "load_of w (r_account r) (drop_key k (a_orders ab sd)) + w r \<le> load_of w (r_account r) (a_orders ab sd)"
    using load_of_drop_key [of r "a_orders ab sd" k w] a_find_mem [OF assms] by simp
  moreover have "load_of w (r_account r) (drop_key k (a_orders ab (opposite sd))) \<le>
      load_of w (r_account r) (a_orders ab (opposite sd))"
    by (simp add: drop_key_def load_of_filter)
  ultimately show ?thesis by (simp add: a_load_side [of _ _ _ sd] a_drop_def)
qed

text \<open>No two resting orders share a key.\<close>

definition a_unique :: "abook \<Rightarrow> bool" where
  "a_unique ab \<longleftrightarrow> (\<forall>sd sd' r r'. r \<in> set (a_orders ab sd) \<longrightarrow> r' \<in> set (a_orders ab sd') \<longrightarrow> rkey r = rkey r' \<longrightarrow> r = r')"

text \<open>What a command can add to the load of account \<open>x\<close>.\<close>

definition added :: "(rorder \<Rightarrow> nat) \<Rightarrow> abook \<Rightarrow> command \<Rightarrow> account_id \<Rightarrow> nat" where
  "added w ab cmd x =
     (case cmd of
        NewOrder a oid side p q kind tif ts \<Rightarrow>
          (if x = a \<and> can_rest kind tif then w (order_for a oid p q) else 0)
      | CancelReplace a oid p q \<Rightarrow>
          (case a_find ab (a, oid) of None \<Rightarrow> 0
           | Some (sd, r) \<Rightarrow> if x = a then w (order_for a oid p q) - w r else 0)
      | _ \<Rightarrow> 0)"

lemma refines_abs: "refines b c r \<Longrightarrow> c = Some (b', out) \<Longrightarrow> abs_book b' = fst r \<and> out = snd r"
  by (auto simp: refines_def)

lemma a_unique_abs: "book_inv b \<Longrightarrow> a_unique (abs_book b)"
  unfolding a_unique_def abs_book_simps using resting_keys_disjoint [of b "queue_of b"]
  by (metis book_inv_def)

locale order_weight =
  fixes w :: "rorder \<Rightarrow> nat"
  assumes weight_mono: "q \<le> r_qty r \<Longrightarrow> w (r\<lparr>r_qty := q\<rparr>) \<le> w r"
begin

lemma priority_load:
  assumes "in_priority a side limit rs rs' rem' fs"
  shows "load_of w x rs' \<le> load_of w x rs"
proof -
  obtain pre post where rs: "rs = pre @ post" and
    "rs' = post \<or> (\<exists>r tl f. post = r # tl \<and> f < r_qty r \<and> rs' = r\<lparr>r_qty := r_qty r - f\<rparr> # tl)"
    using assms unfolding in_priority_def by blast
  then consider "rs' = post" | r rs1 f where "post = r # rs1" "f < r_qty r" "rs' = r\<lparr>r_qty := r_qty r - f\<rparr> # rs1"
    by blast
  then show ?thesis
  proof cases
    case 1
    then show ?thesis by (simp add: rs)
  next
    case 2
    have "r_qty r - f \<le> r_qty r" using 2(2) by (simp add: word_sub_le)
    from weight_mono [OF this] show ?thesis by (simp add: rs 2 trans_le_add2)
  qed
qed

lemma match_load:
  assumes "a_match ab a oid side limit q = ((ab', rem), out)"
  shows "a_load w ab' x \<le> a_load w ab x" and "rem \<le> q"
proof -
  obtain rs lt where sw: "a_sweep a oid side limit (a_orders ab (opposite side)) (a_last ab) q = ((rs, lt, rem), out)"
    and "a_orders ab' = (a_orders ab)(opposite side := rs)"
    using assms by (auto simp: a_match_def split: prod.splits)
  then show "a_load w ab' x \<le> a_load w ab x"
    using priority_load [OF a_sweep_priority [OF sw], of x] by (simp add: a_load_side [of _ _ _ side])
  show "rem \<le> q" using a_sweep_conserves [OF sw] by (simp add: word_le_nat_alt)
qed

lemma match_rest_load:
  assumes "a_match ab a oid side p q = ((ab', rem), out)"
  shows "a_load w (if rem = 0 then ab' else a_add side (order_for a oid p rem) ab') x \<le>
    a_load w ab x + (if x = a then w (order_for a oid p q) else 0)"
proof -
  have "w (order_for a oid p rem) \<le> w (order_for a oid p q)"
    using weight_mono [of rem "order_for a oid p q"] match_load(2) [OF assms] by (simp add: order_for_def)
  then show ?thesis using match_load(1) [OF assms, of x] by (auto simp: a_load_add order_for_def)
qed

lemma submit_load:
  "a_load w (fst (a_submit_gtc ab a oid side p q)) x \<le>
     a_load w ab x + (if x = a then w (order_for a oid p q) else 0)"
  "a_load w (fst (a_submit_postonly ab a oid side p q)) x \<le>
     a_load w ab x + (if x = a then w (order_for a oid p q) else 0)"
  "a_load w (fst (a_submit_ioc ab a oid side p q)) x \<le> a_load w ab x"
  "a_load w (fst (a_submit_fok ab a oid side p q)) x \<le> a_load w ab x"
proof -
  show "a_load w (fst (a_submit_gtc ab a oid side p q)) x \<le>
     a_load w ab x + (if x = a then w (order_for a oid p q) else 0)"
    using match_rest_load [of ab a oid side p q _ _ _ x] by (auto simp: a_submit_gtc_def split: prod.splits)
  obtain rs cross out where st: "a_stp a side p (a_orders ab (opposite side)) = ((rs, cross), out)"
    by (metis prod.exhaust)
  let ?ab = "ab\<lparr>a_orders := (a_orders ab)(opposite side := rs)\<rparr>"
  have "a_load w ?ab x \<le> a_load w ab x"
    using a_stp_shrinks [OF st] by (auto simp: a_load_side [of _ _ _ side])
  then show "a_load w (fst (a_submit_postonly ab a oid side p q)) x \<le>
     a_load w ab x + (if x = a then w (order_for a oid p q) else 0)"
    by (auto simp: a_submit_postonly_def st Let_def a_load_add order_for_def)
  show "a_load w (fst (a_submit_ioc ab a oid side p q)) x \<le> a_load w ab x"
    "a_load w (fst (a_submit_fok ab a oid side p q)) x \<le> a_load w ab x"
    using match_load(1) [of ab a oid side p q _ _ _ x]
    by (auto simp: a_submit_ioc_def a_submit_fok_def split: prod.splits)
qed

text \<open>An amend replaces the weight of the order by the weight of its new terms.\<close>

lemma set_qty_load:
  assumes "\<forall>r \<in> set rs. rkey r = k \<longrightarrow> q \<le> r_qty r"
  shows "load_of w x (set_qty k q rs) \<le> load_of w x rs"
  using assms weight_mono by (induction rs) (auto simp: set_qty_def intro: add_mono)

lemma modify_load:
  assumes un: "a_unique ab"
  shows "a_load w (fst (a_modify ab a oid p q)) x \<le> a_load w ab x +
    (case a_find ab (a, oid) of None \<Rightarrow> 0
      | Some (sd, r) \<Rightarrow> if x = a then w (order_for a oid p q) - w r else 0)"
proof (cases "q = 0 \<or> a_find ab (a, oid) = None")
  case True
  then show ?thesis by (auto simp: a_modify_def)
next
  case False
  then obtain sd r where f: "a_find ab (a, oid) = Some (sd, r)" by auto
  have r: "r \<in> set (a_orders ab sd)" "rkey r = (a, oid)" "r_account r = a"
    using a_find_mem [OF f] by (auto simp: rkey_def)
  show ?thesis
  proof (cases "p = r_price r \<and> q \<le> r_qty r")
    case True
    have "\<forall>r' \<in> set (a_orders ab s). rkey r' = (a, oid) \<longrightarrow> q \<le> r_qty r'" for s
      using un r(1,2) True unfolding a_unique_def by metis
    then have "a_load w (ab\<lparr>a_orders := \<lambda>s. set_qty (a, oid) q (a_orders ab s)\<rparr>) x \<le> a_load w ab x"
      by (intro a_load_mono) (simp add: set_qty_load)
    then show ?thesis using False f True by (simp add: a_modify_def)
  next
    case reprice: False
    obtain ab' rem out where m: "a_match (a_drop (a, oid) ab) a oid sd p q = ((ab', rem), out)"
      by (metis prod.exhaust)
    then show ?thesis
      using match_rest_load [OF m, of x] a_load_drop [of w "(a, oid)" ab x] a_load_drop_found [OF f, of w] r(3)
        False f reprice by (cases "x = a") (auto simp: a_modify_def)
  qed
qed

lemma cancel_load: "a_load w (fst (a_cancel ab a oid)) x \<le> a_load w ab x"
  using a_load_drop by (simp add: a_cancel_def)

lemma dispatch_load:
  assumes inv: "book_inv b" and room: "book_room b" and ok: "command_ok cmd"
    and d: "dispatch b cmd = Some (b', out)"
  shows "a_load w (abs_book b') x \<le> a_load w (abs_book b) x + added w (abs_book b) cmd x"
proof (cases cmd)
  case (NewOrder a oid side p q kind tif ts)
  note d' = d [unfolded NewOrder dispatch_def command.case]
  have q: "q \<noteq> 0" using ok NewOrder by (simp add: command_ok_def)
  show ?thesis
  proof (cases kind)
    case Market
    then show ?thesis using refines_abs [OF submit_market_refines [OF inv], of a oid side q] d' submit_load(3)
      by (simp add: trans_le_add1)
  next
    case Limit
    show ?thesis
    proof (cases tif)
      case Gtc
      then show ?thesis using refines_abs [OF submit_gtc_refines [OF inv room], of a oid side p q] d' submit_load(1)
          Limit NewOrder by (simp add: added_def can_rest_def)
    next
      case Ioc
      then show ?thesis using refines_abs [OF submit_ioc_refines [OF inv], of a oid side p q] d' submit_load(3) Limit
        by (simp add: trans_le_add1)
    next
      case Fok
      then show ?thesis using refines_abs [OF submit_fok_refines [OF inv], of a oid side p q] d' submit_load(4) Limit
        by (simp add: trans_le_add1)
    next
      case PostOnly
      then show ?thesis using refines_abs [OF submit_postonly_refines [OF inv room q], of a oid side p] d' submit_load(2)
          Limit NewOrder by (simp add: added_def can_rest_def)
    qed
  qed
next
  case (CancelOrder a oid)
  then show ?thesis using refines_abs [OF cancel_refines [OF inv], of a oid] d cancel_load
    by (simp add: dispatch_def trans_le_add1)
next
  case (CancelReplace a oid p q)
  then show ?thesis using refines_abs [OF modify_refines [OF inv], of a oid p q] d modify_load [OF a_unique_abs [OF inv]]
    by (simp add: dispatch_def added_def)
next
  case (MassCancel a)
  then have "resting b' = (\<lambda>sd. filter (\<lambda>r. r_account r \<noteq> a) (resting b sd))"
    using mass_cancel_spec [OF inv, of a] d by (auto simp: dispatch_def)
  then have "a_load w (abs_book b') x \<le> a_load w (abs_book b) x" by (intro a_load_mono) (simp add: load_of_filter)
  then show ?thesis by simp
next
  case (KillSwitch g)
  then show ?thesis using d by (simp add: dispatch_def)
next
  case Snapshot
  then show ?thesis using d by (auto simp: dispatch_def bind_eq_Some_iff)
qed

end

section \<open>Open orders and notional\<close>

definition unit_weight :: "rorder \<Rightarrow> nat" where
  "unit_weight r = 1"

definition notional_weight :: "rorder \<Rightarrow> nat" where
  "notional_weight r = unat (r_price r) * unat (r_qty r)"

interpretation cw: order_weight unit_weight
  by unfold_locales (simp add: unit_weight_def)

interpretation nw: order_weight notional_weight
  by unfold_locales (simp add: notional_weight_def word_le_nat_alt)

text \<open>The notional of an account's resting orders, over the natural numbers.\<close>

definition exposure :: "book \<Rightarrow> account_id \<Rightarrow> nat" where
  "exposure b x = a_load notional_weight (abs_book b) x"

lemma count_load: "book_inv b \<Longrightarrow> account_open_order_count b x = a_load unit_weight (abs_book b) x"
  by (simp add: account_totals(1) orders_of_def a_load_def load_of_def unit_weight_def sum_list_triv)

lemma notional_of_nat: "notional_of p q = of_nat (unat p * unat q)"
  by (simp add: notional_of_def)

lemma notional_exposure: "book_inv b \<Longrightarrow> account_notional b x = of_nat (exposure b x)"
proof -
  have "notional_sum rs = of_nat (\<Sum>r\<leftarrow>rs. notional_weight r)" for rs
    by (induction rs) (simp_all add: notional_sum_def notional_of_nat notional_weight_def)
  then show "book_inv b \<Longrightarrow> ?thesis"
    by (simp add: account_totals(2) orders_of_def exposure_def a_load_def load_of_def)
qed

section \<open>The invariant of the risk-checked engine\<close>

type_synonym risk_sys = "engine \<times> risk_state \<times> engine_seq"

fun process_step :: "risk_sys \<Rightarrow> command \<Rightarrow> (risk_sys \<times> (engine_seq \<times> event) list) option" where
  "process_step (e, rs, seq) cmd = process_command e rs cmd seq"

fun risk_inv :: "risk_config \<Rightarrow> risk_sys \<Rightarrow> bool" where
  "risk_inv cfg (e, rs, seq) \<longleftrightarrow> engine_inv e \<and> config rs = cfg \<and>
     (\<forall>x. account_open_order_count (engine_book e) x \<le> max_open_orders cfg)"

fun sys_slots :: "risk_sys \<Rightarrow> nat" where
  "sys_slots (e, rs, seq) = slot_count (engine_book e)"

lemma added_unit:
  "added unit_weight ab cmd x = (case cmd of
     NewOrder a oid side p q kind tif ts \<Rightarrow> if x = a \<and> can_rest kind tif then 1 else 0 | _ \<Rightarrow> 0)"
  by (cases cmd) (auto simp: added_def unit_weight_def split: option.splits)

lemma apply_dispatch:
  "engine_apply e cmd = Some (e', out) \<Longrightarrow> \<exists>out'. dispatch (engine_book e) cmd = Some (engine_book e', out') \<and>
     set out' \<subseteq> set out \<and> set out \<subseteq> set out' \<union> {BookUpdate (fst (top_of_book (engine_book e'))) (snd (top_of_book (engine_book e')))}"
  by (auto simp: engine_apply_def Let_def bind_eq_Some_iff)

lemma applied_count:
  assumes pre: "pre_apply_check rs cmd (engine_book e) = (rs', None)" and d: "engine_apply e cmd = Some (e', out)"
    and inv: "engine_inv e" and ok: "command_ok cmd" and room: "book_room (engine_book e)" and inv': "engine_inv e'"
    and lim: "account_open_order_count (engine_book e) x \<le> max_open_orders (config rs)"
  shows "account_open_order_count (engine_book e') x \<le> max_open_orders (config rs)"
proof -
  have bi: "book_inv (engine_book e)" "book_inv (engine_book e')" using inv inv' by (simp_all add: engine_inv_def)
  obtain out' where "dispatch (engine_book e) cmd = Some (engine_book e', out')" using apply_dispatch [OF d] by blast
  from cw.dispatch_load [OF bi(1) room ok this, of x]
  have le: "account_open_order_count (engine_book e') x \<le>
      account_open_order_count (engine_book e) x + added unit_weight (abs_book (engine_book e)) cmd x"
    by (simp add: count_load [OF bi(1)] count_load [OF bi(2)])
  show ?thesis
  proof (cases cmd)
    case (NewOrder a oid side p q kind tif ts)
    then show ?thesis using le lim new_order_passes(2) [of rs a oid side p q kind tif ts "engine_book e" rs'] pre
      by (auto simp: added_unit split: if_splits)
  qed (use le lim in \<open>auto simp: added_unit\<close>)
qed

lemma process_returns:
  assumes "engine_inv e" and "command_ok cmd" and "book_room (engine_book e)"
  shows "\<exists>e' rs' seq' out. process_command e rs cmd seq = Some ((e', rs', seq'), out) \<and> engine_inv e' \<and>
    slot_count (engine_book e') \<le> Suc (slot_count (engine_book e))"
  using engine_apply_inv [OF assms] assms(1)
  by (cases "pre_apply_check rs cmd (engine_book e)"; cases "snd (pre_apply_check rs cmd (engine_book e))")
    (auto simp: process_command_def Let_def)

lemma process_step_returns:
  assumes inv: "risk_inv cfg s" and ok: "command_ok cmd" and room: "sys_slots s < 2 ^ 32 - 1"
  shows "\<exists>s' out. process_step s cmd = Some (s', out) \<and> risk_inv cfg s' \<and> sys_slots s' \<le> Suc (sys_slots s)"
proof -
  obtain e rs seq where s: "s = (e, rs, seq)" by (metis prod.exhaust)
  have e: "engine_inv e" "config rs = cfg" "book_room (engine_book e)"
    and lim: "\<And>x. account_open_order_count (engine_book e) x \<le> max_open_orders (config rs)"
    using inv room s by (auto intro: book_room_slots)
  obtain rs' rej where pre: "pre_apply_check rs cmd (engine_book e) = (rs', rej)" by fastforce
  have cfg: "config rs' = cfg" using pre_apply_check_config [of rs cmd "engine_book e"] pre e(2) by simp
  show ?thesis
  proof (cases rej)
    case (Some r)
    then show ?thesis using inv s pre cfg by (simp add: process_command_def Let_def)
  next
    case None
    obtain e' out where d: "engine_apply e cmd = Some (e', out)" "engine_inv e'"
      "slot_count (engine_book e') \<le> Suc (slot_count (engine_book e))"
      using engine_apply_inv [OF e(1) ok e(3)] by blast
    have "account_open_order_count (engine_book e') x \<le> max_open_orders cfg" for x
      using applied_count [OF pre [unfolded None] d(1) e(1) ok e(3) d(2) lim] e(2) by simp
    then show ?thesis using s pre None d cfg by (simp add: process_command_def Let_def)
  qed
qed

interpretation pm: machine process_step "risk_inv cfg" command_ok sys_slots "2 ^ 32 - 1" for cfg
  by unfold_locales (rule process_step_returns)

lemma risk_inv_new: "risk_inv cfg (engine_new, risk_state_new cfg, 0)"
proof -
  have "account_open_order_count (engine_book engine_new) x = 0" for x
    by (simp add: account_open_order_count_def engine_new_def book_new_def hm_get_def)
  then show ?thesis by (simp add: engine_inv_new risk_state_new_def)
qed

section \<open>Draining under the kill switch\<close>

text \<open>Every order resting afterwards rested before, at the same price, with no more quantity.\<close>

definition only_shrinks :: "book \<Rightarrow> book \<Rightarrow> bool" where
  "only_shrinks b b' \<longleftrightarrow> (\<forall>sd. \<forall>r \<in> set (resting b' sd). \<exists>r' \<in> set (resting b sd).
     rkey r = rkey r' \<and> r_price r = r_price r' \<and> r_qty r \<le> r_qty r')"

fun is_commitment :: "event \<Rightarrow> bool" where
  "is_commitment (Accepted _ _ _) = True"
| "is_commitment (Filled _ _ _ _ _ _ _) = True"
| "is_commitment (Trade _ _ _) = True"
| "is_commitment _ = False"

lemma only_shrinks_refl [simp]: "only_shrinks b b"
  by (auto simp: only_shrinks_def)

lemma only_shrinks_sub: "(\<And>sd. set (resting b' sd) \<subseteq> set (resting b sd)) \<Longrightarrow> only_shrinks b b'"
  by (auto simp: only_shrinks_def)

lemma snapshot_find:
  assumes "book_inv b"
  shows "resting_order_snapshot b a oid = map_option (\<lambda>(sd, r). (r_price r, r_qty r)) (a_find (abs_book b) (a, oid))"
proof (cases "hm_get (book_order_index b) (a, oid)")
  case None
  then show ?thesis using a_find_abs(1) [OF assms, of "(a, oid)"] by (simp add: resting_order_snapshot_def)
next
  case (Some s)
  then show ?thesis using a_find_abs(2) [OF assms Some]
    by (auto simp: resting_order_snapshot_def order_of_def)
qed

lemma drain_modify:
  assumes inv: "book_inv b" and chk: "kill_switch_check rs (CancelReplace a oid p q) b = None"
    and d: "dispatch b (CancelReplace a oid p q) = Some (b', out)"
  shows "only_shrinks b b' \<and> (\<forall>ev \<in> set out. \<not> is_commitment ev)"
proof -
  have ref: "abs_book b' = fst (a_modify (abs_book b) a oid p q)" "out = snd (a_modify (abs_book b) a oid p q)"
    using refines_abs [OF modify_refines [OF inv], of a oid p q] d by (simp_all add: dispatch_def)
  show ?thesis
  proof (cases "q = 0 \<or> a_find (abs_book b) (a, oid) = None")
    case True
    then have "resting b' = resting b" using arg_cong [OF ref(1), of a_orders] by (auto simp: a_modify_def)
    then show ?thesis using True ref(2) by (auto simp: a_modify_def only_shrinks_def)
  next
    case False
    then obtain sd r where f: "a_find (abs_book b) (a, oid) = Some (sd, r)" by auto
    have pq: "p = r_price r" "q \<le> r_qty r"
      using chk f by (auto simp: kill_switch_check_def snapshot_find [OF inv] Let_def not_less split: if_splits)
    have m: "r \<in> set (resting b sd)" "rkey r = (a, oid)" using a_find_mem [OF f] by auto
    have le: "q \<le> r_qty r'" if "r' \<in> set (resting b s)" "rkey r' = (a, oid)" for r' s
      using a_unique_abs [OF inv] m pq(2) that unfolding a_unique_def abs_book_simps by metis
    have "resting b' = (\<lambda>s. set_qty (a, oid) q (resting b s))" "out = [Replaced a oid q True]"
      using arg_cong [OF ref(1), of a_orders] ref(2) False f pq by (auto simp: a_modify_def)
    then show ?thesis using le by (auto simp: only_shrinks_def set_qty_def rkey_def)
  qed
qed

lemma drain_dispatch:
  assumes inv: "engine_inv e" and chk: "kill_switch_check rs cmd (engine_book e) = None"
    and d: "dispatch (engine_book e) cmd = Some (b', out)"
  shows "only_shrinks (engine_book e) b' \<and> (\<forall>ev \<in> set out. \<not> is_commitment ev)"
proof -
  let ?b = "engine_book e"
  have bi: "book_inv ?b" and pr: "prices_ok ?b" using inv by (simp_all add: engine_inv_def)
  show ?thesis
  proof (cases cmd)
    case (NewOrder a oid side p q kind tif ts)
    then show ?thesis using chk by (simp add: kill_switch_check_def)
  next
    case (CancelOrder a oid)
    then have ref: "abs_book b' = fst (a_cancel (abs_book ?b) a oid)" "out = snd (a_cancel (abs_book ?b) a oid)"
      using refines_abs [OF cancel_refines [OF bi], of a oid] d by (simp_all add: dispatch_def)
    have "set (resting b' sd) \<subseteq> set (resting ?b sd)" for sd
      using arg_cong [OF ref(1), of a_orders] by (auto simp: a_cancel_def a_drop_def drop_key_def split: if_splits)
    then show ?thesis using only_shrinks_sub ref(2) by (auto simp: a_cancel_def)
  next
    case (CancelReplace a oid p q)
    then show ?thesis using drain_modify [OF bi] chk d by simp
  next
    case (MassCancel a)
    then show ?thesis using mass_cancel_spec [OF bi, of a] d
      by (auto simp: dispatch_def intro!: only_shrinks_sub)
  next
    case (KillSwitch g)
    then show ?thesis using d by (simp add: dispatch_def)
  next
    case Snapshot
    then show ?thesis using snapshot_spec [OF bi pr] d by (auto simp: dispatch_def level_event_def)
  qed
qed

end
