(* ===== verification/Risk_Config.thy ===== *)
theory Risk_Config
  imports Risk
begin

text \<open>
  Loading the risk configuration (\<open>risk/src/config.rs\<close>). A \<open>str\<close> is the list of its
  Unicode code points. Reading the file is the argument: \<^const>\<open>None\<close> when it cannot be read.
  The parts of \<open>str\<close> the source uses (\<open>lines\<close>, \<open>split\<close>, \<open>trim\<close>,
  \<open>split_once\<close>, \<open>replace\<close>, \<open>parse\<close>) are written out.
\<close>

type_synonym str = "nat list"

definition str_lit :: "string \<Rightarrow> str" where
  "str_lit s = map of_char s"

section \<open>The operations of str\<close>

text \<open>The code points with the Unicode property \<open>White_Space\<close>.\<close>

definition is_whitespace :: "nat \<Rightarrow> bool" where
  "is_whitespace c \<longleftrightarrow> 9 \<le> c \<and> c \<le> 13 \<or> c = 32 \<or> c = 133 \<or> c = 160 \<or> c = 5760 \<or>
     8192 \<le> c \<and> c \<le> 8202 \<or> c = 8232 \<or> c = 8233 \<or> c = 8239 \<or> c = 8287 \<or> c = 12288"

definition str_trim :: "str \<Rightarrow> str" where
  "str_trim s = rev (dropWhile is_whitespace (rev (dropWhile is_whitespace s)))"

definition strip_cr :: "str \<Rightarrow> str" where
  "strip_cr l = (if l \<noteq> [] \<and> last l = 13 then butlast l else l)"

text \<open>\<open>str::lines\<close>: split after each line feed, dropping it and a carriage return before it.\<close>

function str_lines :: "str \<Rightarrow> str list" where
  "str_lines s =
     (if s = [] then []
      else case dropWhile (\<lambda>c. c \<noteq> 10) s of
        [] \<Rightarrow> [s]
      | _ # ls \<Rightarrow> strip_cr (takeWhile (\<lambda>c. c \<noteq> 10) s) # str_lines ls)"
  by pat_completeness auto
termination
proof (relation "measure length")
  fix s ls :: str and c
  assume "s \<noteq> []" and "dropWhile (\<lambda>c. c \<noteq> 10) s = c # ls"
  then have "Suc (length ls) \<le> length s" by (metis length_Cons length_dropWhile_le)
  then show "(ls, s) \<in> measure length" by simp
qed simp

declare str_lines.simps [simp del]

definition split_once :: "nat \<Rightarrow> str \<Rightarrow> (str \<times> str) option" where
  "split_once sep s =
     (case dropWhile (\<lambda>c. c \<noteq> sep) s of
        [] \<Rightarrow> None
      | _ # v \<Rightarrow> Some (takeWhile (\<lambda>c. c \<noteq> sep) s, v))"

text \<open>\<open>parse\<close> of an unsigned integer of \<open>bits\<close> bits: an optional plus sign, then one or more
  digits, each step checked for overflow.\<close>

fun parse_digits :: "nat \<Rightarrow> nat \<Rightarrow> str \<Rightarrow> nat option" where
  "parse_digits bits acc [] = Some acc"
| "parse_digits bits acc (c # cs) =
     (if c < 48 \<or> 57 < c then None
      else if 2 ^ bits \<le> acc * 10 + (c - 48) then None
      else parse_digits bits (acc * 10 + (c - 48)) cs)"

definition parse_uint :: "nat \<Rightarrow> str \<Rightarrow> nat option" where
  "parse_uint bits s =
     (case s of
        [] \<Rightarrow> None
      | c # cs \<Rightarrow> if c = 43 then (if cs = [] then None else parse_digits bits 0 cs) else parse_digits bits 0 s)"

section \<open>RiskConfig::load\<close>

definition load_line :: "risk_config \<Rightarrow> str \<Rightarrow> risk_config" where
  "load_line cfg line =
     (let line = str_trim (takeWhile (\<lambda>c. c \<noteq> 35) line)
      in case split_once 61 line of
           None \<Rightarrow> cfg
         | Some (key, value) \<Rightarrow>
             (let key = str_trim key;
                  value = filter (\<lambda>c. c \<noteq> 95) (str_trim value)
              in if key = str_lit ''max_open_orders'' then
                   (case parse_uint 64 value of Some v \<Rightarrow> cfg\<lparr>max_open_orders := v\<rparr> | None \<Rightarrow> cfg)
                 else if key = str_lit ''max_notional_ticks'' then
                   (case parse_uint 128 value of Some v \<Rightarrow> cfg\<lparr>max_notional := of_nat v\<rparr> | None \<Rightarrow> cfg)
                 else if key = str_lit ''price_band_pct'' then
                   (case parse_uint 64 value of Some v \<Rightarrow> cfg\<lparr>price_band_pct := of_nat v\<rparr> | None \<Rightarrow> cfg)
                 else cfg))"

definition load_config :: "str option \<Rightarrow> risk_config" where
  "load_config contents =
     (case contents of
        None \<Rightarrow> risk_config_default
      | Some s \<Rightarrow> foldl load_line risk_config_default (str_lines s))"

section \<open>What a file assigns\<close>

text \<open>The value a line gives to a key, and the last such value of a file.\<close>

definition assignment :: "string \<Rightarrow> nat \<Rightarrow> str \<Rightarrow> nat option" where
  "assignment key bits line =
     (case split_once 61 (str_trim (takeWhile (\<lambda>c. c \<noteq> 35) line)) of
        None \<Rightarrow> None
      | Some (k, v) \<Rightarrow>
          if str_trim k = str_lit key then parse_uint bits (filter (\<lambda>c. c \<noteq> 95) (str_trim v)) else None)"

definition last_value :: "string \<Rightarrow> nat \<Rightarrow> nat \<Rightarrow> str list \<Rightarrow> nat" where
  "last_value key bits d ls = last (d # List.map_filter (assignment key bits) ls)"

lemma keys_distinct:
  "str_lit ''max_open_orders'' \<noteq> str_lit ''max_notional_ticks''"
  "str_lit ''max_open_orders'' \<noteq> str_lit ''price_band_pct''"
  "str_lit ''max_notional_ticks'' \<noteq> str_lit ''price_band_pct''"
  by (simp_all add: str_lit_def)

lemma load_line_fields:
  "max_open_orders (load_line cfg l) =
     (case assignment ''max_open_orders'' 64 l of None \<Rightarrow> max_open_orders cfg | Some v \<Rightarrow> v)"
  "max_notional (load_line cfg l) =
     (case assignment ''max_notional_ticks'' 128 l of None \<Rightarrow> max_notional cfg | Some v \<Rightarrow> of_nat v)"
  "price_band_pct (load_line cfg l) =
     (case assignment ''price_band_pct'' 64 l of None \<Rightarrow> price_band_pct cfg | Some v \<Rightarrow> of_nat v)"
  using keys_distinct by (auto simp: load_line_def assignment_def Let_def split: option.splits)

lemma foldl_field:
  assumes "\<And>c l. g (load_line c l) = (case assignment key bits l of None \<Rightarrow> g c | Some v \<Rightarrow> h v)" and "g cfg = h d"
  shows "g (foldl load_line cfg ls) = h (last_value key bits d ls)"
  using assms(2)
proof (induction ls arbitrary: cfg d)
  case (Cons l ls)
  show ?case
  proof (cases "assignment key bits l")
    case None
    then show ?thesis using Cons.IH [of "load_line cfg l" d] Cons.prems assms(1)
      by (simp add: last_value_def map_filter_simps)
  next
    case (Some v)
    then show ?thesis using Cons.IH [of "load_line cfg l" v] assms(1)
      by (simp add: last_value_def map_filter_simps)
  qed
qed (simp add: last_value_def map_filter_simps)

theorem load_config_values:
  "max_open_orders (load_config (Some s)) = last_value ''max_open_orders'' 64 MAX_OPEN_ORDERS (str_lines s)"
  "max_notional (load_config (Some s)) =
     of_nat (last_value ''max_notional_ticks'' 128 (unat MAX_NOTIONAL_TICKS) (str_lines s))"
  "price_band_pct (load_config (Some s)) =
     of_nat (last_value ''price_band_pct'' 64 (unat PRICE_BAND_PCT) (str_lines s))"
  using foldl_field [OF load_line_fields(1), where cfg = risk_config_default]
    foldl_field [OF load_line_fields(2), where cfg = risk_config_default]
    foldl_field [OF load_line_fields(3), where cfg = risk_config_default]
  by (simp_all add: load_config_def risk_config_default_def)

section \<open>Rendering a configuration\<close>

fun show_nat :: "nat \<Rightarrow> str" where
  "show_nat n = (if n < 10 then [48 + n] else show_nat (n div 10) @ [48 + n mod 10])"

declare show_nat.simps [simp del]

definition render_line :: "string \<Rightarrow> nat \<Rightarrow> str" where
  "render_line key n = str_lit key @ [32, 61, 32] @ show_nat n"

definition render_config :: "risk_config \<Rightarrow> str" where
  "render_config cfg = render_line ''max_open_orders'' (max_open_orders cfg) @ [10] @
     render_line ''max_notional_ticks'' (unat (max_notional cfg)) @ [10] @
     render_line ''price_band_pct'' (unat (price_band_pct cfg)) @ [10]"

lemma show_nat_digits: "c \<in> set (show_nat n) \<Longrightarrow> 48 \<le> c \<and> c \<le> 57"
proof (induction n rule: show_nat.induct)
  case (1 n)
  then show ?case by (cases "n < 10") (auto simp: show_nat.simps [of n])
qed

lemma show_nat_ne [simp]: "show_nat n \<noteq> []"
  by (simp add: show_nat.simps [of n])

lemma parse_digits_append:
  "parse_digits bits acc (xs @ ys) = Option.bind (parse_digits bits acc xs) (\<lambda>a. parse_digits bits a ys)"
  by (induction bits acc xs rule: parse_digits.induct) auto

lemma parse_show: "n < 2 ^ bits \<Longrightarrow> parse_digits bits 0 (show_nat n) = Some n"
proof (induction n rule: show_nat.induct)
  case (1 n)
  show ?case
  proof (cases "n < 10")
    case True
    then show ?thesis using 1(2) by (simp add: show_nat.simps [of n])
  next
    case False
    have "n div 10 < 2 ^ bits" using 1(2) by (meson div_le_dividend le_less_trans)
    then have "parse_digits bits 0 (show_nat (n div 10)) = Some (n div 10)" using 1(1) False by simp
    then show ?thesis using False 1(2) by (simp add: show_nat.simps [of n] parse_digits_append)
  qed
qed

lemma parse_uint_show: "n < 2 ^ bits \<Longrightarrow> parse_uint bits (show_nat n) = Some n"
  using parse_show [of n bits] show_nat_digits [of _ n]
  by (cases "show_nat n") (auto simp: parse_uint_def)

lemma show_nat_plain: "c \<in> set (show_nat n) \<Longrightarrow> \<not> is_whitespace c \<and> c \<noteq> 10 \<and> c \<noteq> 13 \<and> c \<noteq> 35 \<and> c \<noteq> 61 \<and> c \<noteq> 95"
  using show_nat_digits [of c n] by (auto simp: is_whitespace_def)

lemma str_trim_id:
  assumes "s \<noteq> []" and "\<not> is_whitespace (hd s)" and "\<not> is_whitespace (last s)"
  shows "str_trim s = s" and "str_trim (32 # s) = s" and "str_trim (s @ [32]) = s"
proof -
  have ws: "is_whitespace 32" by (simp add: is_whitespace_def)
  have f: "dropWhile is_whitespace s = s" "dropWhile is_whitespace (s @ [32]) = s @ [32]"
    using assms(1,2) by (cases s; simp)+
  have b: "dropWhile is_whitespace (rev s) = rev s"
    using assms(1,3) by (metis dropWhile_eq_self_iff hd_rev rev_is_Nil_conv)
  show "str_trim s = s" "str_trim (32 # s) = s" "str_trim (s @ [32]) = s"
    using ws f b by (simp_all add: str_trim_def)
qed

text \<open>A key: not empty, without whitespace, separators or comment signs.\<close>

definition plain_key :: "string \<Rightarrow> bool" where
  "plain_key key \<longleftrightarrow> key \<noteq> [] \<and> (\<forall>c \<in> set (str_lit key). \<not> is_whitespace c \<and> c \<noteq> 35 \<and> c \<noteq> 61)"

lemma config_keys_plain:
  "plain_key ''max_open_orders''" "plain_key ''max_notional_ticks''" "plain_key ''price_band_pct''"
  by (simp_all add: plain_key_def str_lit_def is_whitespace_def)

lemma assignment_render:
  assumes key: "plain_key key'" and n: "str_lit key = str_lit key' \<Longrightarrow> n < 2 ^ bits"
  shows "assignment key bits (render_line key' n) = (if str_lit key = str_lit key' then Some n else None)"
proof -
  let ?k = "str_lit key'" and ?d = "show_nat n"
  have k: "?k \<noteq> []" "\<forall>c \<in> set ?k. \<not> is_whitespace c \<and> c \<noteq> 35 \<and> c \<noteq> 61"
    using key by (simp_all add: plain_key_def str_lit_def)
  have d: "\<forall>c \<in> set ?d. \<not> is_whitespace c \<and> c \<noteq> 35 \<and> c \<noteq> 61 \<and> c \<noteq> 95" using show_nat_plain by blast
  have tw: "takeWhile (\<lambda>c. c \<noteq> 35) (render_line key' n) = render_line key' n"
    using k d by (auto simp: takeWhile_eq_all_conv render_line_def)
  moreover have "str_trim (render_line key' n) = render_line key' n"
    using k d by (intro str_trim_id) (auto simp: render_line_def)
  moreover have "split_once 61 (render_line key' n) = Some (?k @ [32], 32 # ?d)"
    using k by (auto simp: split_once_def render_line_def dropWhile_append2 takeWhile_append2)
  moreover have "str_trim (?k @ [32]) = ?k" "str_trim (32 # ?d) = ?d"
    using k d str_trim_id(3) [of ?k] str_trim_id(2) [of ?d] by simp_all
  moreover have "filter (\<lambda>c. c \<noteq> 95) ?d = ?d" using d by (simp add: filter_id_conv)
  ultimately show ?thesis unfolding assignment_def tw using parse_uint_show [of n bits] n by auto
qed

lemma assignment_own: "plain_key key \<Longrightarrow> n < 2 ^ bits \<Longrightarrow> assignment key bits (render_line key n) = Some n"
  using assignment_render [of key key n bits] by simp

lemma assignment_other:
  "plain_key key' \<Longrightarrow> str_lit key \<noteq> str_lit key' \<Longrightarrow> assignment key bits (render_line key' n) = None"
  using assignment_render [of key' key n bits] by simp

lemma str_lines_Cons:
  assumes "\<forall>c \<in> set l. c \<noteq> 10" and "l \<noteq> []" and "last l \<noteq> 13"
  shows "str_lines (l @ 10 # s) = l # str_lines s"
proof -
  have "dropWhile (\<lambda>c. c \<noteq> 10) (l @ 10 # s) = 10 # s" "takeWhile (\<lambda>c. c \<noteq> 10) (l @ 10 # s) = l"
    using assms(1) by (simp_all add: dropWhile_append2 takeWhile_append2)
  then show ?thesis using assms(2,3) by (simp add: str_lines.simps [of "l @ 10 # s"] strip_cr_def)
qed

lemma render_line_plain:
  assumes "plain_key key"
  shows "\<forall>c \<in> set (render_line key n). c \<noteq> 10" "render_line key n \<noteq> []" "last (render_line key n) \<noteq> 13"
proof -
  have "is_whitespace 10" by (simp add: is_whitespace_def)
  then show "\<forall>c \<in> set (render_line key n). c \<noteq> 10" "render_line key n \<noteq> []"
    using assms show_nat_plain by (auto simp: render_line_def plain_key_def)
  show "last (render_line key n) \<noteq> 13"
    using show_nat_plain [of "last (show_nat n)" n] by (simp add: render_line_def)
qed

lemma str_lines_render:
  "str_lines (render_config cfg) = [render_line ''max_open_orders'' (max_open_orders cfg),
     render_line ''max_notional_ticks'' (unat (max_notional cfg)),
     render_line ''price_band_pct'' (unat (price_band_pct cfg))]"
  unfolding render_config_def
  using str_lines_Cons [OF render_line_plain [OF config_keys_plain(1)]]
    str_lines_Cons [OF render_line_plain [OF config_keys_plain(2)]]
    str_lines_Cons [OF render_line_plain [OF config_keys_plain(3)], of _ "[]"]
  by (simp add: str_lines.simps [of "[]"])

end
