(* ===== verification/Risk_Props.thy ===== *)
theory Risk_Props
  imports Risk_Inv Risk_Config Book_Props
begin

text \<open>
  The properties of the risk gate and of \<open>process_command\<close>, each with a witness on a
  concrete system, and the two ways the gate is weaker than its documentation.
\<close>

section \<open>A concrete system\<close>

definition demo_risk :: risk_state where
  "demo_risk = risk_state_new risk_config_default"

section \<open>Whole runs\<close>



lemma only_shrinks_trans: "only_shrinks b b' \<Longrightarrow> only_shrinks b' b'' \<Longrightarrow> only_shrinks b b''"
  unfolding only_shrinks_def by (fastforce intro: order_trans)

definition not_switch :: "command \<Rightarrow> bool" where
  "not_switch cmd = (case cmd of KillSwitch _ \<Rightarrow> False | _ \<Rightarrow> True)"

lemma drain_step:
  assumes inv: "engine_inv e" and ks: "kill_switch_engaged rs" and ns: "not_switch cmd"
    and p: "process_command e rs cmd seq = Some ((e', rs', seq'), out)"
  shows "only_shrinks (engine_book e) (engine_book e') \<and> kill_switch_engaged rs' \<and>
    (\<forall>x \<in> set out. \<not> is_commitment (snd x))"
proof -
  have ks': "kill_switch_engaged rs'" if "pre_apply_check rs cmd (engine_book e) = (rs', r)" for r
    using pre_apply_check_switch [of rs cmd "engine_book e"] that ks ns by (cases cmd) (auto simp: not_switch_def)
  from p show ?thesis
  proof (cases rule: process_commandE)
    case (rejected r)
    then show ?thesis using ks' pre_apply_reject [OF rejected(1)] by auto
  next
    case (applied evs)
    have chk: "kill_switch_check rs cmd (engine_book e) = None"
      using applied(1) ks ns by (cases cmd) (auto simp: pre_apply_check_def not_switch_def split: option.splits)
    obtain out' where "dispatch (engine_book e) cmd = Some (engine_book e', out')"
      "set evs \<subseteq> set out' \<union> {BookUpdate (fst (top_of_book (engine_book e'))) (snd (top_of_book (engine_book e')))}"
      using apply_dispatch [OF applied(2)] by blast
    then show ?thesis using drain_dispatch [OF inv chk] ks' applied(1,4) by fastforce
  qed
qed

text \<open>C15. Drain under the kill switch: while it is engaged, no sequence of commands other than the
  switch itself produces a fill, a trade or an acceptance, and every order resting afterwards
  rested before, at the same price and with no more quantity.\<close>

theorem kill_switch_drains:
  assumes "engine_inv e" and "kill_switch_engaged rs"
    and "\<forall>cmd \<in> set cmds. command_ok cmd \<and> not_switch cmd"
    and "slot_count (engine_book e) + length cmds < 2 ^ 32"
  shows "\<exists>e' rs' seq' out. run process_step (e, rs, seq) cmds = Some ((e', rs', seq'), out) \<and>
    only_shrinks (engine_book e) (engine_book e') \<and> (\<forall>x \<in> set out. \<not> is_commitment (snd x))"
  using assms
proof (induction cmds arbitrary: e rs seq)
  case (Cons cmd cmds)
  have room: "book_room (engine_book e)" using Cons.prems(4) by (intro book_room_slots) simp
  obtain e1 rs1 seq1 out1 where p: "process_command e rs cmd seq = Some ((e1, rs1, seq1), out1)"
    and i1: "engine_inv e1" "slot_count (engine_book e1) \<le> Suc (slot_count (engine_book e))"
    using process_returns [OF Cons.prems(1) _ room, of cmd rs seq] Cons.prems(3) by auto
  have d: "only_shrinks (engine_book e) (engine_book e1)" "kill_switch_engaged rs1"
    "\<forall>x \<in> set out1. \<not> is_commitment (snd x)"
    using drain_step [OF Cons.prems(1,2) _ p] Cons.prems(3) by auto
  obtain e' rs' seq' out where r: "run process_step (e1, rs1, seq1) cmds = Some ((e', rs', seq'), out)"
    "only_shrinks (engine_book e1) (engine_book e')" "\<forall>x \<in> set out. \<not> is_commitment (snd x)"
    using Cons.IH [OF i1(1) d(2)] Cons.prems(3,4) i1(2) by fastforce
  then show ?case using p d only_shrinks_trans [OF d(1) r(2)] by auto
qed simp

theorem kill_switch_drains_witness:
  "\<exists>e' rs' seq' out. run process_step (demo_engine, demo_risk\<lparr>kill_switch_engaged := True\<rparr>, 7)
      [NewOrder 5 5 Buy 105 1 Limit Gtc 0, CancelReplace 1 1 104 20, CancelReplace 1 1 105 15, CancelOrder 2 1] =
        Some ((e', rs', seq'), out) \<and>
    only_shrinks (engine_book demo_engine) (engine_book e') \<and> (\<forall>x \<in> set out. \<not> is_commitment (snd x))"
proof -
  have "slot_count (engine_book demo_engine) = 3" unfolding demo_engine_def demo_cmds_def by code_simp
  then show ?thesis using demo_engine_inv
    by (intro kill_switch_drains) (simp_all add: command_ok_def not_switch_def)
qed

text \<open>The engine sequence number counts commands: a run over \<open>n\<close> commands advances it by
  \<open>n\<close>, whether they are rejected or applied; every event carries the number of the command
  that caused it, so the numbers never decrease along the outbound stream.\<close>

theorem engine_seq_counts:
  assumes "run process_step (e, rs, seq) cmds = Some ((e', rs', seq'), out)"
    and "unat seq + length cmds < 2 ^ 64"
  shows "unat seq' = unat seq + length cmds \<and> sorted (map (\<lambda>x. unat (fst x)) out) \<and>
    (\<forall>x \<in> set out. unat seq < unat (fst x) \<and> unat (fst x) \<le> unat seq')"
  using assms
proof (induction cmds arbitrary: e rs seq out)
  case (Cons cmd cmds)
  obtain e1 rs1 seq1 out1 out2 where p: "process_command e rs cmd seq = Some ((e1, rs1, seq1), out1)"
    and r: "run process_step (e1, rs1, seq1) cmds = Some ((e', rs', seq'), out2)" "out = out1 @ out2"
    using Cons.prems(1) by (auto simp: bind_eq_Some_iff)
  have s1: "seq1 = seq + 1" "\<forall>x \<in> set out1. fst x = seq1"
    using p by (auto elim!: process_commandE)
  then have u: "unat seq1 = Suc (unat seq)" using Cons.prems(2) unat_word_ariths(1) [of seq 1] by simp
  have ih: "unat seq' = unat seq1 + length cmds" "sorted (map (\<lambda>x. unat (fst x)) out2)"
    "\<forall>x \<in> set out2. unat seq1 < unat (fst x) \<and> unat (fst x) \<le> unat seq'"
    using Cons.IH [OF r(1)] Cons.prems(2) u by auto
  have "map (\<lambda>x. unat (fst x)) out1 = replicate (length out1) (unat seq1)"
    using s1(2) by (simp add: map_replicate_const [symmetric] cong: map_cong)
  then show ?case using ih u s1(2) r(2) by (auto simp: sorted_append less_imp_le)
qed simp

theorem engine_seq_counts_witness:
  "\<exists>e' rs' seq' out. run process_step (engine_new, demo_risk, 0) [KillSwitch True, NewOrder 1 1 Buy 5 5 Limit Gtc 0] =
      Some ((e', rs', seq'), out) \<and>
    unat seq' = unat (0 :: u64) + length [KillSwitch True, NewOrder 1 1 Buy 5 5 Limit Gtc 0] \<and>
    sorted (map (\<lambda>x. unat (fst x)) out) \<and> (\<forall>x \<in> set out. unat (0 :: u64) < unat (fst x) \<and> unat (fst x) \<le> unat seq')"
proof -
  have r: "run process_step (engine_new, demo_risk, 0) [KillSwitch True, NewOrder 1 1 Buy 5 5 Limit Gtc 0] =
      Some ((engine_new, demo_risk\<lparr>kill_switch_engaged := True\<rparr>, 2), [(2, Rejected 1 1 KillSwitchActive)])"
    unfolding demo_risk_def by code_simp
  from engine_seq_counts [OF r] r show ?thesis by fastforce
qed

section \<open>The limits\<close>





section \<open>Loading the configuration\<close>

text \<open>A configuration written as one \<open>key = value\<close> line per field loads back unchanged.\<close>

theorem config_roundtrip:
  assumes "max_open_orders cfg < 2 ^ 64"
  shows "load_config (Some (render_config cfg)) = cfg"
proof -
  have b: "unat (max_notional cfg) < 2 ^ 128" "unat (price_band_pct cfg) < 2 ^ 64"
    using unsigned_less [of "max_notional cfg", where ?'a = nat] unsigned_less [of "price_band_pct cfg", where ?'a = nat]
    by simp_all
  show ?thesis
    using b assms
    by (intro risk_config.equality)
      (simp_all add: load_config_def load_line_fields str_lines_render assignment_own assignment_other
        config_keys_plain keys_distinct keys_distinct [symmetric])
qed

theorem config_roundtrip_witness: "load_config (Some (render_config risk_config_default)) = risk_config_default"
  by (rule config_roundtrip) (simp add: risk_config_default_def MAX_OPEN_ORDERS_def)

text \<open>What a file means: an unreadable file gives the defaults; otherwise each field is the value
  of the last line that assigns its key a parsable number, or its own default when there is none,
  independently of every other line.\<close>

theorem load_config_meaning:
  "load_config None = risk_config_default \<and>
   load_config (Some s) =
     \<lparr>max_open_orders = last_value ''max_open_orders'' 64 MAX_OPEN_ORDERS (str_lines s),
      max_notional = of_nat (last_value ''max_notional_ticks'' 128 (unat MAX_NOTIONAL_TICKS) (str_lines s)),
      price_band_pct = of_nat (last_value ''price_band_pct'' 64 (unat PRICE_BAND_PCT) (str_lines s))\<rparr>"
  by (simp add: load_config_def [of None]) (rule risk_config.equality, simp_all add: load_config_values)

text \<open>The configuration file the repository ships (\<open>risk.toml\<close>, character for character, with its
  comments, blank line and digit separators) loads to the built-in defaults.\<close>

theorem shipped_config_is_default:
  "load_config (Some (str_lit ''# Default risk-control configuration (SPEC.md '' @ [167] @ str_lit ''5). Baked in so'' @ [10] @
     str_lit ''# `docker compose up` needs no setup.'' @ [10, 10] @
     str_lit ''max_open_orders = 50'' @ [10] @ str_lit ''max_notional_ticks = 100_000_000'' @ [10] @
     str_lit ''price_band_pct = 10'' @ [10])) = risk_config_default"
  by (simp add: load_config_def str_lines.simps str_lit_def strip_cr_def load_line_def split_once_def str_trim_def
      is_whitespace_def parse_uint_def risk_config_default_def MAX_OPEN_ORDERS_def MAX_NOTIONAL_TICKS_def PRICE_BAND_PCT_def)

section \<open>Where the gate is weaker than its documentation\<close>


text \<open>A band above one hundred percent rejects every order: \<open>100 - band\<close> wraps, so the lower
  bound exceeds every price and each limit order is a violation once a reference exists.\<close>

theorem wide_band_rejects:
  assumes "100 < unat pct" and "unat pct \<le> 2 ^ 32" and "r \<noteq> 0"
  shows "band_violated pct r p"
proof -
  define d where "d = unat pct - 100"
  have d: "0 < d" "d < 2 ^ 32" "unat pct = 100 + d" using assms(1,2) by (simp_all add: d_def)
  have r: "0 < unat r" "unat r < 2 ^ 64"
    using assms(3) unsigned_less [of r, where ?'a = nat] by (simp_all add: unat_gt_0)
  have pos: "0 < unat r * d" using r d by simp
  have lt: "unat r * d \<le> 2 ^ 64 * 2 ^ 32" using r d by (intro mult_le_mono) simp_all
  have "(100 :: u128) - ucast pct = - of_nat d"
    using arg_cong [OF d(3), of "of_nat :: nat \<Rightarrow> u128"] by simp
  then have "(ucast r :: u128) * (100 - ucast pct) = - of_nat (unat r * d)" by simp
  also have "\<dots> = of_nat (2 ^ 128 - unat r * d)"
  proof -
    have "(of_nat (2 ^ 128) :: u128) = 0" by simp
    then show ?thesis using lt by (simp add: of_nat_diff del: of_nat_numeral of_nat_power)
  qed
  finally have "unat ((ucast r :: u128) * (100 - ucast pct)) = 2 ^ 128 - unat r * d"
    using pos lt by (simp only: unsigned_of_nat) (simp add: take_bit_nat_eq_self)
  then have "unat ((ucast r :: u128) * (100 - ucast pct) div 100) = (2 ^ 128 - unat r * d) div 100"
    by (simp add: unat_div)
  moreover have "unat p < 2 ^ 64" using unsigned_less [of p, where ?'a = nat] by simp
  ultimately have "(ucast p :: u128) < ucast r * (100 - ucast pct) div 100"
    unfolding word_less_nat_alt unat_ucast_u128 using lt by simp
  then show ?thesis by (simp add: band_violated_def Let_def)
qed

theorem wide_band_rejects_witness: "band_violated 150 100 100"
  by (rule wide_band_rejects) simp_all

end
