(* ===== verification/Matching_Thread.thy ===== *)
theory Matching_Thread
  imports Framing Risk_Inv
begin

text \<open>
  The matching thread (\<open>gateway/src/matching.rs\<close>): it takes commands off the command channel in
  order, records them, runs them through \<open>process_command\<close>, and routes every event by a
  table from resting orders to connections. The state is the thread's locals together with what
  it has put on its two outgoing channels; a spin on an empty command channel changes nothing, so
  a run is a list of received commands, interleaved with the market-data thread taking events
  off its channel. Sending on the return channel blocks until there is room and is an append;
  the market-data channel is bounded and \<open>try_send\<close> drops when it is full.
  Writes to the recording file are taken to succeed.
\<close>

type_synonym conn_id = u64
type_synonym order_key = "account_id \<times> order_id"

definition EXPECTED_CONCURRENT_ACCOUNTS :: nat where "EXPECTED_CONCURRENT_ACCOUNTS = 64"

definition RESTING_CONN_INITIAL_CAPACITY :: nat where
  "RESTING_CONN_INITIAL_CAPACITY = EXPECTED_CONCURRENT_ACCOUNTS * MAX_OPEN_ORDERS"

definition command_self_id :: "command \<Rightarrow> order_key option" where
  "command_self_id cmd =
     (case cmd of
        NewOrder account oid side price qty kind tif ts \<Rightarrow> Some (account, oid)
      | CancelOrder account oid \<Rightarrow> Some (account, oid)
      | CancelReplace account oid new_price new_qty \<Rightarrow> Some (account, oid)
      | MassCancel account \<Rightarrow> None
      | KillSwitch engaged \<Rightarrow> None
      | Snapshot \<Rightarrow> None)"

fun event_id :: "event \<Rightarrow> order_key option" where
  "event_id (Accepted account oid _) = Some (account, oid)"
| "event_id (Rejected account oid _) = Some (account, oid)"
| "event_id (Filled account oid _ _ _ _ _) = Some (account, oid)"
| "event_id (Cancelled account oid) = Some (account, oid)"
| "event_id (Replaced account oid _ _) = Some (account, oid)"
| "event_id (Trade _ _ _) = None"
| "event_id (BookUpdate _ _) = None"
| "event_id (SnapshotLevel _ _ _ _) = None"
| "event_id (SnapshotAccount _ _ _) = None"
| "event_id (SnapshotSummary _ _ _ _ _) = None"

text \<open>The two \<open>matches!\<close> of the emit closure.\<close>

fun is_market_data :: "event \<Rightarrow> bool" where
  "is_market_data (Trade _ _ _) = True"
| "is_market_data (BookUpdate _ _) = True"
| "is_market_data _ = False"

fun is_snapshot :: "event \<Rightarrow> bool" where
  "is_snapshot (SnapshotLevel _ _ _ _) = True"
| "is_snapshot (SnapshotAccount _ _ _) = True"
| "is_snapshot (SnapshotSummary _ _ _ _ _) = True"
| "is_snapshot _ = False"

record mthread =
  mt_engine :: engine
  mt_risk :: risk_state
  mt_conns :: "(order_key, conn_id) hashmap"
  mt_seq :: engine_seq
  mt_recorder :: "bytes option"
  mt_return :: "(conn_id \<times> engine_seq \<times> event) list"
  mt_market :: "event list"
  mt_taken :: "event list"

definition mthread_init :: "risk_state \<Rightarrow> bytes option \<Rightarrow> mthread" where
  "mthread_init rs recorder = \<lparr>mt_engine = engine_new, mt_risk = rs, mt_conns = [], mt_seq = 0,
     mt_recorder = recorder, mt_return = [], mt_market = [], mt_taken = []\<rparr>"

text \<open>\<open>SyncSender::try_send\<close> on a channel of capacity \<open>cap\<close>; the error is ignored.\<close>

definition try_send :: "nat \<Rightarrow> 'a \<Rightarrow> 'a list \<Rightarrow> 'a list" where
  "try_send cap x q = (if length q < cap then q @ [x] else q)"

definition route_of :: "(order_key, conn_id) hashmap \<Rightarrow> order_key option \<Rightarrow> conn_id \<Rightarrow> conn_id \<Rightarrow> order_key \<Rightarrow> conn_id" where
  "route_of conns self_id conn fallback i =
     (if Some i = self_id then conn
      else case hm_get conns i of Some c \<Rightarrow> c | None \<Rightarrow> fallback)"

fun update_conns :: "order_key \<Rightarrow> conn_id \<Rightarrow> event \<Rightarrow> (order_key, conn_id) hashmap \<Rightarrow> (order_key, conn_id) hashmap" where
  "update_conns i route (Accepted _ _ resting_qty) conns = (if 0 < resting_qty then hm_insert i route conns else conns)"
| "update_conns i route (Filled _ _ _ _ _ resting_qty _) conns =
     (if 0 < resting_qty then hm_insert i route conns else hm_remove i conns)"
| "update_conns i route (Cancelled _ _) conns = hm_remove i conns"
| "update_conns i route (Replaced _ _ _ _) conns = hm_insert i route conns"
| "update_conns i route _ conns = conns"

text \<open>The emit closure. The source passes \<open>conn_id\<close> as the fallback of the table lookup; it is
  an argument here so that a theorem can say that it is never used.\<close>

definition emit_event :: "nat \<Rightarrow> conn_id \<Rightarrow> order_key option \<Rightarrow> conn_id \<Rightarrow> engine_seq \<times> event \<Rightarrow> mthread \<Rightarrow> mthread option" where
  "emit_event cap conn self_id fallback x st =
     (let (seq, ev) = x in
      if is_market_data ev then Some (st\<lparr>mt_market := try_send cap ev (mt_market st)\<rparr>)
      else if is_snapshot ev then Some (st\<lparr>mt_return := mt_return st @ [(conn, seq, ev)]\<rparr>)
      else do {
        i \<leftarrow> event_id ev;
        let route = route_of (mt_conns st) self_id conn fallback i;
        Some (st\<lparr>mt_conns := update_conns i route ev (mt_conns st),
                 mt_return := mt_return st @ [(route, seq, ev)]\<rparr>)
      })"

fun emit_all :: "nat \<Rightarrow> conn_id \<Rightarrow> order_key option \<Rightarrow> conn_id \<Rightarrow> (engine_seq \<times> event) list \<Rightarrow> mthread \<Rightarrow> mthread option" where
  "emit_all cap conn self_id fallback [] st = Some st"
| "emit_all cap conn self_id fallback (x # xs) st = do {
     st \<leftarrow> emit_event cap conn self_id fallback x st;
     emit_all cap conn self_id fallback xs st
   }"

definition record_command :: "command \<Rightarrow> bytes option \<Rightarrow> bytes option option" where
  "record_command cmd recorder =
     (case recorder of
        None \<Rightarrow> Some None
      | Some written \<Rightarrow> do {
          (buf, len) \<leftarrow> encode_command cmd (replicate MAX_MESSAGE_LEN 0);
          Some (Some (written @ take len buf))
        })"

definition matching_step_via :: "conn_id \<Rightarrow> nat \<Rightarrow> mthread \<Rightarrow> conn_id \<times> command \<Rightarrow> mthread option" where
  "matching_step_via fallback cap st item =
     (let (conn, cmd) = item in do {
        recorder \<leftarrow> record_command cmd (mt_recorder st);
        ((e, rs, seq), out) \<leftarrow> process_command (mt_engine st) (mt_risk st) cmd (mt_seq st);
        emit_all cap conn (command_self_id cmd) fallback out
          (st\<lparr>mt_engine := e, mt_risk := rs, mt_seq := seq, mt_recorder := recorder\<rparr>)
      })"

definition matching_step :: "nat \<Rightarrow> mthread \<Rightarrow> conn_id \<times> command \<Rightarrow> mthread option" where
  "matching_step cap st item = matching_step_via (fst item) cap st item"

text \<open>The inputs of a run: a command received, or one event taken by the market-data thread.\<close>

datatype mt_input = Command_In conn_id command | Market_Out

fun thread_step :: "nat \<Rightarrow> mthread \<Rightarrow> mt_input \<Rightarrow> mthread option" where
  "thread_step cap st (Command_In conn cmd) = matching_step cap st (conn, cmd)"
| "thread_step cap st Market_Out =
     (case mt_market st of
        [] \<Rightarrow> Some st
      | ev # evs \<Rightarrow> Some (st\<lparr>mt_market := evs, mt_taken := mt_taken st @ [ev]\<rparr>))"

fun run_matching :: "nat \<Rightarrow> mthread \<Rightarrow> mt_input list \<Rightarrow> mthread option" where
  "run_matching cap st [] = Some st"
| "run_matching cap st (i # inputs) = do {
     st \<leftarrow> thread_step cap st i;
     run_matching cap st inputs
   }"

definition run_matching_thread :: "nat \<Rightarrow> mt_input list \<Rightarrow> risk_state \<Rightarrow> bytes option \<Rightarrow> mthread option" where
  "run_matching_thread cap inputs rs recorder = run_matching cap (mthread_init rs recorder) inputs"

section \<open>Numbered streams\<close>

text \<open>A list numbered from \<open>n + 1\<close>, as the stream counters do.\<close>

fun number_from :: "u64 \<Rightarrow> 'a list \<Rightarrow> (u64 \<times> 'a) list" where
  "number_from n [] = []"
| "number_from n (x # xs) = (n + 1, x) # number_from (n + 1) xs"

lemma number_from_append: "number_from n (xs @ ys) = number_from n xs @ number_from (n + of_nat (length xs)) ys"
  by (induction xs arbitrary: n) (simp_all add: ac_simps)

lemma map_snd_number [simp]: "map snd (number_from n xs) = xs"
  by (induction xs arbitrary: n) auto

section \<open>Routing over the table as a map\<close>

text \<open>
  What the emit closure does to the table, as a map, and \<^const>\<open>None\<close> when an event would need
  the fallback.
\<close>

fun upd_tab :: "order_key \<Rightarrow> conn_id \<Rightarrow> event \<Rightarrow> (order_key \<rightharpoonup> conn_id) \<Rightarrow> (order_key \<rightharpoonup> conn_id)" where
  "upd_tab i c (Accepted _ _ q) m = (if 0 < q then m(i \<mapsto> c) else m)"
| "upd_tab i c (Filled _ _ _ _ _ q _) m = (if 0 < q then m(i \<mapsto> c) else m(i := None))"
| "upd_tab i c (Cancelled _ _) m = m(i := None)"
| "upd_tab i c (Replaced _ _ _ _) m = m(i \<mapsto> c)"
| "upd_tab i c _ m = m"

definition owner :: "order_key option \<Rightarrow> conn_id \<Rightarrow> (order_key \<rightharpoonup> conn_id) \<Rightarrow> order_key \<rightharpoonup> conn_id" where
  "owner self conn m i = (if Some i = self then Some conn else m i)"

fun track :: "order_key option \<Rightarrow> conn_id \<Rightarrow> (order_key \<rightharpoonup> conn_id) \<Rightarrow> event list \<Rightarrow> (order_key \<rightharpoonup> conn_id) option" where
  "track self conn m [] = Some m"
| "track self conn m (ev # evs) =
     (case event_id ev of
        None \<Rightarrow> track self conn m evs
      | Some i \<Rightarrow> do {
          c \<leftarrow> owner self conn m i;
          track self conn (upd_tab i c ev m) evs
        })"

lemma event_id_None: "event_id ev = None \<longleftrightarrow> is_market_data ev \<or> is_snapshot ev"
  by (cases ev) auto

lemma snapshot_not_market: "is_snapshot ev \<Longrightarrow> \<not> is_market_data ev"
  by (cases ev) auto

lemma hm_get_update_conns: "hm_get (update_conns i c ev conns) = upd_tab i c ev (hm_get conns)"
  by (cases ev) (simp_all add: hm_get_insert hm_get_remove)

lemma track_append:
  "track self conn m (xs @ ys) = Option.bind (track self conn m xs) (\<lambda>m'. track self conn m' ys)"
  by (induction xs arbitrary: m) (auto split: option.splits simp: Option.bind_assoc)

text \<open>When the table never misses, the fallback is irrelevant and the thread cannot panic.\<close>

lemma emit_event_track:
  assumes "track self conn (hm_get (mt_conns st)) (snd x # evs) = Some m"
  shows "\<exists>st'. (\<forall>fb. emit_event cap conn self fb x st = Some st') \<and> track self conn (hm_get (mt_conns st')) evs = Some m \<and>
    mt_engine st' = mt_engine st \<and> mt_risk st' = mt_risk st \<and> mt_seq st' = mt_seq st \<and>
    mt_recorder st' = mt_recorder st \<and>
    (\<exists>c. mt_return st' = mt_return st @ (if is_market_data (snd x) then [] else [(c, x)]))"
proof -
  obtain seq ev where x: "x = (seq, ev)" by fastforce
  show ?thesis
  proof (cases "event_id ev")
    case None
    then have "track self conn (hm_get (mt_conns st)) evs = Some m" using assms x by simp
    then show ?thesis using None x by (auto simp: emit_event_def event_id_None snapshot_not_market)
  next
    case (Some i)
    then obtain c where c: "owner self conn (hm_get (mt_conns st)) i = Some c"
      "track self conn (upd_tab i c ev (hm_get (mt_conns st))) evs = Some m"
      using assms x by (auto simp: bind_eq_Some_iff)
    have nm: "\<not> is_market_data ev" "\<not> is_snapshot ev" using Some event_id_None [of ev] by auto
    have "route_of (mt_conns st) self conn fb i = c" for fb
      using c(1) by (auto simp: route_of_def owner_def split: if_splits)
    then show ?thesis using Some nm c(2) by (auto simp: emit_event_def x hm_get_update_conns)
  qed
qed

lemma emit_all_track:
  assumes "track self conn (hm_get (mt_conns st)) (map snd xs) = Some m"
  shows "\<exists>st'. (\<forall>fb. emit_all cap conn self fb xs st = Some st') \<and> hm_get (mt_conns st') = m \<and>
    mt_engine st' = mt_engine st \<and> mt_risk st' = mt_risk st \<and> mt_seq st' = mt_seq st \<and>
    mt_recorder st' = mt_recorder st \<and>
    (\<exists>routed. mt_return st' = mt_return st @ routed \<and>
       map snd routed = filter (\<lambda>x. \<not> is_market_data (snd x)) xs)"
  using assms
proof (induction xs arbitrary: st)
  case (Cons x xs)
  obtain st1 c where st1: "\<forall>fb. emit_event cap conn self fb x st = Some st1"
    "track self conn (hm_get (mt_conns st1)) (map snd xs) = Some m"
    "mt_engine st1 = mt_engine st" "mt_risk st1 = mt_risk st" "mt_seq st1 = mt_seq st" "mt_recorder st1 = mt_recorder st"
    "mt_return st1 = mt_return st @ (if is_market_data (snd x) then [] else [(c, x)])"
    using emit_event_track [of self conn st x "map snd xs" m cap] Cons.prems by auto
  show ?case using Cons.IH [OF st1(2)] st1(1,3-) by fastforce
qed simp

end
