(* ===== verification/Routing.thy ===== *)
theory Routing
  imports Matching_Thread
begin

text \<open>
  Why routing by the table is right. For every operation of the book, the events it emits,
  read in order, keep the table in step with the resting orders: an order that rests afterwards
  has an entry, the entry of another connection's order is never changed, and the entry of an
  order that a command enters or amends is the connection of that command.
\<close>

section \<open>The sweep\<close>

text \<open>The table before and after a sweep of \<open>rs\<close> by the order \<open>k0\<close>, leaving \<open>rs'\<close>.\<close>

definition swept_tab :: "order_key \<Rightarrow> conn_id \<Rightarrow> rorder list \<Rightarrow> rorder list \<Rightarrow> u64 \<Rightarrow>
    (order_key \<rightharpoonup> conn_id) \<Rightarrow> (order_key \<rightharpoonup> conn_id) \<Rightarrow> bool" where
  "swept_tab k0 conn rs rs' rem' m m' \<longleftrightarrow>
     (\<forall>k. k \<notin> rkey ` set rs \<longrightarrow> k \<noteq> k0 \<longrightarrow> m' k = m k) \<and> (\<forall>k \<in> rkey ` set rs'. m' k = m k) \<and>
     (rem' \<noteq> 0 \<longrightarrow> m' k0 = m k0 \<or> m' k0 = Some conn)"

text \<open>One maker removed: its entry goes, the rest is as the sweep of the others leaves it.\<close>

lemma swept_tab_step:
  assumes "swept_tab k0 conn rs rs' rem' m1 m'" and "rkey ` set rs' \<subseteq> rkey ` set rs"
    and "rkey r \<notin> rkey ` set rs" and "k0 \<notin> rkey ` set rs"
    and "\<And>k. k \<noteq> rkey r \<Longrightarrow> k \<noteq> k0 \<Longrightarrow> m1 k = m k" and "rem' \<noteq> 0 \<Longrightarrow> m1 k0 = m k0 \<or> m1 k0 = Some conn"
  shows "swept_tab k0 conn (r # rs) rs' rem' m m'"
proof -
  have keep: "m1 k = m k" if "k \<in> rkey ` set rs'" for k
  proof (rule assms(5))
    have "k \<in> rkey ` set rs" by (rule subsetD [OF assms(2) that])
    then show "k \<noteq> rkey r" "k \<noteq> k0" using assms(3,4) by metis+
  qed
  show ?thesis
    unfolding swept_tab_def
  proof (intro conjI allI impI ballI)
    show "m' k = m k" if "k \<notin> rkey ` set (r # rs)" "k \<noteq> k0" for k
      using that assms(1) assms(5) [of k] by (cases k) (simp add: swept_tab_def)
    show "m' k = m k" if "k \<in> rkey ` set rs'" for k using that assms(1) keep [of k] by (auto simp: swept_tab_def)
    show "m' k0 = m k0 \<or> m' k0 = Some conn" if "rem' \<noteq> 0" using that assms(1,6) by (auto simp: swept_tab_def)
  qed
qed

text \<open>The two entries a fill may change.\<close>

lemma track_fill:
  assumes "m (rkey r) = Some c" and "rkey r \<noteq> (a, oid)"
  shows "track (Some (a, oid)) conn m (fill_events a oid side (r_account r) (r_id r) p f rem left) =
    Some (m((a, oid) := (if 0 < rem then Some conn else None), rkey r := (if 0 < left then Some c else None)))"
  using assms by (auto simp: fill_events_def owner_def rkey_def)

lemma sweep_track:
  assumes "a_sweep a oid side limit rs lt rem = ((rs', lt', rem'), out)"
    and "distinct (map rkey rs)" and "(a, oid) \<notin> rkey ` set rs" and "rkey ` set rs \<subseteq> dom m"
  shows "\<exists>m'. track (Some (a, oid)) conn m out = Some m' \<and> swept_tab (a, oid) conn rs rs' rem' m m'"
  using assms
proof (induction arbitrary: m rule: a_sweep_induct)
  case (stop rs lt rem)
  then show ?case by (simp add: swept_tab_def)
next
  case (own r rs lt rem rs' lt' rem' out)
  have r: "rkey r \<notin> rkey ` set rs" "rkey r \<noteq> (a, oid)" "(a, oid) \<notin> rkey ` set rs" "distinct (map rkey rs)"
    using own.prems(1,2) by (auto simp: image_iff)
  let ?m = "m(rkey r := None)"
  have "rkey ` set rs \<subseteq> dom ?m" using own.prems(3) r(1) by auto
  then obtain m' where m': "track (Some (a, oid)) conn ?m out = Some m'" "swept_tab (a, oid) conn rs rs' rem' ?m m'"
    using own.IH [OF r(4,3)] by blast
  moreover obtain c where "m (rkey r) = Some c" using own.prems(3) by auto
  then have "track (Some (a, oid)) conn m (Cancelled a (r_id r) # out) = Some m'"
    using m'(1) r(2) own.hyps(3) by (simp add: owner_def rkey_def)
  ultimately show ?case
    using swept_tab_step [OF m'(2) in_priority_keys [OF a_sweep_priority [OF own.hyps(4)]] r(1,3)] r(2) by auto
next
  case (full r rs lt rem rs' lt' rem' out)
  let ?q = "rem - r_qty r"
  have r: "rkey r \<notin> rkey ` set rs" "rkey r \<noteq> (a, oid)" "(a, oid) \<notin> rkey ` set rs" "distinct (map rkey rs)"
    using full.prems(1,2) by (auto simp: image_iff)
  define m1 where "m1 = m((a, oid) := (if 0 < ?q then Some conn else None), rkey r := None)"
  have "rkey ` set rs \<subseteq> dom m1" using full.prems(3) r(1,3) by (auto simp: m1_def)
  then obtain m' where m': "track (Some (a, oid)) conn m1 out = Some m'" "swept_tab (a, oid) conn rs rs' rem' m1 m'"
    using full.IH [OF r(4,3)] by blast
  obtain c where "m (rkey r) = Some c" using full.prems(3) by auto
  from track_fill [where m = m, OF this r(2), of conn side "r_price r" "r_qty r" ?q 0] m'(1)
  have tr: "track (Some (a, oid)) conn m
      (fill_events a oid side (r_account r) (r_id r) (r_price r) (r_qty r) ?q 0 @ out) = Some m'"
    by (simp add: track_append m1_def)
  have "?q \<noteq> 0" if "rem' \<noteq> 0" using a_sweep_conserves [OF full.hyps(5)] that by (auto simp: unat_eq_0)
  then have "m1 (a, oid) = Some conn" if "rem' \<noteq> 0" using that r(2) by (simp add: m1_def word_gt_0)
  then have "swept_tab (a, oid) conn (r # rs) rs' rem' m m'"
    by (intro swept_tab_step [OF m'(2) in_priority_keys [OF a_sweep_priority [OF full.hyps(5)]] r(1,3)])
      (simp_all add: m1_def)
  then show ?case using tr by blast
next
  case (part r rs lt rem)
  have r: "rkey r \<noteq> (a, oid)" using part.prems(2) by auto
  obtain c where c: "m (rkey r) = Some c" using part.prems(3) by auto
  have "0 < r_qty r - rem" using part.hyps(4) by (auto simp: word_gt_0)
  with track_fill [where m = m, OF c r, of conn side "r_price r" rem 0 "r_qty r - rem"] c
  have "track (Some (a, oid)) conn m (fill_events a oid side (r_account r) (r_id r) (r_price r) rem 0 (r_qty r - rem)) =
      Some (m((a, oid) := None))" using r by (simp add: fun_eq_iff)
  moreover have "rkey ` set (r\<lparr>r_qty := r_qty r - rem\<rparr> # rs) = rkey ` set (r # rs)" by (simp add: rkey_def)
  ultimately show ?case using part.prems(2) unfolding swept_tab_def by (metis fun_upd_other)
qed

section \<open>The operations\<close>

fun is_rejected :: "event \<Rightarrow> bool" where
  "is_rejected (Rejected _ _ _) = True"
| "is_rejected _ = False"

definition refused :: "event list \<Rightarrow> bool" where
  "refused out \<longleftrightarrow> list_ex is_rejected out"

lemma refused_simps [simp]:
  "refused [] = False" "refused (ev # out) \<longleftrightarrow> is_rejected ev \<or> refused out"
  "refused (xs @ ys) \<longleftrightarrow> refused xs \<or> refused ys"
  by (simp_all add: refused_def)

definition keys_ok :: "abook \<Rightarrow> bool" where
  "keys_ok ab \<longleftrightarrow> (\<forall>sd. distinct (map rkey (a_orders ab sd)) \<and>
     rkey ` set (a_orders ab sd) \<inter> rkey ` set (a_orders ab (opposite sd)) = {})"

definition tab_ok :: "abook \<Rightarrow> (order_key \<rightharpoonup> conn_id) \<Rightarrow> bool" where
  "tab_ok ab m \<longleftrightarrow> (\<forall>k. a_present ab k \<longrightarrow> m k \<noteq> None)"

lemma tab_okD: "tab_ok ab m \<Longrightarrow> a_present ab k \<Longrightarrow> m k \<noteq> None"
  unfolding tab_ok_def by blast

text \<open>What the events \<open>out\<close> of a command do to the table \<open>m\<close> when \<open>ab'\<close> is the book afterwards.\<close>

definition routed :: "order_key option \<Rightarrow> conn_id \<Rightarrow> (order_key \<rightharpoonup> conn_id) \<Rightarrow> event list \<Rightarrow> abook \<Rightarrow> bool" where
  "routed self conn m out ab' \<longleftrightarrow> (\<exists>m'. track self conn m out = Some m' \<and>
     (\<forall>k. a_present ab' k \<longrightarrow> m' k \<noteq> None \<and> m' k = (if self = Some k \<and> \<not> refused out then Some conn else m k)))"

lemma a_present_side:
  "a_present ab k \<longleftrightarrow> k \<in> rkey ` set (a_orders ab sd) \<or> k \<in> rkey ` set (a_orders ab (opposite sd))"
  by (cases sd) (auto simp: a_present_def)

lemma a_presentI: "r \<in> set (a_orders ab sd) \<Longrightarrow> a_present ab (rkey r)"
  unfolding a_present_side [of _ _ sd] by blast

lemma routedI:
  assumes "track self conn m out = Some m'"
    and "\<And>k. a_present ab' k \<Longrightarrow> self = Some k \<Longrightarrow> \<not> refused out \<Longrightarrow> m' k = Some conn"
    and "\<And>k. a_present ab' k \<Longrightarrow> self \<noteq> Some k \<or> refused out \<Longrightarrow> m' k = m k \<and> m k \<noteq> None"
  shows "routed self conn m out ab'"
  unfolding routed_def
proof (intro exI [of _ m'] conjI allI impI)
  fix k assume k: "a_present ab' k"
  show "m' k \<noteq> None" "m' k = (if self = Some k \<and> \<not> refused out then Some conn else m k)"
    using assms(2,3) [OF k] by (cases "self = Some k \<and> \<not> refused out"; auto)+
qed (rule assms(1))

lemma routed_refuse: "tab_ok ab m \<Longrightarrow> routed (Some (a, oid)) conn m [Rejected a oid r] ab"
  by (rule routedI [of _ _ _ _ m]) (auto simp: owner_def tab_ok_def)

lemma sweep_not_refused: "a_sweep a oid side limit rs lt rem = ((rs', lt', rem'), out) \<Longrightarrow> \<not> refused out"
  by (induction a oid side limit rs lt rem arbitrary: out rule: a_sweep.induct)
    (auto simp: Let_def fill_events_def split: if_splits prod.splits)

lemma match_track:
  assumes mt: "a_match ab a oid side p q = ((ab', rem), out)"
    and ks: "keys_ok ab" and tab: "tab_ok ab m" and new: "\<not> a_present ab (a, oid)"
  shows "\<exists>m'. track (Some (a, oid)) conn m out = Some m' \<and> (\<forall>k. a_present ab' k \<longrightarrow> a_present ab k \<and> m' k = m k) \<and>
    (rem \<noteq> 0 \<longrightarrow> m' (a, oid) = m (a, oid) \<or> m' (a, oid) = Some conn) \<and> \<not> refused out"
proof -
  let ?rs = "a_orders ab (opposite side)"
  obtain rs lt where sw: "a_sweep a oid side p ?rs (a_last ab) q = ((rs, lt, rem), out)"
    and ab': "a_orders ab' = (a_orders ab)(opposite side := rs)"
    using mt by (auto simp: a_match_def split: prod.splits)
  have pres: "a_present ab k" if "k \<in> rkey ` set ?rs" for k using that by (simp add: a_present_side [of ab k side])
  have d: "distinct (map rkey ?rs)" "(a, oid) \<notin> rkey ` set ?rs"
    using ks new pres [of "(a, oid)"] unfolding keys_ok_def by blast+
  have "m k \<noteq> None" if "k \<in> rkey ` set ?rs" for k using tab pres [OF that] unfolding tab_ok_def by blast
  then have dm: "rkey ` set ?rs \<subseteq> dom m" by (intro subsetI) (rule domIff [THEN iffD2])
  obtain m' where m': "track (Some (a, oid)) conn m out = Some m'" "swept_tab (a, oid) conn ?rs rs rem m m'"
    using sweep_track [OF sw d dm] by blast
  have sub: "rkey ` set rs \<subseteq> rkey ` set ?rs" using in_priority_keys [OF a_sweep_priority [OF sw]] .
  have "a_present ab k \<and> m' k = m k" if k: "a_present ab' k" for k
  proof -
    have "k \<in> rkey ` set (a_orders ab side) \<or> k \<in> rkey ` set rs"
      using k by (simp add: a_present_side [of ab' k side] ab')
    then show ?thesis
    proof
      assume s: "k \<in> rkey ` set (a_orders ab side)"
      then have "a_present ab k" by (simp add: a_present_side [of ab k side])
      moreover have "k \<notin> rkey ` set ?rs" using s ks unfolding keys_ok_def by blast
      moreover have "k \<noteq> (a, oid)" using calculation(1) new by metis
      ultimately show ?thesis using m'(2) unfolding swept_tab_def by metis
    next
      assume "k \<in> rkey ` set rs"
      then show ?thesis using m'(2) sub a_present_side [of ab k side] unfolding swept_tab_def by blast
    qed
  qed
  then show ?thesis using m' sweep_not_refused [OF sw] unfolding swept_tab_def by metis
qed

lemma a_present_add: "a_present (a_add side r ab) k \<longleftrightarrow> k = rkey r \<or> a_present ab k"
  unfolding a_present_side [of _ k side] by (auto simp: a_add_def)

lemma rkey_order_for [simp]: "rkey (order_for a oid p q) = (a, oid)"
  by (simp add: rkey_def order_for_def)

lemma accepted_track:
  "track (Some (a, oid)) conn m [Accepted a oid q] = Some (if 0 < q then m((a, oid) \<mapsto> conn) else m)"
  by (simp add: owner_def)

lemma gtc_routed:
  assumes ks: "keys_ok ab" and tab: "tab_ok ab m"
  shows "routed (Some (a, oid)) conn m (snd (a_submit_gtc ab a oid side p q)) (fst (a_submit_gtc ab a oid side p q))"
proof (cases "a_present ab (a, oid)")
  case True
  then show ?thesis using routed_refuse [OF tab] by (simp add: a_submit_gtc_def)
next
  case False
  obtain ab' rem out where mt: "a_match ab a oid side p q = ((ab', rem), out)" by (metis prod.exhaust)
  obtain m' where m': "track (Some (a, oid)) conn m out = Some m'" "\<And>k. a_present ab' k \<Longrightarrow> a_present ab k \<and> m' k = m k"
    using match_track [OF mt ks tab False] by metis
  have t: "track (Some (a, oid)) conn m (out @ [Accepted a oid rem]) = Some (if 0 < rem then m'((a, oid) \<mapsto> conn) else m')"
    using m'(1) by (simp only: track_append accepted_track Option.bind.simps)
  have nz: "0 < rem \<longleftrightarrow> rem \<noteq> 0" by (simp add: word_neq_0_conv)
  have "routed (Some (a, oid)) conn m (out @ [Accepted a oid rem])
      (if rem = 0 then ab' else a_add side (order_for a oid p rem) ab')"
  proof (rule routedI [OF t])
    fix k assume k: "a_present (if rem = 0 then ab' else a_add side (order_for a oid p rem) ab') k"
    show "(if 0 < rem then m'((a, oid) \<mapsto> conn) else m') k = Some conn" if "Some (a, oid) = Some k"
      using k that m'(2) [of k] False nz by (auto simp: a_present_add split: if_splits)
    show "(if 0 < rem then m'((a, oid) \<mapsto> conn) else m') k = m k \<and> m k \<noteq> None"
      if "Some (a, oid) \<noteq> Some k \<or> refused (out @ [Accepted a oid rem])"
    proof -
      have ne: "k \<noteq> (a, oid)" using that match_track [OF mt ks tab False] by auto
      then have "a_present ab' k" using k by (simp add: a_present_add split: if_splits)
      then show ?thesis using ne m'(2) [of k] tab_okD [OF tab, of k] by simp
    qed
  qed
  then show ?thesis using False mt by (simp add: a_submit_gtc_def)
qed

text \<open>IOC, FOK and market orders: match, then report.\<close>

lemma matched_routed:
  assumes "a_match ab a oid side p q = ((ab', rem), out)" and ks: "keys_ok ab" and tab: "tab_ok ab m"
    and new: "\<not> a_present ab (a, oid)"
  shows "routed (Some (a, oid)) conn m (out @ [Accepted a oid 0]) ab'"
proof -
  obtain m' where m': "track (Some (a, oid)) conn m out = Some m'" "\<And>k. a_present ab' k \<Longrightarrow> a_present ab k \<and> m' k = m k"
    using match_track [OF assms] by metis
  have t: "track (Some (a, oid)) conn m (out @ [Accepted a oid 0]) = Some m'"
    using m'(1) by (simp add: track_append owner_def)
  show ?thesis
  proof (rule routedI [OF t])
    show "m' k = Some conn" if "a_present ab' k" "Some (a, oid) = Some k" for k
      using m'(2) [OF that(1)] that(2) new by simp
    show "m' k = m k \<and> m k \<noteq> None" if "a_present ab' k" for k
      using m'(2) [OF that] tab_okD [OF tab, of k] by simp
  qed
qed

lemma ioc_fok_routed:
  assumes ks: "keys_ok ab" and tab: "tab_ok ab m"
  shows "routed (Some (a, oid)) conn m (snd (a_submit_ioc ab a oid side p q)) (fst (a_submit_ioc ab a oid side p q))"
    and "routed (Some (a, oid)) conn m (snd (a_submit_fok ab a oid side p q)) (fst (a_submit_fok ab a oid side p q))"
  using routed_refuse [OF tab, of a oid conn] matched_routed [OF _ ks tab, of a oid side p q _ _ _ conn]
  by (auto simp: a_submit_ioc_def a_submit_fok_def split: prod.splits)

lemma cancels_track:
  assumes "distinct ks" and "\<forall>k \<in> set ks. m k \<noteq> None \<and> self \<noteq> Some k"
  shows "track self conn m (map (\<lambda>k. Cancelled (fst k) (snd k)) ks) = Some (\<lambda>k. if k \<in> set ks then None else m k)"
  using assms
proof (induction ks arbitrary: m)
  case (Cons k ks)
  obtain c where c: "m k = Some c" using Cons.prems(2) by auto
  have "track self conn (m(k := None)) (map (\<lambda>k. Cancelled (fst k) (snd k)) ks) =
      Some (\<lambda>k'. if k' \<in> set ks then None else (m(k := None)) k')"
  proof (rule Cons.IH)
    show "\<forall>k' \<in> set ks. (m(k := None)) k' \<noteq> None \<and> self \<noteq> Some k'" using Cons.prems by auto
  qed (use Cons.prems(1) in simp)
  moreover have "(\<lambda>k'. if k' \<in> set ks then None else (m(k := None)) k') = (\<lambda>k'. if k' \<in> set (k # ks) then None else m k')"
    by auto
  ultimately show ?case using c Cons.prems(2) by (cases k) (auto simp: owner_def)
qed simp

lemma postonly_routed:
  assumes ks: "keys_ok ab" and tab: "tab_ok ab m" and q: "q \<noteq> 0"
  shows "routed (Some (a, oid)) conn m (snd (a_submit_postonly ab a oid side p q))
    (fst (a_submit_postonly ab a oid side p q))"
proof (cases "a_present ab (a, oid)")
  case True
  then show ?thesis using routed_refuse [OF tab] by (simp add: a_submit_postonly_def)
next
  case False
  let ?rs = "a_orders ab (opposite side)"
  obtain rs cross out where st: "a_stp a side p ?rs = ((rs, cross), out)" by (metis prod.exhaust)
  obtain own where own: "?rs = own @ rs" "\<forall>r \<in> set own. r_account r = a"
    and out: "out = map (\<lambda>r. Cancelled a (r_id r)) own" using a_stp_shrinks [OF st] by auto
  let ?ks = "map rkey own" and ?ab = "ab\<lparr>a_orders := (a_orders ab)(opposite side := rs)\<rparr>"
  define m' where "m' = (\<lambda>k. if k \<in> set ?ks then None else m k)"
  have out': "out = map (\<lambda>k. Cancelled (fst k) (snd k)) ?ks" using own(2) by (simp add: out rkey_def)
  have d: "distinct (map rkey own)" "rkey ` set own \<inter> rkey ` set rs = {}"
    "rkey ` set own \<inter> rkey ` set (a_orders ab side) = {}"
    using ks own(1) unfolding keys_ok_def by (metis distinct_append map_append set_map, metis distinct_append map_append set_map,
      metis Int_commute Int_Un_distrib Un_empty image_Un opposite_opposite set_append)
  have old: "a_present ab k" if "k \<in> rkey ` set own" for k
    using that own(1) by (auto simp: a_present_side [of ab k side])
  have t: "track (Some (a, oid)) conn m out = Some m'"
    unfolding out' m'_def
  proof (rule cancels_track [OF d(1)], intro ballI conjI)
    fix k assume "k \<in> set ?ks"
    then have "a_present ab k" using old by simp
    then show "m k \<noteq> None" "Some (a, oid) \<noteq> Some k" using tab_okD [OF tab, of k] False by (blast, metis option.inject)
  qed
  have keep: "a_present ab k \<and> m' k = m k" if "a_present ?ab k" for k
    using that d(2,3) own(1) by (auto simp: a_present_side [of _ k side] m'_def)
  have nr: "\<not> refused out" unfolding out by (simp add: refused_def list_ex_iff)
  show ?thesis
  proof (cases cross)
    case True
    have "routed (Some (a, oid)) conn m (out @ [Rejected a oid WouldCross]) ?ab"
    proof (rule routedI)
      show "track (Some (a, oid)) conn m (out @ [Rejected a oid WouldCross]) = Some m'"
        using t by (simp add: track_append owner_def)
      show "m' k = m k \<and> m k \<noteq> None" if "a_present ?ab k" for k using keep [OF that] tab_okD [OF tab, of k] by simp
    qed (simp add: nr)
    then show ?thesis using False st True by (simp add: a_submit_postonly_def Let_def)
  next
    case nc: False
    have "routed (Some (a, oid)) conn m (out @ [Accepted a oid q]) (a_add side (order_for a oid p q) ?ab)"
    proof (rule routedI)
      show "track (Some (a, oid)) conn m (out @ [Accepted a oid q]) = Some (m'((a, oid) \<mapsto> conn))"
        using t q by (simp only: track_append accepted_track Option.bind.simps) (simp add: word_neq_0_conv)
      fix k assume k: "a_present (a_add side (order_for a oid p q) ?ab) k"
      show "(m'((a, oid) \<mapsto> conn)) k = Some conn" if "Some (a, oid) = Some k" using that by simp
      show "(m'((a, oid) \<mapsto> conn)) k = m k \<and> m k \<noteq> None"
        if "Some (a, oid) \<noteq> Some k \<or> refused (out @ [Accepted a oid q])"
      proof -
        have ne: "k \<noteq> (a, oid)" using that nr by auto
        then have "a_present ?ab k" using k by (simp add: a_present_add)
        then show ?thesis using ne keep [of k] tab_okD [OF tab, of k] by simp
      qed
    qed
    then show ?thesis using False st nc by (simp add: a_submit_postonly_def Let_def)
  qed
qed

lemma a_present_drop: "a_present (a_drop k0 ab) k \<longleftrightarrow> a_present ab k \<and> k \<noteq> k0"
  by (auto simp: a_present_def a_drop_def drop_key_def)

lemma keys_ok_drop: "keys_ok ab \<Longrightarrow> keys_ok (a_drop k ab)"
  unfolding keys_ok_def a_drop_def drop_key_def by (auto simp: distinct_map_filter)

lemma cancel_routed:
  assumes tab: "tab_ok ab m"
  shows "routed (Some (a, oid)) conn m (snd (a_cancel ab a oid)) (fst (a_cancel ab a oid))"
proof (cases "a_present ab (a, oid)")
  case True
  have "routed (Some (a, oid)) conn m [Cancelled a oid] (a_drop (a, oid) ab)"
  proof (rule routedI)
    show "track (Some (a, oid)) conn m [Cancelled a oid] = Some (m((a, oid) := None))" by (simp add: owner_def)
    fix k assume "a_present (a_drop (a, oid) ab) k"
    then have k: "a_present ab k" "k \<noteq> (a, oid)" by (simp_all add: a_present_drop)
    then show "(m((a, oid) := None)) k = m k \<and> m k \<noteq> None" using tab_okD [OF tab k(1)] by simp
    show "(m((a, oid) := None)) k = Some conn" if "Some (a, oid) = Some k" using that k(2) by simp
  qed
  then show ?thesis using True by (simp add: a_cancel_def)
next
  case False
  then show ?thesis using routed_refuse [OF tab] by (simp add: a_cancel_def)
qed

lemma modify_routed:
  assumes ks: "keys_ok ab" and tab: "tab_ok ab m"
  shows "routed (Some (a, oid)) conn m (snd (a_modify ab a oid p q)) (fst (a_modify ab a oid p q))"
proof (cases "q = 0 \<or> a_find ab (a, oid) = None")
  case True
  then show ?thesis using routed_refuse [OF tab] by (auto simp: a_modify_def)
next
  case False
  then obtain sd r where f: "a_find ab (a, oid) = Some (sd, r)" by auto
  let ?m = "m((a, oid) \<mapsto> conn)"
  show ?thesis
  proof (cases "p = r_price r \<and> q \<le> r_qty r")
    case True
    let ?ab = "ab\<lparr>a_orders := \<lambda>s. set_qty (a, oid) q (a_orders ab s)\<rparr>"
    have "rkey ` set (set_qty k q rs) = rkey ` set rs" for k rs
      unfolding set_qty_def set_map image_image by (intro image_cong) (simp_all add: rkey_def)
    then have same: "a_present ?ab k \<longleftrightarrow> a_present ab k" for k by (simp add: a_present_def image_Un)
    have "routed (Some (a, oid)) conn m [Replaced a oid q True] ?ab"
    proof (rule routedI)
      show "track (Some (a, oid)) conn m [Replaced a oid q True] = Some ?m" by (simp add: owner_def)
      fix k assume "a_present ?ab k"
      then have "m k \<noteq> None" using tab_okD [OF tab] same by blast
      then show "?m k = m k \<and> m k \<noteq> None" if "Some (a, oid) \<noteq> Some k \<or> refused [Replaced a oid q True]"
        using that by simp
    qed simp
    then show ?thesis using False f True by (simp add: a_modify_def)
  next
    case reprice: False
    let ?ab = "a_drop (a, oid) ab"
    obtain ab' rem out where mt: "a_match ?ab a oid sd p q = ((ab', rem), out)" by (metis prod.exhaust)
    have "tab_ok ?ab ?m" unfolding tab_ok_def
      using tab_okD [OF tab] by (metis a_present_drop fun_upd_other)
    moreover have "\<not> a_present ?ab (a, oid)" by (simp add: a_present_drop)
    ultimately obtain m' where m': "track (Some (a, oid)) conn ?m out = Some m'"
      "\<And>k. a_present ab' k \<Longrightarrow> a_present ?ab k \<and> m' k = ?m k" "rem \<noteq> 0 \<Longrightarrow> m' (a, oid) = Some conn" "\<not> refused out"
      using match_track [OF mt keys_ok_drop [OF ks], of ?m conn] by (metis fun_upd_same)
    have "routed (Some (a, oid)) conn m (Replaced a oid q False # out)
        (if rem = 0 then ab' else a_add sd (order_for a oid p rem) ab')"
    proof (rule routedI)
      show "track (Some (a, oid)) conn m (Replaced a oid q False # out) = Some m'" using m'(1) by (simp add: owner_def)
      fix k assume k: "a_present (if rem = 0 then ab' else a_add sd (order_for a oid p rem) ab') k"
      show "m' k = Some conn" if "Some (a, oid) = Some k"
        using k that m'(2) [of k] m'(3) by (auto simp: a_present_add a_present_drop split: if_splits)
      show "m' k = m k \<and> m k \<noteq> None" if "Some (a, oid) \<noteq> Some k \<or> refused (Replaced a oid q False # out)"
      proof -
        have ne: "k \<noteq> (a, oid)" using that m'(4) by auto
        then have "a_present ab' k" using k by (simp add: a_present_add split: if_splits)
        then show ?thesis using ne m'(2) [of k] tab_okD [OF tab, of k] by (simp add: a_present_drop)
      qed
    qed
    then show ?thesis using False f reprice mt by (auto simp: a_modify_def)
  qed
qed

section \<open>A whole command\<close>

lemma keys_ok_abs: "book_inv b \<Longrightarrow> keys_ok (abs_book b)"
proof -
  assume "book_inv b"
  then have rep: "book_rep b (queue_of b)" by (simp add: book_inv_def)
  have "rkey ` set (resting b sd) \<inter> rkey ` set (resting b (opposite sd)) = {}" for sd
    unfolding disjoint_iff using resting_keys_disjoint(1) [OF rep] by (metis imageE opposite_neq(2))
  then show ?thesis unfolding keys_ok_def abs_book_simps using resting_keys_distinct [OF rep] by blast
qed

lemma mass_cancel_routed:
  assumes inv: "book_inv b" and tab: "tab_ok (abs_book b) m" and mc: "mass_cancel b a = Some (b', out)"
  shows "routed None conn m out (abs_book b')"
proof -
  obtain ids where out: "out = map (Cancelled a) ids" and ids: "mset ids = mset (map r_id (orders_of b a))"
    and res: "resting b' = (\<lambda>sd. filter (\<lambda>r. r_account r \<noteq> a) (resting b sd))"
    using mass_cancel_spec [OF inv, of a] mc by auto
  let ?ks = "map (Pair a) ids"
  have "mset (map (Pair a) ids) = mset (map (\<lambda>r. (a, r_id r)) (orders_of b a))"
    using arg_cong [OF ids, of "image_mset (Pair a)"] by (simp add: image_mset.compositionality comp_def)
  also have "map (\<lambda>r. (a, r_id r)) (orders_of b a) = map rkey (orders_of b a)" by (auto simp: orders_of_def rkey_def)
  finally have ms: "mset ?ks = mset (map rkey (orders_of b a))" .
  have "distinct (map rkey (resting b Buy @ resting b Sell))"
    using keys_ok_abs [OF inv] unfolding keys_ok_def abs_book_simps map_append distinct_append set_map
    by (metis opposite.simps(1))
  then have "distinct (map rkey (orders_of b a))" unfolding orders_of_def by (rule distinct_map_filter)
  then have d: "distinct ?ks" using mset_eq_imp_distinct_iff [OF ms] by blast
  have set: "k \<in> set ?ks \<longleftrightarrow> a_present (abs_book b) k \<and> fst k = a" for k
  proof -
    have "set ?ks = rkey ` set (orders_of b a)" using mset_eq_setD [OF ms] by simp
    then show ?thesis by (auto simp: orders_of_def a_present_def rkey_def)
  qed
  have dm: "\<forall>k \<in> set ?ks. m k \<noteq> None \<and> None \<noteq> Some k" using tab_okD [OF tab] set by blast
  have out': "out = map (\<lambda>k. Cancelled (fst k) (snd k)) ?ks" by (simp add: out)
  have t: "track None conn m out = Some (\<lambda>k. if k \<in> set ?ks then None else m k)"
    unfolding out' by (rule cancels_track [OF d dm])
  show ?thesis
  proof (rule routedI [OF t])
    fix k assume "a_present (abs_book b') k"
    then have "a_present (abs_book b) k" "fst k \<noteq> a" by (auto simp: a_present_def res rkey_def)
    then show "(if k \<in> set ?ks then None else m k) = m k \<and> m k \<noteq> None" using set [of k] tab_okD [OF tab, of k] by simp
  qed simp
qed

lemma routed_silent:
  assumes "tab_ok ab m" and "\<forall>ev \<in> set out. event_id ev = None"
  shows "routed None conn m out ab"
proof (rule routedI)
  show "track None conn m out = Some m" using assms(2) by (induction out) auto
qed (use tab_okD [OF assms(1)] in auto)

lemma dispatch_routed:
  assumes inv: "engine_inv e" and ok: "command_ok cmd" and room: "book_room (engine_book e)"
    and tab: "tab_ok (abs_book (engine_book e)) m" and d: "dispatch (engine_book e) cmd = Some (b', out)"
  shows "routed (command_self_id cmd) conn m out (abs_book b')"
proof -
  let ?b = "engine_book e"
  have bi: "book_inv ?b" and pr: "prices_ok ?b" using inv by (simp_all add: engine_inv_def)
  note ks = keys_ok_abs [OF bi]
  show ?thesis
  proof (cases cmd)
    case (NewOrder a oid side p q kind tif ts)
    have q: "q \<noteq> 0" using ok NewOrder by (simp add: command_ok_def)
    have "abs_book b' = fst r \<and> out = snd r" if "refines ?b (dispatch ?b cmd) r" for r
      using refines_abs [OF that d] .
    then show ?thesis
      using submit_market_refines [OF bi, of a oid side q] submit_gtc_refines [OF bi room, of a oid side p q]
        submit_ioc_refines [OF bi, of a oid side p q] submit_fok_refines [OF bi, of a oid side p q]
        submit_postonly_refines [OF bi room q, of a oid side p]
        gtc_routed [OF ks tab, of a oid conn side p q] postonly_routed [OF ks tab q, of a oid conn side p]
        ioc_fok_routed [OF ks tab, of a oid conn side p q] ioc_fok_routed(1) [OF ks tab, of a oid conn side "market_bound side" q]
      by (cases kind; cases tif) (auto simp: NewOrder dispatch_def command_self_id_def)
  next
    case (CancelOrder a oid)
    then show ?thesis using refines_abs [OF cancel_refines [OF bi], of a oid] d cancel_routed [OF tab, of a oid conn]
      by (simp add: dispatch_def command_self_id_def)
  next
    case (CancelReplace a oid p q)
    then show ?thesis using refines_abs [OF modify_refines [OF bi], of a oid p q] d modify_routed [OF ks tab, of a oid conn p q]
      by (simp add: dispatch_def command_self_id_def)
  next
    case (MassCancel a)
    then show ?thesis using mass_cancel_routed [OF bi tab] d by (simp add: dispatch_def command_self_id_def)
  next
    case (KillSwitch g)
    then show ?thesis using d routed_silent [OF tab, of "[]"] by (simp add: dispatch_def command_self_id_def)
  next
    case Snapshot
    then have "b' = ?b" "\<forall>ev \<in> set out. event_id ev = None"
      using snapshot_spec [OF bi pr] d by (auto simp: dispatch_def level_event_def)
    then show ?thesis using Snapshot routed_silent [OF tab] by (simp add: command_self_id_def)
  qed
qed

lemma reject_self_id:
  assumes "pre_apply_check rs cmd b = (rs', Some r)"
  shows "\<exists>a oid reason. r = Rejected a oid reason \<and> command_self_id cmd = Some (a, oid)"
  using assms
  by (cases cmd) (auto simp: pre_apply_check_def kill_switch_check_def new_order_check_def command_self_id_def Let_def
      split: option.splits if_splits)

lemma routed_update: "routed self conn m out ab \<Longrightarrow> routed self conn m (out @ [BookUpdate x y]) ab"
  unfolding routed_def by (auto simp: track_append)

lemma process_routed:
  assumes inv: "engine_inv e" and ok: "command_ok cmd" and room: "book_room (engine_book e)"
    and tab: "tab_ok (abs_book (engine_book e)) m"
    and p: "process_command e rs cmd seq = Some ((e', rs', seq'), out)"
  shows "routed (command_self_id cmd) conn m (map snd out) (abs_book (engine_book e'))"
  using p
proof (cases rule: process_commandE)
  case (rejected r)
  then show ?thesis using reject_self_id [OF rejected(1)] routed_refuse [OF tab] by auto
next
  case (applied evs)
  obtain out' where d: "dispatch (engine_book e) cmd = Some (engine_book e', out')"
    and evs: "evs = out' \<or> (\<exists>x y. evs = out' @ [BookUpdate x y])"
    using applied(2) by (auto simp: engine_apply_def Let_def bind_eq_Some_iff)
  have "map snd out = evs" by (simp add: applied(4) comp_def)
  then show ?thesis using dispatch_routed [OF inv ok room tab d, of conn] evs routed_update by auto
qed

section \<open>The matching thread\<close>

definition thread_inv :: "mthread \<Rightarrow> bool" where
  "thread_inv st \<longleftrightarrow> engine_inv (mt_engine st) \<and>
     tab_ok (abs_book (engine_book (mt_engine st))) (hm_get (mt_conns st))"

definition thread_slots :: "mthread \<Rightarrow> nat" where
  "thread_slots st = slot_count (engine_book (mt_engine st))"

lemma record_command_bytes:
  "record_command cmd recorder = Some (map_option (\<lambda>w. w @ command_bytes cmd) recorder)"
proof -
  have len: "MAX_MESSAGE_LEN \<le> length (replicate MAX_MESSAGE_LEN (0 :: u8))" by simp
  show ?thesis using encode_command_layout [OF len, of cmd] by (cases recorder) (simp_all add: record_command_def)
qed

text \<open>Everything one received command does to the thread.\<close>

lemma matching_step_spec:
  assumes inv: "thread_inv st" and ok: "command_ok cmd" and room: "thread_slots st < 2 ^ 32 - 1"
  obtains e rs seq out st' where
    "process_command (mt_engine st) (mt_risk st) cmd (mt_seq st) = Some ((e, rs, seq), out)"
    and "\<And>fb. matching_step_via fb cap st (conn, cmd) = Some st'" and "thread_inv st'"
    and "thread_slots st' \<le> Suc (thread_slots st)"
    and "mt_engine st' = e" and "mt_risk st' = rs" and "mt_seq st' = seq"
    and "mt_recorder st' = map_option (\<lambda>w. w @ command_bytes cmd) (mt_recorder st)"
    and "\<exists>routed. mt_return st' = mt_return st @ routed \<and> map snd routed = filter (\<lambda>x. \<not> is_market_data (snd x)) out"
    and "\<And>k. a_present (abs_book (engine_book e)) k \<Longrightarrow> hm_get (mt_conns st') k =
      (if command_self_id cmd = Some k \<and> \<not> refused (map snd out) then Some conn else hm_get (mt_conns st) k)"
proof -
  have e: "engine_inv (mt_engine st)" "tab_ok (abs_book (engine_book (mt_engine st))) (hm_get (mt_conns st))"
    "book_room (engine_book (mt_engine st))"
    using inv room by (auto simp: thread_inv_def thread_slots_def intro: book_room_slots)
  obtain e' rs seq out where p: "process_command (mt_engine st) (mt_risk st) cmd (mt_seq st) = Some ((e', rs, seq), out)"
    and e': "engine_inv e'" "slot_count (engine_book e') \<le> Suc (slot_count (engine_book (mt_engine st)))"
    using process_returns [OF e(1) ok e(3)] by blast
  obtain m where m: "track (command_self_id cmd) conn (hm_get (mt_conns st)) (map snd out) = Some m"
    "\<And>k. a_present (abs_book (engine_book e')) k \<Longrightarrow> m k \<noteq> None \<and> m k =
      (if command_self_id cmd = Some k \<and> \<not> refused (map snd out) then Some conn else hm_get (mt_conns st) k)"
    using process_routed [OF e(1) ok e(3,2) p, of conn] unfolding routed_def by blast
  let ?st = "st\<lparr>mt_engine := e', mt_risk := rs, mt_seq := seq,
    mt_recorder := map_option (\<lambda>w. w @ command_bytes cmd) (mt_recorder st)\<rparr>"
  have "track (command_self_id cmd) conn (hm_get (mt_conns ?st)) (map snd out) = Some m" using m(1) by simp
  from emit_all_track [OF this, of cap] obtain st' where st': "\<forall>fb. emit_all cap conn (command_self_id cmd) fb out ?st = Some st'"
    "hm_get (mt_conns st') = m" "mt_engine st' = e'" "mt_risk st' = rs" "mt_seq st' = seq"
    "mt_recorder st' = map_option (\<lambda>w. w @ command_bytes cmd) (mt_recorder st)"
    "\<exists>routed. mt_return st' = mt_return st @ routed \<and> map snd routed = filter (\<lambda>x. \<not> is_market_data (snd x)) out"
    by auto
  show ?thesis
  proof (rule that [OF p])
    show "matching_step_via fb cap st (conn, cmd) = Some st'" for fb
      using p st'(1) by (simp add: matching_step_via_def record_command_bytes)
    show "thread_inv st'" using e'(1) m(2) st'(2,3) unfolding thread_inv_def tab_ok_def by metis
    show "thread_slots st' \<le> Suc (thread_slots st)" using e'(2) st'(3) by (simp add: thread_slots_def)
    show "hm_get (mt_conns st') k =
      (if command_self_id cmd = Some k \<and> \<not> refused (map snd out) then Some conn else hm_get (mt_conns st) k)"
      if "a_present (abs_book (engine_book e')) k" for k using m(2) [OF that] st'(2) by simp
  qed (use st' in simp_all)
qed

text \<open>The thread is a command-driven machine.\<close>

definition machine_step :: "nat \<Rightarrow> mthread \<Rightarrow> mt_input \<Rightarrow> (mthread \<times> unit list) option" where
  "machine_step cap st i = map_option (\<lambda>st'. (st', [])) (thread_step cap st i)"

fun input_ok :: "mt_input \<Rightarrow> bool" where
  "input_ok (Command_In conn cmd) = command_ok cmd"
| "input_ok Market_Out = True"

lemma run_machine_step: "run_matching cap st inputs = map_option fst (run (machine_step cap) st inputs)"
proof (induction inputs arbitrary: st)
  case (Cons i inputs)
  then show ?case by (cases "thread_step cap st i")
      (auto simp: machine_step_def map_option_bind bind_eq_None_conv option.map_comp comp_def
        split: option.splits prod.splits)
qed simp

lemma machine_step_returns:
  assumes inv: "thread_inv st" and ok: "input_ok i" and room: "thread_slots st < 2 ^ 32 - 1"
  shows "\<exists>st' out. machine_step cap st i = Some (st', out) \<and> thread_inv st' \<and> thread_slots st' \<le> Suc (thread_slots st)"
proof (cases i)
  case (Command_In conn cmd)
  then have "command_ok cmd" using ok by simp
  with inv room obtain st' where "matching_step_via conn cap st (conn, cmd) = Some st'" "thread_inv st'"
    "thread_slots st' \<le> Suc (thread_slots st)"
    by (metis matching_step_spec [of st cmd cap conn])
  then show ?thesis using Command_In by (simp add: machine_step_def matching_step_def)
next
  case Market_Out
  then show ?thesis using inv by (auto simp: machine_step_def thread_inv_def thread_slots_def split: list.split)
qed

interpretation tm: machine "machine_step cap" thread_inv input_ok thread_slots "2 ^ 32 - 1" for cap
  by unfold_locales (rule machine_step_returns)

lemma thread_inv_init: "thread_inv (mthread_init rs recorder)"
  by (simp add: thread_inv_def mthread_init_def engine_inv_new tab_ok_def a_present_def engine_new_def)
    (simp add: engine_new_def [symmetric] engine_inv_new)

lemma run_matching_returns:
  assumes "\<forall>i \<in> set inputs. input_ok i" and "length inputs < 2 ^ 32"
  shows "\<exists>st. run_matching_thread cap inputs rs recorder = Some st \<and> thread_inv st \<and> thread_slots st \<le> length inputs"
proof -
  have z: "thread_slots (mthread_init rs recorder) = 0"
    by (simp add: thread_slots_def mthread_init_def engine_new_def book_new_def arena_new_def)
  then have "thread_slots (mthread_init rs recorder) + length inputs \<le> 2 ^ 32 - 1" using assms(2) by simp
  from tm.run_returns [OF thread_inv_init assms(1) this, of cap] z show ?thesis
    by (auto simp: run_matching_thread_def run_machine_step)
qed

end
