(* ===== verification/Replay.thy ===== *)
theory Replay
  imports Routing Risk_Config "HOL-Library.Sublist"
begin

text \<open>
  Deterministic replay (\<open>bin/src/replay.rs\<close> and \<open>bin/src/bin/replay.rs\<close>): decode a
  recording, run it through \<open>process_command\<close> on a fresh engine, number the two output
  streams, and write them as wire bytes. The contents of the two files are arguments.
\<close>

section \<open>replay\_file\<close>

record replay_output =
  execution_reports :: "(stream_seq \<times> engine_seq \<times> event) list"
  market_data :: "(stream_seq \<times> event) list"
  last_trade :: "price option"

text \<open>The three error messages.\<close>

datatype replay_error =
    Failed_To_Read
  | Unrecognized_Tag reject_reason
  | Malformed_Command reject_reason

text \<open>The closure given to \<open>drain_frames\<close>: collect the commands and the first decoding error.\<close>

fun decode_frames :: "bytes list \<Rightarrow> command list \<Rightarrow> reject_reason option \<Rightarrow> (command list \<times> reject_reason option) option" where
  "decode_frames [] commands decode_error = Some (commands, decode_error)"
| "decode_frames (frame # frames) commands decode_error = do {
     r \<leftarrow> decode_command frame;
     (case r of
        Inr cmd \<Rightarrow> decode_frames frames (commands @ [cmd]) decode_error
      | Inl reason \<Rightarrow> decode_frames frames commands
          (case decode_error of None \<Rightarrow> Some reason | Some e \<Rightarrow> Some e))
   }"

record replay_state =
  rp_engine :: engine
  rp_risk :: risk_state
  rp_seq :: engine_seq
  rp_reports :: "(stream_seq \<times> engine_seq \<times> event) list"
  rp_market :: "(stream_seq \<times> event) list"
  rp_exec_seq :: u64
  rp_md_seq :: u64

definition replay_init :: "risk_config \<Rightarrow> replay_state" where
  "replay_init cfg = \<lparr>rp_engine = engine_new, rp_risk = risk_state_new cfg, rp_seq = 0,
     rp_reports = [], rp_market = [], rp_exec_seq = 0, rp_md_seq = 0\<rparr>"

definition replay_emit :: "replay_state \<Rightarrow> engine_seq \<times> event \<Rightarrow> replay_state" where
  "replay_emit st x =
     (let (seq, ev) = x in
      if is_market_data ev
      then st\<lparr>rp_md_seq := rp_md_seq st + 1, rp_market := rp_market st @ [(rp_md_seq st + 1, ev)]\<rparr>
      else st\<lparr>rp_exec_seq := rp_exec_seq st + 1, rp_reports := rp_reports st @ [(rp_exec_seq st + 1, seq, ev)]\<rparr>)"

fun replay_loop :: "replay_state \<Rightarrow> command list \<Rightarrow> replay_state option" where
  "replay_loop st [] = Some st"
| "replay_loop st (cmd # cmds) = do {
     ((e, rs, seq), out) \<leftarrow> process_command (rp_engine st) (rp_risk st) cmd (rp_seq st);
     replay_loop (foldl replay_emit (st\<lparr>rp_engine := e, rp_risk := rs, rp_seq := seq\<rparr>) out) cmds
   }"

definition replay_file :: "bytes option \<Rightarrow> str option \<Rightarrow> (replay_error + replay_output) option" where
  "replay_file recording risk_contents =
     (case recording of
        None \<Rightarrow> Some (Inl Failed_To_Read)
      | Some bs \<Rightarrow>
          (let (f, frames, frame_result) = drain_frames (feed framer_new bs) in do {
             (commands, decode_error) \<leftarrow> decode_frames frames [] None;
             (case frame_result of
                Inl reason \<Rightarrow> Some (Inl (Unrecognized_Tag reason))
              | Inr _ \<Rightarrow>
                  (case decode_error of
                     Some err \<Rightarrow> Some (Inl (Malformed_Command err))
                   | None \<Rightarrow> do {
                       st \<leftarrow> replay_loop (replay_init (load_config risk_contents)) commands;
                       Some (Inr \<lparr>execution_reports = rp_reports st, market_data = rp_market st,
                                  last_trade = book_last_trade (engine_book (rp_engine st))\<rparr>)
                     }))
           }))"

text \<open>\<open>write_output\<close>: execution reports first, then market data.\<close>

definition write_one :: "bytes \<Rightarrow> stream_seq \<Rightarrow> engine_seq option \<Rightarrow> event \<Rightarrow> bytes option" where
  "write_one out seq engine_seq ev = do {
     (buf, len) \<leftarrow> encode_event seq engine_seq ev (replicate MAX_MESSAGE_LEN 0);
     Some (out @ take len buf)
   }"

fun write_reports :: "bytes \<Rightarrow> (stream_seq \<times> engine_seq \<times> event) list \<Rightarrow> bytes option" where
  "write_reports out [] = Some out"
| "write_reports out ((seq, es, ev) # xs) = do { out \<leftarrow> write_one out seq (Some es) ev; write_reports out xs }"

fun write_market :: "bytes \<Rightarrow> (stream_seq \<times> event) list \<Rightarrow> bytes option" where
  "write_market out [] = Some out"
| "write_market out ((seq, ev) # xs) = do { out \<leftarrow> write_one out seq None ev; write_market out xs }"

definition write_output :: "replay_output \<Rightarrow> bytes option" where
  "write_output r = do { out \<leftarrow> write_reports [] (execution_reports r); write_market out (market_data r) }"

section \<open>The two streams\<close>

definition reports_of :: "(engine_seq \<times> event) list \<Rightarrow> (engine_seq \<times> event) list" where
  "reports_of out = filter (\<lambda>x. \<not> is_market_data (snd x)) out"

definition market_of :: "(engine_seq \<times> event) list \<Rightarrow> event list" where
  "market_of out = map snd (filter (\<lambda>x. is_market_data (snd x)) out)"

lemma reports_of_simps [simp]:
  "reports_of [] = []" "reports_of (x # xs) = (if is_market_data (snd x) then reports_of xs else x # reports_of xs)"
  "reports_of (xs @ ys) = reports_of xs @ reports_of ys"
  by (simp_all add: reports_of_def)

lemma market_of_simps [simp]:
  "market_of [] = []" "market_of (x # xs) = (if is_market_data (snd x) then snd x # market_of xs else market_of xs)"
  "market_of (xs @ ys) = market_of xs @ market_of ys"
  by (simp_all add: market_of_def)

lemma replay_emits:
  "foldl replay_emit st out = st\<lparr>rp_reports := rp_reports st @ number_from (rp_exec_seq st) (reports_of out),
     rp_exec_seq := rp_exec_seq st + of_nat (length (reports_of out)),
     rp_market := rp_market st @ number_from (rp_md_seq st) (market_of out),
     rp_md_seq := rp_md_seq st + of_nat (length (market_of out))\<rparr>"
proof (induction out arbitrary: st)
  case (Cons x out)
  show ?case using Cons [of "replay_emit st x"]
    by (cases x) (simp add: replay_emit_def add.assoc)
qed simp

text \<open>The loop is a run of the risk-checked engine with its output split and numbered.\<close>

lemma replay_loop_run:
  "replay_loop st cmds = map_option
     (\<lambda>((e, rs, seq), out). (foldl replay_emit st out)\<lparr>rp_engine := e, rp_risk := rs, rp_seq := seq\<rparr>)
     (run process_step (rp_engine st, rp_risk st, rp_seq st) cmds)"
proof (induction cmds arbitrary: st)
  case Nil
  then show ?case by simp
next
  case (Cons cmd cmds)
  show ?case
  proof (cases "process_command (rp_engine st) (rp_risk st) cmd (rp_seq st)")
    case (Some r)
    obtain e rs seq out where r: "r = ((e, rs, seq), out)" by (metis prod.exhaust)
    let ?st = "foldl replay_emit (st\<lparr>rp_engine := e, rp_risk := rs, rp_seq := seq\<rparr>) out"
    have f: "rp_engine ?st = e" "rp_risk ?st = rs" "rp_seq ?st = seq" by (simp_all add: replay_emits)
    show ?thesis using Some r Cons [of ?st] unfolding f
      by (cases "run process_step (e, rs, seq) cmds")
        (auto simp: replay_emits number_from_append add.assoc split: prod.splits)
  qed simp
qed

lemma decode_frames_ok:
  assumes "map decode_command frames = map (\<lambda>c. Some (Inr c)) cmds"
  shows "decode_frames frames acc err = Some (acc @ cmds, err)"
  using assms by (induction frames arbitrary: cmds acc) auto

lemma replay_file_commands:
  assumes "\<forall>c \<in> set cmds. wire_ok c"
  shows "replay_file (Some (concat (map command_bytes cmds))) contents = map_option
    (\<lambda>((e, rs, seq), out). Inr \<lparr>execution_reports = number_from 0 (reports_of out),
       market_data = number_from 0 (market_of out), last_trade = book_last_trade (engine_book e)\<rparr>)
    (run process_step (engine_new, risk_state_new (load_config contents), 0) cmds)"
proof -
  let ?bs = "concat (map command_bytes cmds)"
  have "split_frames ?bs = (map command_bytes cmds, [], Inr ())"
    by (rule split_frames_concat) (simp add: command_codec.enc_framed)
  then have d: "drain_frames (feed framer_new ?bs) = (framer_new, map command_bytes cmds, Inr ())"
    by (simp add: drain_frames_split feed_def framer_new_def)
  have "map decode_command (map command_bytes cmds) = map (\<lambda>c. Some (Inr c)) cmds"
    using assms by (simp add: decode_command_bytes)
  then have "decode_frames (map command_bytes cmds) [] None = Some (cmds, None)"
    using decode_frames_ok [of "map command_bytes cmds" cmds "[]" None] by simp
  then show ?thesis
    using d by (cases "run process_step (engine_new, risk_state_new (load_config contents), 0) cmds")
      (auto simp: replay_file_def replay_loop_run replay_init_def replay_emits)
qed

end
