(* ===== verification/Order_Entry.thy ===== *)
theory Order_Entry
  imports Matching_Thread
begin

text \<open>
  Order entry (\<open>gateway/src/order_entry.rs\<close>): the accept loop that numbers connections, the
  reader that turns a connection's bytes into commands or wire-level rejects, and the return
  dispatcher that numbers and writes each connection's reports. Sockets are outside: a reader is
  given the chunks its reads return (an empty chunk is end of stream), the dispatcher is told
  whether a write succeeds, and a connection's stream is the bytes written to it.
\<close>

definition WIRE_LEVEL_REJECT_ENGINE_SEQ :: engine_seq where "WIRE_LEVEL_REJECT_ENGINE_SEQ = 0"

definition READ_BUF_LEN :: nat where "READ_BUF_LEN = 4096"

definition malformed_reject :: "reject_reason \<Rightarrow> event" where
  "malformed_reject reason = Rejected 0 0 reason"

section \<open>The reader\<close>

text \<open>What a reader puts on the two channels, in order.\<close>

datatype reader_msg = To_Command conn_id command | To_Return conn_id engine_seq event

definition handle_frame :: "conn_id \<Rightarrow> bytes \<Rightarrow> reader_msg option" where
  "handle_frame conn frame = do {
     r \<leftarrow> decode_command frame;
     Some (case r of
         Inr cmd \<Rightarrow> To_Command conn cmd
       | Inl reason \<Rightarrow> To_Return conn WIRE_LEVEL_REJECT_ENGINE_SEQ (malformed_reject reason))
   }"

fun handle_frames :: "conn_id \<Rightarrow> bytes list \<Rightarrow> reader_msg list option" where
  "handle_frames conn [] = Some []"
| "handle_frames conn (frame # frames) = do {
     m \<leftarrow> handle_frame conn frame;
     ms \<leftarrow> handle_frames conn frames;
     Some (m # ms)
   }"

fun run_reader :: "conn_id \<Rightarrow> framer \<Rightarrow> bytes list \<Rightarrow> reader_msg list option" where
  "run_reader conn framer [] = Some []"
| "run_reader conn framer (chunk # chunks) =
     (if chunk = [] then Some []
      else let (framer', frames, drain_result) = drain_frames (feed framer chunk) in do {
        ms \<leftarrow> handle_frames conn frames;
        (case drain_result of
           Inl _ \<Rightarrow> Some (ms @ [To_Return conn WIRE_LEVEL_REJECT_ENGINE_SEQ (malformed_reject UnknownMessageType)])
         | Inr _ \<Rightarrow> do { ms' \<leftarrow> run_reader conn framer' chunks; Some (ms @ ms') })
      })"

text \<open>The reader as a function of the bytes alone.\<close>

definition read_stream :: "conn_id \<Rightarrow> bytes \<Rightarrow> reader_msg list option" where
  "read_stream conn bs =
     (case split_frames bs of (frames, left, r) \<Rightarrow> do {
        ms \<leftarrow> handle_frames conn frames;
        Some (case r of
            Inl _ \<Rightarrow> ms @ [To_Return conn WIRE_LEVEL_REJECT_ENGINE_SEQ (malformed_reject UnknownMessageType)]
          | Inr _ \<Rightarrow> ms)
      })"

lemma handle_frames_append:
  "handle_frames conn (xs @ ys) = do { a \<leftarrow> handle_frames conn xs; b \<leftarrow> handle_frames conn ys; Some (a @ b) }"
proof (induction xs)
  case Nil
  show ?case by (cases "handle_frames conn ys") simp_all
next
  case (Cons x xs)
  then show ?case by (cases "handle_frame conn x"; cases "handle_frames conn xs"; cases "handle_frames conn ys") simp_all
qed

lemma run_reader_stream:
  assumes "split_frames (framer_buf f) = ([], framer_buf f, Inr ())" and "\<forall>c \<in> set chunks. c \<noteq> []"
  shows "run_reader conn f chunks = read_stream conn (framer_buf f @ concat chunks)"
  using assms
proof (induction chunks arbitrary: f)
  case Nil
  then show ?case by (simp add: read_stream_def)
next
  case (Cons chunk chunks)
  obtain fs1 left1 r1 where s1: "split_frames (framer_buf f @ chunk) = (fs1, left1, r1)" by (metis prod.exhaust)
  have d: "drain_frames (feed f chunk) = (f\<lparr>framer_buf := left1\<rparr>, fs1, r1)"
    using s1 by (simp add: drain_frames_split feed_def)
  show ?case
  proof (cases r1)
    case (Inl e)
    then have "split_frames ((framer_buf f @ chunk) @ concat chunks) = (fs1, left1 @ concat chunks, Inl e)"
      using split_frames_error s1 by blast
    then show ?thesis using d Inl Cons.prems(2)
      by (cases "handle_frames conn fs1") (simp_all add: read_stream_def)
  next
    case (Inr u)
    obtain fs2 left2 r2 where s2: "split_frames (left1 @ concat chunks) = (fs2, left2, r2)" by (metis prod.exhaust)
    then have "split_frames ((framer_buf f @ chunk) @ concat chunks) = (fs1 @ fs2, left2, r2)"
      using split_frames_append [of "framer_buf f @ chunk" fs1 left1 "concat chunks"] s1 Inr by simp
    moreover have "run_reader conn (f\<lparr>framer_buf := left1\<rparr>) chunks = read_stream conn (left1 @ concat chunks)"
      using Cons.IH [of "f\<lparr>framer_buf := left1\<rparr>"] split_frames_rest [OF s1] Cons.prems(2) Inr by simp
    ultimately show ?thesis using d Inr Cons.prems(2) s2
      by (cases "handle_frames conn fs1"; cases "handle_frames conn fs2")
        (auto simp: read_stream_def handle_frames_append split: sum.splits)
  qed
qed

lemma handle_frames_commands:
  assumes "handle_frames conn frames = Some ms" and "To_Command c cmd \<in> set ms"
  shows "c = conn \<and> wire_ok cmd \<and> command_bytes cmd \<in> set frames"
  using assms
proof (induction frames arbitrary: ms)
  case (Cons frame frames)
  then obtain m ms' where m: "handle_frame conn frame = Some m" "handle_frames conn frames = Some ms'" "ms = m # ms'"
    by (auto simp: bind_eq_Some_iff)
  show ?case
  proof (cases "m = To_Command c cmd")
    case True
    obtain r where r: "decode_command frame = Some r" using m(1) by (auto simp: handle_frame_def bind_eq_Some_iff)
    have "c = conn" "decode_command frame = Some (Inr cmd)"
      using m(1) True r by (cases r; simp add: handle_frame_def)+
    then show ?thesis using decode_command_canonical by auto
  next
    case False
    then show ?thesis using Cons.IH [OF m(2)] Cons.prems(2) m(3) by auto
  qed
qed simp

section \<open>The accept loop\<close>

record order_entry =
  oe_next_conn_id :: u64
  oe_writers :: "(conn_id, bytes) hashmap"
  oe_seqs :: "(conn_id, u64) hashmap"

definition order_entry_init :: order_entry where
  "order_entry_init = \<lparr>oe_next_conn_id = 1, oe_writers = [], oe_seqs = []\<rparr>"

text \<open>One accepted stream; \<open>cloned\<close> says whether \<open>try_clone\<close> succeeds. The second component is
  the connection for which a reader is spawned.\<close>

definition accept_conn :: "order_entry \<Rightarrow> bool \<Rightarrow> order_entry \<times> conn_id option" where
  "accept_conn oe cloned =
     (let conn = oe_next_conn_id oe;
          oe = oe\<lparr>oe_next_conn_id := conn + 1\<rparr>
      in if \<not> cloned then (oe, None)
         else (oe\<lparr>oe_writers := hm_insert conn [] (oe_writers oe)\<rparr>, Some conn))"

section \<open>The return dispatcher\<close>

definition deliver :: "order_entry \<Rightarrow> conn_id \<Rightarrow> engine_seq \<Rightarrow> event \<Rightarrow> bool \<Rightarrow> order_entry option" where
  "deliver oe conn es ev write_ok = do {
     let seq = (case hm_get (oe_seqs oe) conn of None \<Rightarrow> 0 | Some s \<Rightarrow> s) + 1;
     let seqs = hm_insert conn seq (oe_seqs oe);
     (buf, len) \<leftarrow> encode_event seq (Some es) ev (replicate MAX_MESSAGE_LEN 0);
     Some (case hm_get (oe_writers oe) conn of
         Some written \<Rightarrow>
           if write_ok
           then oe\<lparr>oe_seqs := seqs, oe_writers := hm_insert conn (written @ take len buf) (oe_writers oe)\<rparr>
           else oe\<lparr>oe_seqs := hm_remove conn seqs, oe_writers := hm_remove conn (oe_writers oe)\<rparr>
       | None \<Rightarrow> oe\<lparr>oe_seqs := hm_remove conn seqs, oe_writers := hm_remove conn (oe_writers oe)\<rparr>)
   }"

text \<open>The accept loop and the dispatcher interleave on the shared writers.\<close>

datatype oe_input = Accept_In bool | Return_In conn_id engine_seq event bool

fun oe_step :: "order_entry \<Rightarrow> oe_input \<Rightarrow> order_entry option" where
  "oe_step oe (Accept_In cloned) = Some (fst (accept_conn oe cloned))"
| "oe_step oe (Return_In conn es ev ok) = deliver oe conn es ev ok"

fun run_order_entry :: "order_entry \<Rightarrow> oe_input list \<Rightarrow> order_entry option" where
  "run_order_entry oe [] = Some oe"
| "run_order_entry oe (i # ins) = do { oe \<leftarrow> oe_step oe i; run_order_entry oe ins }"

lemma encode_reply:
  "encode_event seq (Some es) ev (replicate MAX_MESSAGE_LEN 0) =
     Some (event_bytes seq es ev @ drop (length (event_bytes seq es ev)) (replicate MAX_MESSAGE_LEN 0),
           length (event_bytes seq es ev))"
  by (rule encode_event_layout) simp

text \<open>The dispatcher never panics: every report comes with its engine sequence number.\<close>

lemma deliver_eq:
  "deliver oe conn es ev ok =
     (let seq = (case hm_get (oe_seqs oe) conn of None \<Rightarrow> 0 | Some s \<Rightarrow> s) + 1 in
      Some (case hm_get (oe_writers oe) conn of
         Some written \<Rightarrow>
           if ok then oe\<lparr>oe_seqs := hm_insert conn seq (oe_seqs oe),
                        oe_writers := hm_insert conn (written @ event_bytes seq es ev) (oe_writers oe)\<rparr>
           else oe\<lparr>oe_seqs := hm_remove conn (hm_insert conn seq (oe_seqs oe)), oe_writers := hm_remove conn (oe_writers oe)\<rparr>
       | None \<Rightarrow> oe\<lparr>oe_seqs := hm_remove conn (hm_insert conn seq (oe_seqs oe)), oe_writers := hm_remove conn (oe_writers oe)\<rparr>))"
  by (auto simp: deliver_def encode_reply Let_def split: option.split)

definition reply_bytes :: "u64 \<times> engine_seq \<times> event \<Rightarrow> bytes" where
  "reply_bytes x = (case x of (seq, es, ev) \<Rightarrow> event_bytes seq es ev)"

lemma accept_other:
  assumes "conn \<noteq> oe_next_conn_id oe"
  shows "hm_get (oe_writers (fst (accept_conn oe ok))) conn = hm_get (oe_writers oe) conn"
    and "oe_seqs (fst (accept_conn oe ok)) = oe_seqs oe"
    and "oe_next_conn_id (fst (accept_conn oe ok)) = oe_next_conn_id oe + 1"
  using assms by (simp_all add: accept_conn_def Let_def hm_get_insert)

text \<open>How many connections are accepted.\<close>

fun accepts :: "oe_input list \<Rightarrow> nat" where
  "accepts [] = 0"
| "accepts (Accept_In _ # ins) = Suc (accepts ins)"
| "accepts (Return_In _ _ _ _ # ins) = accepts ins"

end
