(* ===== verification/Market_Data.thy ===== *)
theory Market_Data
  imports Matching_Thread
begin

text \<open>
  Market data (\<open>marketdata/src/queue.rs\<close>, \<open>subscriber.rs\<close>): one bounded drop-oldest queue per
  subscriber, the fan-out that pushes every event into every queue, and the subscriber's writer,
  whose sequence number jumps over dropped events. The threads interleave freely: the behaviour of
  one subscriber is the inductive relation \<open>subscriber_run\<close> over pushes and writes.
\<close>

section \<open>The drop-oldest queue\<close>

record drop_queue =
  q_items :: "event list"
  q_dropped :: u64
  q_capacity :: nat

definition queue_new :: "nat \<Rightarrow> drop_queue" where
  "queue_new capacity = \<lparr>q_items = [], q_dropped = 0, q_capacity = capacity\<rparr>"

definition queue_push :: "event \<Rightarrow> drop_queue \<Rightarrow> drop_queue" where
  "queue_push ev q =
     (let q = (if q_capacity q \<le> length (q_items q)
               then q\<lparr>q_items := drop 1 (q_items q), q_dropped := q_dropped q + 1\<rparr> else q)
      in q\<lparr>q_items := q_items q @ [ev]\<rparr>)"

text \<open>\<open>pop_blocking\<close>: \<^const>\<open>None\<close> while the queue is empty, when the call waits.\<close>

definition queue_pop :: "drop_queue \<Rightarrow> ((event \<times> u64) \<times> drop_queue) option" where
  "queue_pop q =
     (case q_items q of
        [] \<Rightarrow> None
      | ev # evs \<Rightarrow> Some ((ev, q_dropped q), q\<lparr>q_items := evs, q_dropped := 0\<rparr>))"

section \<open>Subscribers\<close>

definition SUBSCRIBER_QUEUE_CAPACITY :: nat where "SUBSCRIBER_QUEUE_CAPACITY = 1024"

type_synonym subscriber_id = u64

text \<open>A subscriber: its queue, its writer's counter, the bytes written to its socket.\<close>

record subscriber =
  sub_queue :: drop_queue
  sub_seq :: u64
  sub_wire :: bytes

definition subscriber_new :: subscriber where
  "subscriber_new = \<lparr>sub_queue = queue_new SUBSCRIBER_QUEUE_CAPACITY, sub_seq = 0, sub_wire = []\<rparr>"

text \<open>One iteration of \<open>run_subscriber_writer\<close> when the queue is not empty and the write succeeds.
  The outer option is the panic of \<open>encode_event\<close>.\<close>

definition write_next :: "subscriber \<Rightarrow> subscriber option option" where
  "write_next s =
     (case queue_pop (sub_queue s) of
        None \<Rightarrow> Some None
      | Some ((ev, dropped), q) \<Rightarrow> do {
          let seq = sub_seq s + (1 + dropped);
          (buf, len) \<leftarrow> encode_event seq None ev (replicate MAX_MESSAGE_LEN 0);
          Some (Some \<lparr>sub_queue = q, sub_seq = seq, sub_wire = sub_wire s @ take len buf\<rparr>)
        })"

definition sub_push :: "event \<Rightarrow> subscriber \<Rightarrow> subscriber" where
  "sub_push ev s = s\<lparr>sub_queue := queue_push ev (sub_queue s)\<rparr>"

text \<open>\<open>run_fan_out\<close> for one event, the accept loop, and the removal after a failed write.\<close>

record market_data_state =
  md_subscribers :: "(subscriber_id, subscriber) hashmap"
  md_next_id :: u64

definition market_data_init :: market_data_state where
  "market_data_init = \<lparr>md_subscribers = [], md_next_id = 1\<rparr>"

definition fan_out :: "event \<Rightarrow> market_data_state \<Rightarrow> market_data_state" where
  "fan_out ev md = md\<lparr>md_subscribers := map (\<lambda>(i, s). (i, sub_push ev s)) (md_subscribers md)\<rparr>"

definition accept_subscriber :: "market_data_state \<Rightarrow> market_data_state" where
  "accept_subscriber md =
     \<lparr>md_subscribers = hm_insert (md_next_id md) subscriber_new (md_subscribers md), md_next_id = md_next_id md + 1\<rparr>"

definition drop_subscriber :: "subscriber_id \<Rightarrow> market_data_state \<Rightarrow> market_data_state" where
  "drop_subscriber i md = md\<lparr>md_subscribers := hm_remove i (md_subscribers md)\<rparr>"

text \<open>Every subscriber sees every event; none sees another's queue.\<close>

lemma fan_out_get: "hm_get (md_subscribers (fan_out ev md)) i = map_option (sub_push ev) (hm_get (md_subscribers md) i)"
  by (simp add: fan_out_def hm_get_def map_of_map)

section \<open>One subscriber's feed\<close>

text \<open>\<open>subscriber_run s evs\<close>: after the fan-out pushed \<open>evs\<close> in this order, interleaved with the
  writer in any way, the subscriber is in state \<open>s\<close>.\<close>

inductive subscriber_run :: "subscriber \<Rightarrow> event list \<Rightarrow> bool" where
  run_start: "subscriber_run subscriber_new []"
| run_push: "subscriber_run s evs \<Longrightarrow> subscriber_run (sub_push ev s) (evs @ [ev])"
| run_write: "subscriber_run s evs \<Longrightarrow> write_next s = Some (Some s') \<Longrightarrow> subscriber_run s' evs"

text \<open>The numbered events written so far: each is the event at that position of the feed.\<close>

definition feed_of :: "event list \<Rightarrow> (u64 \<times> event) list \<Rightarrow> u64 \<Rightarrow> bool" where
  "feed_of evs ms seq \<longleftrightarrow> sorted_wrt (<) (map (\<lambda>m. unat (fst m)) ms) \<and>
     (\<forall>m \<in> set ms. 0 < unat (fst m) \<and> unat (fst m) \<le> length evs \<and> unat (fst m) \<le> unat seq \<and>
        evs ! (unat (fst m) - 1) = snd m)"

definition md_bytes :: "u64 \<times> event \<Rightarrow> bytes" where
  "md_bytes m = event_bytes (fst m) 0 (snd m)"

definition sub_inv :: "subscriber \<Rightarrow> event list \<Rightarrow> bool" where
  "sub_inv s evs \<longleftrightarrow>
     (let q = sub_queue s; k = unat (sub_seq s) + unat (q_dropped q) in
      q_capacity q = SUBSCRIBER_QUEUE_CAPACITY \<and> length (q_items q) \<le> SUBSCRIBER_QUEUE_CAPACITY \<and>
      k \<le> length evs \<and> q_items q = drop k evs \<and> (q_items q = [] \<longrightarrow> q_dropped q = 0) \<and>
      (\<exists>ms. sub_wire s = concat (map md_bytes ms) \<and> feed_of evs ms (sub_seq s)))"

lemma feed_of_push: "feed_of evs ms seq \<Longrightarrow> feed_of (evs @ [ev]) ms seq"
  by (fastforce simp: feed_of_def nth_append)

lemma sub_inv_push:
  assumes inv: "sub_inv s evs" and len: "length evs < 2 ^ 64 - 1"
  shows "sub_inv (sub_push ev s) (evs @ [ev])"
proof -
  let ?q = "sub_queue s"
  let ?k = "unat (sub_seq s) + unat (q_dropped ?q)"
  have i: "q_capacity ?q = SUBSCRIBER_QUEUE_CAPACITY" "length (q_items ?q) \<le> SUBSCRIBER_QUEUE_CAPACITY"
    "?k \<le> length evs" "q_items ?q = drop ?k evs"
    and w: "\<exists>ms. sub_wire s = concat (map md_bytes ms) \<and> feed_of (evs @ [ev]) ms (sub_seq s)"
    using inv feed_of_push unfolding sub_inv_def Let_def by blast+
  show ?thesis
  proof (cases "SUBSCRIBER_QUEUE_CAPACITY \<le> length (q_items ?q)")
    case True
    then have k: "?k < length evs" using i by (simp add: SUBSCRIBER_QUEUE_CAPACITY_def)
    have "unat (q_dropped ?q + 1) = Suc (unat (q_dropped ?q))"
      using k len unat_word_ariths(1) [of "q_dropped ?q" 1] by simp
    moreover have "drop (Suc ?k) (evs @ [ev]) = drop 1 (drop ?k evs) @ [ev]" using k by simp
    ultimately show ?thesis using i w True k
      by (simp add: sub_inv_def sub_push_def queue_push_def Let_def SUBSCRIBER_QUEUE_CAPACITY_def)
  next
    case False
    then show ?thesis using i w by (simp add: sub_inv_def sub_push_def queue_push_def Let_def)
  qed
qed

lemma encode_market:
  assumes "\<not> is_report ev"
  shows "encode_event seq None ev (replicate MAX_MESSAGE_LEN 0) =
     Some (event_bytes seq 0 ev @ drop (length (event_bytes seq 0 ev)) (replicate MAX_MESSAGE_LEN 0),
           length (event_bytes seq 0 ev))"
  using encode_event_layout(2) [OF _ assms, of "replicate MAX_MESSAGE_LEN 0" seq 0]
    encode_event_layout(1) [of "replicate MAX_MESSAGE_LEN 0" seq 0 ev] by simp

lemma write_next_spec:
  assumes inv: "sub_inv s evs" and rep: "\<forall>ev \<in> set evs. \<not> is_report ev" and len: "length evs < 2 ^ 64"
    and ne: "q_items (sub_queue s) \<noteq> []"
  shows "\<exists>s'. write_next s = Some (Some s') \<and> sub_inv s' evs \<and>
    unat (sub_seq s') = unat (sub_seq s) + unat (q_dropped (sub_queue s)) + 1 \<and>
    sub_wire s' = sub_wire s @ md_bytes (sub_seq s', evs ! (unat (sub_seq s') - 1))"
proof -
  let ?q = "sub_queue s"
  let ?k = "unat (sub_seq s) + unat (q_dropped ?q)"
  obtain ms where i: "q_capacity ?q = SUBSCRIBER_QUEUE_CAPACITY" "length (q_items ?q) \<le> SUBSCRIBER_QUEUE_CAPACITY"
    "?k \<le> length evs" "q_items ?q = drop ?k evs" "sub_wire s = concat (map md_bytes ms)" "feed_of evs ms (sub_seq s)"
    using inv unfolding sub_inv_def Let_def by blast
  have k: "?k < length evs" using ne i(4) by (intro ccontr [of "?k < length evs"]) simp
  have it: "q_items ?q = evs ! ?k # drop (Suc ?k) evs" using Cons_nth_drop_Suc [OF k] i(4) by simp
  let ?n = "sub_seq s + (1 + q_dropped ?q)"
  have n: "unat ?n = Suc ?k"
  proof -
    have "?n = of_nat (Suc ?k)" by (simp add: ac_simps)
    then show ?thesis using k len by (simp only: unsigned_of_nat) (simp add: take_bit_nat_eq_self)
  qed
  let ?s = "\<lparr>sub_queue = ?q\<lparr>q_items := drop (Suc ?k) evs, q_dropped := 0\<rparr>, sub_seq = ?n,
    sub_wire = sub_wire s @ md_bytes (?n, evs ! ?k)\<rparr>"
  have nr: "\<not> is_report (evs ! ?k)" using rep k by simp
  have "write_next s = Some (Some ?s)"
    using it encode_market [OF nr] by (simp add: write_next_def queue_pop_def md_bytes_def Let_def)
  moreover have "feed_of evs (ms @ [(?n, evs ! ?k)]) ?n"
    using i(6) n k by (fastforce simp: feed_of_def sorted_wrt_append)
  then have "sub_inv ?s evs"
    using i(1,2,5) it n k by (auto simp: sub_inv_def Let_def intro!: exI [of _ "ms @ [(?n, evs ! ?k)]"])
  ultimately show ?thesis using n by simp
qed

lemma subscriber_run_inv:
  assumes "subscriber_run s evs" and "\<forall>ev \<in> set evs. \<not> is_report ev" and "length evs < 2 ^ 64"
  shows "sub_inv s evs"
  using assms
proof (induction rule: subscriber_run.induct)
  case run_start
  show ?case by (auto simp: sub_inv_def subscriber_new_def queue_new_def feed_of_def Let_def intro: exI [of _ "[]"])
next
  case (run_push s evs ev)
  then show ?case by (intro sub_inv_push) auto
next
  case (run_write s evs s')
  then have "q_items (sub_queue s) \<noteq> []" by (auto simp: write_next_def queue_pop_def)
  then show ?case using write_next_spec [of s evs] run_write by auto
qed

text \<open>A writer that is left to run: \<open>n\<close> iterations, none of which blocks or panics.\<close>

fun write_n :: "nat \<Rightarrow> subscriber \<Rightarrow> subscriber option" where
  "write_n 0 s = Some s"
| "write_n (Suc n) s = (case write_next s of Some (Some s') \<Rightarrow> write_n n s' | _ \<Rightarrow> None)"

lemma write_n_drains:
  assumes "sub_inv s evs" and "\<forall>ev \<in> set evs. \<not> is_report ev" and "length evs < 2 ^ 64"
    and "length (q_items (sub_queue s)) = n"
  shows "\<exists>s'. write_n n s = Some s' \<and> q_items (sub_queue s') = [] \<and> unat (sub_seq s') = length evs"
  using assms
proof (induction n arbitrary: s)
  case 0
  then have "q_items (sub_queue s) = []" by simp
  moreover from this have "q_dropped (sub_queue s) = 0" "drop (unat (sub_seq s) + unat (q_dropped (sub_queue s))) evs = []"
    "unat (sub_seq s) + unat (q_dropped (sub_queue s)) \<le> length evs"
    using 0(1) unfolding sub_inv_def Let_def by metis+
  ultimately show ?case by simp
next
  case (Suc n)
  then have ne: "q_items (sub_queue s) \<noteq> []" by auto
  from write_next_spec [OF Suc.prems(1-3) ne] obtain s' where s': "write_next s = Some (Some s')" "sub_inv s' evs"
    "unat (sub_seq s') = unat (sub_seq s) + unat (q_dropped (sub_queue s)) + 1" by blast
  have "length (q_items (sub_queue s')) = n"
    using s'(1) Suc.prems(4) by (auto simp: write_next_def queue_pop_def bind_eq_Some_iff Let_def split: list.splits)
  then show ?case using Suc.IH [OF s'(2) Suc.prems(2,3)] s'(1) by simp
qed

end
