(* ===== verification/Server.thy ===== *)
theory Server
  imports Replay Order_Entry Market_Data
begin

text \<open>
  The server and replay binaries (\<open>bin/src/lib.rs\<close>, \<open>main.rs\<close>, \<open>bin/replay.rs\<close>): the channel
  capacities, the default paths and the command lines. The theory \<open>System\<close> has the threads that
  \<open>run\<close> starts.
\<close>

section \<open>Wiring and command lines\<close>

definition COMMAND_CHANNEL_CAPACITY :: nat where "COMMAND_CHANNEL_CAPACITY = 1024"
definition RETURN_CHANNEL_CAPACITY :: nat where "RETURN_CHANNEL_CAPACITY = 1024"
definition MARKET_DATA_CHANNEL_CAPACITY :: nat where "MARKET_DATA_CHANNEL_CAPACITY = 1024"

definition ORDER_ENTRY_SOCKET :: string where "ORDER_ENTRY_SOCKET = ''/run/engine/order-entry.sock''"
definition MARKET_DATA_SOCKET :: string where "MARKET_DATA_SOCKET = ''/run/engine/market-data.sock''"
definition RISK_CONFIG_PATH :: string where "RISK_CONFIG_PATH = ''risk.toml''"
definition DEFAULT_RISK_CONFIG_PATH :: string where "DEFAULT_RISK_CONFIG_PATH = ''risk.toml''"

text \<open>\<open>std::process::exit(1)\<close>, or the parsed value.\<close>

datatype 'a cli = Exit_Failure | Parsed 'a

fun record_arg :: "string list \<Rightarrow> string option cli" where
  "record_arg [] = Parsed None"
| "record_arg (arg # args) =
     (if arg = ''--record''
      then (case args of [] \<Rightarrow> Exit_Failure | path # _ \<Rightarrow> Parsed (Some path))
      else record_arg args)"

definition parse_record_path :: "string list \<Rightarrow> string option cli" where
  "parse_record_path args = record_arg (drop 1 args)"

record replay_args =
  arg_recording :: "string option"
  arg_risk_config :: string
  arg_exclude_timestamps :: bool

fun replay_arg :: "string list \<Rightarrow> replay_args \<Rightarrow> replay_args cli" where
  "replay_arg [] st = Parsed st"
| "replay_arg (arg # args) st =
     (if arg = ''--risk-config''
      then (case args of [] \<Rightarrow> Exit_Failure | path # args' \<Rightarrow> replay_arg args' (st\<lparr>arg_risk_config := path\<rparr>))
      else if arg = ''--exclude-timestamps'' then replay_arg args (st\<lparr>arg_exclude_timestamps := True\<rparr>)
      else if arg_recording st = None \<and> take 2 arg \<noteq> ''--'' then replay_arg args (st\<lparr>arg_recording := Some arg\<rparr>)
      else Exit_Failure)"

definition parse_replay_args :: "string list \<Rightarrow> (string \<times> string \<times> bool) cli" where
  "parse_replay_args args =
     (case replay_arg (drop 1 args)
        \<lparr>arg_recording = None, arg_risk_config = DEFAULT_RISK_CONFIG_PATH, arg_exclude_timestamps = False\<rparr> of
        Exit_Failure \<Rightarrow> Exit_Failure
      | Parsed st \<Rightarrow>
          (case arg_recording st of
             None \<Rightarrow> Exit_Failure
           | Some path \<Rightarrow> Parsed (path, arg_risk_config st, arg_exclude_timestamps st)))"

section \<open>What the command lines mean\<close>

text \<open>The first \<open>--record\<close> after the program name decides; it must be followed by a path.\<close>

lemma parse_record_path_meaning:
  "''--record'' \<notin> set args \<Longrightarrow> parse_record_path (prog # args) = Parsed None"
  "''--record'' \<notin> set args \<Longrightarrow> parse_record_path (prog # args @ [''--record'']) = Exit_Failure"
  "''--record'' \<notin> set args \<Longrightarrow> parse_record_path (prog # args @ ''--record'' # path # tail) = Parsed (Some path)"
  by (induction args) (auto simp: parse_record_path_def)

text \<open>A run of options in any order, with exactly one argument that is not an option.\<close>

datatype replay_option = Config_Option string | Exclude_Option

fun print_option :: "replay_option \<Rightarrow> string list" where
  "print_option (Config_Option path) = [''--risk-config'', path]"
| "print_option Exclude_Option = [''--exclude-timestamps'']"

fun apply_option :: "replay_args \<Rightarrow> replay_option \<Rightarrow> replay_args" where
  "apply_option st (Config_Option path) = st\<lparr>arg_risk_config := path\<rparr>"
| "apply_option st Exclude_Option = st\<lparr>arg_exclude_timestamps := True\<rparr>"

lemma replay_arg_options:
  "replay_arg (concat (map print_option opts) @ args) st = replay_arg args (foldl apply_option st opts)"
proof (induction opts arbitrary: st)
  case (Cons opt opts)
  then show ?case by (cases opt) simp_all
qed simp

lemma options_keep_recording: "arg_recording (foldl apply_option st opts) = arg_recording st"
proof (induction opts arbitrary: st)
  case (Cons opt opts)
  then show ?case by (cases opt) simp_all
qed simp

lemma parse_replay_args_roundtrip:
  assumes "take 2 path \<noteq> ''--''"
  shows "parse_replay_args (prog # concat (map print_option opts1) @ path # concat (map print_option opts2)) =
    (let st = foldl apply_option \<lparr>arg_recording = Some path, arg_risk_config = DEFAULT_RISK_CONFIG_PATH,
         arg_exclude_timestamps = False\<rparr> (opts1 @ opts2)
     in Parsed (path, arg_risk_config st, arg_exclude_timestamps st))"
proof -
  have commute: "(foldl apply_option st opts)\<lparr>arg_recording := Some path\<rparr> = foldl apply_option (st\<lparr>arg_recording := Some path\<rparr>) opts"
    for st opts
  proof (induction opts arbitrary: st)
    case (Cons opt opts)
    then show ?case by (cases opt; cases st) simp_all
  qed simp
  let ?st = "\<lparr>arg_recording = None, arg_risk_config = DEFAULT_RISK_CONFIG_PATH, arg_exclude_timestamps = False\<rparr>"
  have ne: "path \<noteq> ''--risk-config''" "path \<noteq> ''--exclude-timestamps''" using assms by auto
  have "replay_arg (path # concat (map print_option opts2) @ []) (foldl apply_option ?st opts1) =
      Parsed (foldl apply_option ((foldl apply_option ?st opts1)\<lparr>arg_recording := Some path\<rparr>) opts2)"
    using assms ne by (simp only: replay_arg.simps options_keep_recording if_False replay_arg_options) simp
  then show ?thesis
    by (simp add: parse_replay_args_def replay_arg_options commute options_keep_recording Let_def)
qed

end
