(* ===== verification/System.thy ===== *)
theory System
  imports Server
begin

text \<open>
  The running server: every thread that \<open>run\<close> (\<open>bin/src/lib.rs\<close>) starts, over the three bounded
  channels it creates. A step is one operation of one thread: accepting a connection, one read of a
  reader, one send of a reader, taking a command, emitting one event, delivering one report, one
  fan-out, one write to a subscriber. A label names the step and carries the value that is moved.
  \<^const>\<open>None\<close> means that the thread cannot make this step: it waits for input or for room in a
  channel, or it has panicked. Sends of a reader block while the channel is full, and so do the reports of the
  matching thread; market data is dropped instead. The return channel is \<^const>\<open>mt_return\<close>, the
  market-data channel is \<^const>\<open>mt_market\<close>.
\<close>

section \<open>State and steps\<close>

text \<open>A reader between two operations: the frames of its last read that it has not handled yet,
  and whether the read ended in an unknown tag.\<close>

record reader =
  rd_framer :: framer
  rd_todo :: "bytes list"
  rd_desync :: bool

definition reader_new :: reader where
  "reader_new = \<lparr>rd_framer = framer_new, rd_todo = [], rd_desync = False\<rparr>"

text \<open>A read that returned \<open>chunk\<close>; the reader ends on an empty one.\<close>

definition reader_read :: "bytes \<Rightarrow> reader \<Rightarrow> reader option" where
  "reader_read chunk r =
     (if chunk = [] then None
      else let (f, frames, drain_result) = drain_frames (feed (rd_framer r) chunk) in
        Some \<lparr>rd_framer = f, rd_todo = frames,
              rd_desync = (case drain_result of Inl _ \<Rightarrow> True | Inr _ \<Rightarrow> False)\<rparr>)"

text \<open>What the reader sends next, and what becomes of it.\<close>

definition reader_next :: "conn_id \<Rightarrow> reader \<Rightarrow> (reader_msg \<times> reader option) option" where
  "reader_next conn r =
     (case rd_todo r of
        frame # frames \<Rightarrow> do { m \<leftarrow> handle_frame conn frame; Some (m, Some (r\<lparr>rd_todo := frames\<rparr>)) }
      | [] \<Rightarrow>
          if rd_desync r
          then Some (To_Return conn WIRE_LEVEL_REJECT_ENGINE_SEQ (malformed_reject UnknownMessageType), None)
          else None)"

definition set_reader :: "conn_id \<Rightarrow> reader option \<Rightarrow> (conn_id, reader) hashmap \<Rightarrow> (conn_id, reader) hashmap" where
  "set_reader conn r readers = (case r of None \<Rightarrow> hm_remove conn readers | Some r \<Rightarrow> hm_insert conn r readers)"

record system =
  sy_entry :: order_entry
  sy_readers :: "(conn_id, reader) hashmap"
  sy_commands :: "(conn_id \<times> command) list"
  sy_thread :: mthread
  sy_conn :: conn_id
  sy_self :: "order_key option"
  sy_pending :: "(engine_seq \<times> event) list"
  sy_market :: market_data_state

definition system_init :: "risk_state \<Rightarrow> bytes option \<Rightarrow> system" where
  "system_init rs recorder = \<lparr>sy_entry = order_entry_init, sy_readers = [], sy_commands = [],
     sy_thread = mthread_init rs recorder, sy_conn = 0, sy_self = None, sy_pending = [],
     sy_market = market_data_init\<rparr>"

datatype label =
    Accept bool
  | Read conn_id bytes
  | Send reader_msg
  | Reader_Panic conn_id
  | Take conn_id command
  | Emit_Report conn_id engine_seq event
  | Emit_Market event
  | Dispatch conn_id engine_seq event bool
  | Fan_Out event
  | Subscribe
  | Write_Sub subscriber_id bool

definition take_command :: "conn_id \<Rightarrow> command \<Rightarrow> mthread \<Rightarrow> (mthread \<times> (engine_seq \<times> event) list) option" where
  "take_command conn cmd th = do {
     recorder \<leftarrow> record_command cmd (mt_recorder th);
     ((e, rs, seq), out) \<leftarrow> process_command (mt_engine th) (mt_risk th) cmd (mt_seq th);
     Some (th\<lparr>mt_engine := e, mt_risk := rs, mt_seq := seq, mt_recorder := recorder\<rparr>, out)
   }"

definition emit_next :: "engine_seq \<times> event \<Rightarrow> system \<Rightarrow> mthread option" where
  "emit_next x s = emit_event MARKET_DATA_CHANNEL_CAPACITY (sy_conn s) (sy_self s) (sy_conn s) x (sy_thread s)"

fun sys_step :: "system \<Rightarrow> label \<Rightarrow> system option" where
  "sys_step s (Accept cloned) =
     (case accept_conn (sy_entry s) cloned of
        (oe, None) \<Rightarrow> Some (s\<lparr>sy_entry := oe\<rparr>)
      | (oe, Some conn) \<Rightarrow> Some (s\<lparr>sy_entry := oe, sy_readers := hm_insert conn reader_new (sy_readers s)\<rparr>))"
| "sys_step s (Read conn chunk) = do {
     r \<leftarrow> hm_get (sy_readers s) conn;
     if rd_todo r = [] \<and> \<not> rd_desync r \<and> length chunk \<le> READ_BUF_LEN
     then Some (s\<lparr>sy_readers := set_reader conn (reader_read chunk r) (sy_readers s)\<rparr>) else None
   }"
| "sys_step s (Send (To_Command conn cmd)) = do {
     r \<leftarrow> hm_get (sy_readers s) conn;
     (m, r') \<leftarrow> reader_next conn r;
     if m = To_Command conn cmd \<and> length (sy_commands s) < COMMAND_CHANNEL_CAPACITY
     then Some (s\<lparr>sy_readers := set_reader conn r' (sy_readers s), sy_commands := sy_commands s @ [(conn, cmd)]\<rparr>) else None
   }"
| "sys_step s (Send (To_Return conn es ev)) = do {
     r \<leftarrow> hm_get (sy_readers s) conn;
     (m, r') \<leftarrow> reader_next conn r;
     if m = To_Return conn es ev \<and> length (mt_return (sy_thread s)) < RETURN_CHANNEL_CAPACITY
     then Some (s\<lparr>sy_readers := set_reader conn r' (sy_readers s),
                  sy_thread := (sy_thread s)\<lparr>mt_return := mt_return (sy_thread s) @ [(conn, es, ev)]\<rparr>\<rparr>) else None
   }"
| "sys_step s (Reader_Panic conn) = do {
     r \<leftarrow> hm_get (sy_readers s) conn;
     if rd_todo r \<noteq> [] \<and> reader_next conn r = None
     then Some (s\<lparr>sy_readers := hm_remove conn (sy_readers s)\<rparr>) else None
   }"
| "sys_step s (Take conn cmd) =
     (case sy_commands s of
        [] \<Rightarrow> None
      | x # xs \<Rightarrow>
          if sy_pending s = [] \<and> x = (conn, cmd) then do {
            (th, out) \<leftarrow> take_command conn cmd (sy_thread s);
            Some (s\<lparr>sy_commands := xs, sy_thread := th, sy_conn := conn, sy_self := command_self_id cmd, sy_pending := out\<rparr>)
          } else None)"
| "sys_step s (Emit_Report conn seq ev) =
     (case sy_pending s of
        [] \<Rightarrow> None
      | x # xs \<Rightarrow>
          if x = (seq, ev) \<and> \<not> is_market_data ev \<and> length (mt_return (sy_thread s)) < RETURN_CHANNEL_CAPACITY then do {
            th \<leftarrow> emit_next x s;
            if mt_return th = mt_return (sy_thread s) @ [(conn, seq, ev)]
            then Some (s\<lparr>sy_thread := th, sy_pending := xs\<rparr>) else None
          } else None)"
| "sys_step s (Emit_Market ev) =
     (case sy_pending s of
        [] \<Rightarrow> None
      | x # xs \<Rightarrow>
          if snd x = ev \<and> is_market_data ev then do {
            th \<leftarrow> emit_next x s;
            Some (s\<lparr>sy_thread := th, sy_pending := xs\<rparr>)
          } else None)"
| "sys_step s (Dispatch conn es ev ok) =
     (case mt_return (sy_thread s) of
        [] \<Rightarrow> None
      | x # xs \<Rightarrow>
          if x = (conn, es, ev) then do {
            oe \<leftarrow> deliver (sy_entry s) conn es ev ok;
            Some (s\<lparr>sy_entry := oe, sy_thread := (sy_thread s)\<lparr>mt_return := xs\<rparr>\<rparr>)
          } else None)"
| "sys_step s (Fan_Out ev) =
     (case mt_market (sy_thread s) of
        [] \<Rightarrow> None
      | x # xs \<Rightarrow>
          if x = ev
          then Some (s\<lparr>sy_thread := (sy_thread s)\<lparr>mt_market := xs, mt_taken := mt_taken (sy_thread s) @ [ev]\<rparr>,
                       sy_market := fan_out ev (sy_market s)\<rparr>)
          else None)"
| "sys_step s Subscribe = Some (s\<lparr>sy_market := accept_subscriber (sy_market s)\<rparr>)"
| "sys_step s (Write_Sub i ok) = do {
     sub \<leftarrow> hm_get (md_subscribers (sy_market s)) i;
     written \<leftarrow> write_next sub;
     sub' \<leftarrow> written;
     Some (s\<lparr>sy_market :=
       (if ok then (sy_market s)\<lparr>md_subscribers := hm_insert i sub' (md_subscribers (sy_market s))\<rparr>
        else drop_subscriber i (sy_market s))\<rparr>)
   }"

fun sys_exec :: "system \<Rightarrow> label list \<Rightarrow> system option" where
  "sys_exec s [] = Some s"
| "sys_exec s (l # ls) = do { s \<leftarrow> sys_step s l; sys_exec s ls }"

text \<open>\<open>sys_run rs recorder tr s\<close>: the trace \<open>tr\<close> leads from the start of the server to \<open>s\<close>.\<close>

inductive sys_run :: "risk_state \<Rightarrow> bytes option \<Rightarrow> label list \<Rightarrow> system \<Rightarrow> bool" for rs recorder where
  start: "sys_run rs recorder [] (system_init rs recorder)"
| step: "sys_run rs recorder tr s \<Longrightarrow> sys_step s l = Some s' \<Longrightarrow> sys_run rs recorder (tr @ [l]) s'"


section \<open>What a trace shows\<close>

text \<open>The commands put on the command channel and taken off it, the reports put on the return
  channel, those put there by the matching thread and those delivered, the market data fanned out.\<close>

fun sent_by :: "label \<Rightarrow> (conn_id \<times> command) list" where
  "sent_by (Send (To_Command conn cmd)) = [(conn, cmd)]"
| "sent_by _ = []"

fun taken_by :: "label \<Rightarrow> (conn_id \<times> command) list" where
  "taken_by (Take conn cmd) = [(conn, cmd)]"
| "taken_by _ = []"

fun returned_by :: "label \<Rightarrow> (conn_id \<times> engine_seq \<times> event) list" where
  "returned_by (Send (To_Return conn es ev)) = [(conn, es, ev)]"
| "returned_by (Emit_Report conn es ev) = [(conn, es, ev)]"
| "returned_by _ = []"

fun emitted_by :: "label \<Rightarrow> (engine_seq \<times> event) list" where
  "emitted_by (Emit_Report conn es ev) = [(es, ev)]"
| "emitted_by _ = []"

fun entry_by :: "label \<Rightarrow> oe_input list" where
  "entry_by (Accept cloned) = [Accept_In cloned]"
| "entry_by (Dispatch conn es ev ok) = [Return_In conn es ev ok]"
| "entry_by _ = []"

fun delivered_by :: "label \<Rightarrow> (conn_id \<times> engine_seq \<times> event) list" where
  "delivered_by (Dispatch conn es ev ok) = [(conn, es, ev)]"
| "delivered_by _ = []"

fun fanned_by :: "label \<Rightarrow> event list" where
  "fanned_by (Fan_Out ev) = [ev]"
| "fanned_by _ = []"

text \<open>The bytes a connection's reader has read and the messages it has sent.\<close>

fun read_by :: "conn_id \<Rightarrow> label \<Rightarrow> bytes" where
  "read_by c (Read conn chunk) = (if conn = c then chunk else [])"
| "read_by c _ = []"

definition msg_conn :: "reader_msg \<Rightarrow> conn_id" where
  "msg_conn m = (case m of To_Command conn cmd \<Rightarrow> conn | To_Return conn es ev \<Rightarrow> conn)"

fun said_by :: "conn_id \<Rightarrow> label \<Rightarrow> reader_msg list" where
  "said_by c (Send m) = (if msg_conn m = c then [m] else [])"
| "said_by c _ = []"

definition over :: "(label \<Rightarrow> 'a list) \<Rightarrow> label list \<Rightarrow> 'a list" where
  "over f tr = concat (map f tr)"

lemma over_simps [simp]: "over f [] = []" "over f (xs @ ys) = over f xs @ over f ys" "over f (l # tr) = f l @ over f tr"
  by (simp_all add: over_def)

section \<open>Executions\<close>

lemma sys_exec_append: "sys_exec s (xs @ ys) = do { s \<leftarrow> sys_exec s xs; sys_exec s ys }"
  by (induction xs arbitrary: s) (simp_all add: Option.bind_assoc)

lemma sys_run_exec: "sys_run rs recorder tr s \<Longrightarrow> sys_exec s ls = Some s' \<Longrightarrow> sys_run rs recorder (tr @ ls) s'"
proof (induction ls arbitrary: tr s)
  case (Cons l ls)
  then obtain s1 where s1: "sys_step s l = Some s1" "sys_exec s1 ls = Some s'" by (auto simp: bind_eq_Some_iff)
  from Cons.IH [OF step [OF Cons.prems(1) s1(1)] s1(2)] show ?case by simp
qed simp

lemmas step_elims = bind_eq_Some_iff list.case_eq_if Let_def

text \<open>Taking a command and emitting its events is one step of the matching thread.\<close>

lemma matching_step_split:
  "matching_step_via fallback cap th (conn, cmd) = do {
     (th, out) \<leftarrow> take_command conn cmd th;
     emit_all cap conn (command_self_id cmd) fallback out th
   }"
  by (simp add: matching_step_via_def take_command_def record_command_bytes Option.bind_assoc case_prod_unfold)

text \<open>What one emitted event does to the channels.\<close>

lemma emit_next_channels:
  assumes "emit_next x s = Some th"
  shows "mt_engine th = mt_engine (sy_thread s)" and "mt_risk th = mt_risk (sy_thread s)"
    and "mt_seq th = mt_seq (sy_thread s)" and "mt_recorder th = mt_recorder (sy_thread s)"
    and "mt_taken th = mt_taken (sy_thread s)"
    and "is_market_data (snd x) \<Longrightarrow> mt_return th = mt_return (sy_thread s)"
    and "\<not> is_market_data (snd x) \<Longrightarrow> mt_market th = mt_market (sy_thread s)"
    and "is_market_data (snd x) \<Longrightarrow> mt_market th = try_send MARKET_DATA_CHANNEL_CAPACITY (snd x) (mt_market (sy_thread s))"
  using assms by (auto simp: emit_next_def emit_event_def step_elims split: prod.splits if_splits)

lemma take_command_channels:
  assumes "take_command conn cmd th = Some (th', out)"
  shows "mt_return th' = mt_return th" and "mt_market th' = mt_market th" and "mt_taken th' = mt_taken th"
    and "mt_conns th' = mt_conns th"
    and "mt_recorder th' = map_option (\<lambda>w. w @ command_bytes cmd) (mt_recorder th)"
    and "process_command (mt_engine th) (mt_risk th) cmd (mt_seq th) = Some ((mt_engine th', mt_risk th', mt_seq th'), out)"
  using assms by (auto simp: take_command_def record_command_bytes step_elims)

lemma step_takeE:
  assumes "sys_step s (Take conn cmd) = Some s'"
  obtains xs th out where "sy_commands s = (conn, cmd) # xs" and "sy_pending s = []"
    and "take_command conn cmd (sy_thread s) = Some (th, out)"
    and "s' = s\<lparr>sy_commands := xs, sy_thread := th, sy_conn := conn, sy_self := command_self_id cmd, sy_pending := out\<rparr>"
  using assms by (auto simp: step_elims neq_Nil_conv split: if_splits)

lemma step_reportE:
  assumes "sys_step s (Emit_Report conn es ev) = Some s'"
  obtains xs th where "sy_pending s = (es, ev) # xs" and "\<not> is_market_data ev" and "emit_next (es, ev) s = Some th"
    and "s' = s\<lparr>sy_thread := th, sy_pending := xs\<rparr>" and "mt_return th = mt_return (sy_thread s) @ [(conn, es, ev)]"
    and "length (mt_return (sy_thread s)) < RETURN_CHANNEL_CAPACITY"
  using assms by (auto simp: step_elims neq_Nil_conv split: if_splits)

lemma step_marketE:
  assumes "sys_step s (Emit_Market ev) = Some s'"
  obtains es xs th where "sy_pending s = (es, ev) # xs" and "is_market_data ev" and "emit_next (es, ev) s = Some th"
    and "s' = s\<lparr>sy_thread := th, sy_pending := xs\<rparr>"
  using assms by (auto simp: step_elims neq_Nil_conv split: if_splits)

section \<open>Channels\<close>

lemma channels_bounded:
  assumes "sys_run rs recorder tr s"
  shows "length (sy_commands s) \<le> COMMAND_CHANNEL_CAPACITY \<and> length (mt_return (sy_thread s)) \<le> RETURN_CHANNEL_CAPACITY \<and>
    length (mt_market (sy_thread s)) \<le> MARKET_DATA_CHANNEL_CAPACITY"
  using assms
proof induction
  case start
  then show ?case by (simp add: system_init_def mthread_init_def)
next
  case (step tr s l s')
  show ?case
    using step.IH step.hyps(2)
  proof (cases l)
    case (Send m)
    then show ?thesis using step by (cases m) (auto simp: step_elims split: prod.splits if_splits)
  next
    case (Take conn cmd)
    then show ?thesis using step by (auto simp: step_elims take_command_channels split: if_splits list.splits)
  next
    case (Emit_Report conn es ev)
    then show ?thesis using step by (auto simp: step_elims emit_next_channels split: if_splits)
  next
    case (Emit_Market ev)
    then show ?thesis using step by (auto simp: step_elims emit_next_channels try_send_def split: if_splits)
  qed (auto simp: step_elims split: prod.splits option.splits if_splits list.splits)
qed

text \<open>Both channels are first-in first-out, and the dispatcher and the fan-out see what comes out.\<close>

lemma channels_fifo:
  assumes "sys_run rs recorder tr s"
  shows "over sent_by tr = over taken_by tr @ sy_commands s \<and>
    over returned_by tr = over delivered_by tr @ mt_return (sy_thread s) \<and>
    run_order_entry order_entry_init (over entry_by tr) = Some (sy_entry s) \<and>
    mt_taken (sy_thread s) = over fanned_by tr"
  using assms
proof induction
  case start
  then show ?case by (simp add: system_init_def mthread_init_def)
next
  case (step tr s l s')
  have snoc: "run_order_entry oe (xs @ [i]) = do { oe \<leftarrow> run_order_entry oe xs; oe_step oe i }" for oe xs i
    by (induction xs arbitrary: oe) (auto simp: Option.bind_assoc)
  show ?case
  proof (cases l)
    case (Send m)
    then show ?thesis using step by (cases m) (auto simp: step_elims split: prod.splits if_splits)
  next
    case (Take conn cmd)
    then show ?thesis using step by (auto simp: step_elims take_command_channels neq_Nil_conv split: if_splits)
  next
    case (Emit_Report conn es ev)
    then show ?thesis using step by (auto simp: step_elims emit_next_channels split: if_splits)
  next
    case (Emit_Market ev)
    then show ?thesis using step by (auto simp: step_elims emit_next_channels split: if_splits)
  qed (use step in \<open>auto simp: step_elims snoc neq_Nil_conv split: prod.splits option.splits if_splits\<close>)
qed

end
