(* ===== verification/System_Inv.thy ===== *)
theory System_Inv
  imports System
begin

text \<open>
  Invariants of the running server, by rule induction over its traces: it processes the commands
  taken off the channel as the risk-checked engine does in sequence; every connection's messages are
  the decoding of the bytes read from it; the matching thread is always able to go on; every
  subscriber is fed the tail of one feed.
\<close>

section \<open>The server is sequential\<close>

lemma run_snoc:
  assumes "run step s cs = Some (mid, out)" and "step mid c = Some (s2, out1)"
  shows "run step s (cs @ [c]) = Some (s2, out @ out1)"
  using assms by (simp add: run_append)

lemma linear:
  assumes "sys_run rs recorder tr s"
  shows "\<exists>past. run process_step (engine_new, rs, 0) (map snd (over taken_by tr)) =
      Some ((mt_engine (sy_thread s), mt_risk (sy_thread s), mt_seq (sy_thread s)), past @ sy_pending s) \<and>
    over emitted_by tr = reports_of past \<and> subseq (mt_taken (sy_thread s) @ mt_market (sy_thread s)) (market_of past) \<and>
    mt_recorder (sy_thread s) = map_option (\<lambda>w. w @ concat (map command_bytes (map snd (over taken_by tr)))) recorder"
    (is "\<exists>past. ?lin tr s past")
  using assms
proof induction
  case start
  then show ?case by (simp add: system_init_def mthread_init_def option.map_ident)
next
  case (step tr s l s')
  then obtain past where past: "?lin tr s past" by blast
  show ?case
  proof (cases l)
    case (Send m)
    then show ?thesis using step.hyps(2) past by (cases m) (auto simp: step_elims split: prod.splits if_splits)
  next
    case (Take conn cmd)
    obtain th out where t: "sy_pending s = []" "take_command conn cmd (sy_thread s) = Some (th, out)"
      "sy_thread s' = th" "sy_pending s' = out"
      using step.hyps(2) unfolding Take by (elim step_takeE) auto
    note c = take_command_channels [OF t(2)]
    have "run process_step (engine_new, rs, 0) (map snd (over taken_by tr) @ [cmd]) =
        Some ((mt_engine th, mt_risk th, mt_seq th), past @ out)"
      using past t(1) c(6) by (intro run_snoc [where mid = "(mt_engine (sy_thread s), mt_risk (sy_thread s), mt_seq (sy_thread s))"]) simp_all
    moreover have "mt_recorder th =
        map_option (\<lambda>w. w @ concat (map command_bytes (map snd (over taken_by tr) @ [cmd]))) recorder"
      using past c(5) by (simp add: option.map_comp comp_def)
    ultimately have "?lin (tr @ [l]) s' past" using past t(3,4) c(2,3) Take by simp
    then show ?thesis ..
  next
    case (Emit_Report conn es ev)
    obtain xs th where t: "sy_pending s = (es, ev) # xs" "\<not> is_market_data ev" "emit_next (es, ev) s = Some th"
      "sy_thread s' = th" "sy_pending s' = xs"
      using step.hyps(2) unfolding Emit_Report by (elim step_reportE) auto
    then have "?lin (tr @ [l]) s' (past @ [(es, ev)])"
      using past emit_next_channels [OF t(3)] Emit_Report by simp
    then show ?thesis ..
  next
    case (Emit_Market ev)
    obtain es xs th where t: "sy_pending s = (es, ev) # xs" "is_market_data ev" "emit_next (es, ev) s = Some th"
      "sy_thread s' = th" "sy_pending s' = xs"
      using step.hyps(2) unfolding Emit_Market by (elim step_marketE) auto
    have sub: "subseq (mt_taken (sy_thread s) @ mt_market (sy_thread s)) (market_of past)" using past by blast
    have "subseq (mt_taken (sy_thread s) @ mt_market th) (market_of past @ [ev])"
    proof (cases "length (mt_market (sy_thread s)) < MARKET_DATA_CHANNEL_CAPACITY")
      case True
      then have "mt_market th = mt_market (sy_thread s) @ [ev]" using emit_next_channels(8) [OF t(3)] t(2) by (simp add: try_send_def)
      then show ?thesis using list_emb_append_mono [OF sub, of "[ev]" "[ev]"] by simp
    next
      case False
      then have "mt_market th = mt_market (sy_thread s)" using emit_next_channels(8) [OF t(3)] t(2) by (simp add: try_send_def)
      then show ?thesis using list_emb_append_mono [OF sub, of "[]" "[ev]"] by simp
    qed
    then have "?lin (tr @ [l]) s' (past @ [(es, ev)])"
      using past emit_next_channels [OF t(3)] t Emit_Market by simp
    then show ?thesis ..
  next
    case (Fan_Out ev)
    then have "?lin (tr @ [l]) s' past" using past step.hyps(2) by (auto simp: step_elims neq_Nil_conv split: if_splits)
    then show ?thesis ..
  qed (use step.hyps(2) past in \<open>auto simp: step_elims split: prod.splits option.splits if_splits\<close>)
qed

section \<open>Subscribers\<close>

lemma subscribers_fed:
  assumes "sys_run rs recorder tr s" and "hm_get (md_subscribers (sy_market s)) i = Some sub"
  shows "\<exists>k \<le> length (over fanned_by tr). subscriber_run sub (drop k (over fanned_by tr))"
  using assms
proof (induction arbitrary: i sub)
  case start
  then show ?case by (simp add: system_init_def market_data_init_def hm_get_def)
next
  case (step tr s l s')
  show ?case
  proof (cases l)
    case (Send m)
    then show ?thesis using step by (cases m) (auto simp: step_elims split: prod.splits if_splits)
  next
    case (Take conn cmd)
    then show ?thesis using step by (auto simp: step_elims split: if_splits)
  next
    case (Fan_Out ev)
    then obtain sub0 where sub0: "hm_get (md_subscribers (sy_market s)) i = Some sub0" "sub = sub_push ev sub0"
      using step.hyps(2) step.prems by (auto simp: step_elims fan_out_get split: if_splits)
    then obtain k where "k \<le> length (over fanned_by tr)" "subscriber_run sub0 (drop k (over fanned_by tr))"
      using step.IH by blast
    then show ?thesis using run_push [of sub0 _ ev] sub0(2) Fan_Out by (intro exI [of _ k]) simp
  next
    case Subscribe
    then have "hm_get (md_subscribers (sy_market s')) i =
        (if i = md_next_id (sy_market s) then Some subscriber_new else hm_get (md_subscribers (sy_market s)) i)"
      using step.hyps(2) by (auto simp: accept_subscriber_def hm_get_insert)
    then show ?thesis using step.IH [of i sub] step.prems run_start Subscribe
      by (cases "i = md_next_id (sy_market s)") auto
  next
    case (Write_Sub j ok)
    then obtain sub0 sub1 where w: "hm_get (md_subscribers (sy_market s)) j = Some sub0" "write_next sub0 = Some (Some sub1)"
      "sy_market s' = (if ok then (sy_market s)\<lparr>md_subscribers := hm_insert j sub1 (md_subscribers (sy_market s))\<rparr>
        else drop_subscriber j (sy_market s))"
      using step.hyps(2) by (auto simp: step_elims)
    have "hm_get (md_subscribers (sy_market s)) i = Some sub \<or> i = j \<and> sub = sub1"
      using step.prems w(3) by (auto simp: drop_subscriber_def hm_get_insert hm_get_remove split: if_splits)
    then show ?thesis using step.IH [of i] step.IH [OF w(1)] run_write [OF _ w(2)] Write_Sub by auto
  qed (use step in \<open>auto simp: step_elims split: prod.splits option.splits if_splits\<close>)
qed

section \<open>The matching thread\<close>

text \<open>While a command's events are being emitted, the rest of them leads to a table that has every
  resting order.\<close>

definition emit_inv :: "system \<Rightarrow> bool" where
  "emit_inv s \<longleftrightarrow> engine_inv (mt_engine (sy_thread s)) \<and>
     (\<exists>m. track (sy_self s) (sy_conn s) (hm_get (mt_conns (sy_thread s))) (map snd (sy_pending s)) = Some m \<and>
        tab_ok (abs_book (engine_book (mt_engine (sy_thread s)))) m)"

lemma emit_next_inv:
  assumes "emit_inv s" and "sy_pending s = x # xs"
  shows "\<exists>th c. emit_next x s = Some th \<and> emit_inv (s\<lparr>sy_thread := th, sy_pending := xs\<rparr>) \<and>
    mt_engine th = mt_engine (sy_thread s) \<and>
    mt_return th = mt_return (sy_thread s) @ (if is_market_data (snd x) then [] else [(c, x)])"
proof -
  obtain m where m: "track (sy_self s) (sy_conn s) (hm_get (mt_conns (sy_thread s))) (snd x # map snd xs) = Some m"
    "tab_ok (abs_book (engine_book (mt_engine (sy_thread s)))) m"
    using assms by (auto simp: emit_inv_def)
  from emit_event_track [OF m(1), of MARKET_DATA_CHANNEL_CAPACITY] m(2) assms(1) show ?thesis
    by (auto simp: emit_next_def emit_inv_def)
qed

lemma take_command_inv:
  assumes "emit_inv s" and "sy_pending s = []" and "command_ok cmd" and "thread_slots (sy_thread s) < 2 ^ 32 - 1"
  shows "\<exists>th out. take_command conn cmd (sy_thread s) = Some (th, out) \<and> thread_slots th \<le> Suc (thread_slots (sy_thread s)) \<and>
    emit_inv (s\<lparr>sy_commands := xs, sy_thread := th, sy_conn := conn, sy_self := command_self_id cmd, sy_pending := out\<rparr>)"
proof -
  let ?th = "sy_thread s"
  have e: "engine_inv (mt_engine ?th)" "tab_ok (abs_book (engine_book (mt_engine ?th))) (hm_get (mt_conns ?th))"
    "book_room (engine_book (mt_engine ?th))"
    using assms by (auto simp: emit_inv_def thread_slots_def intro: book_room_slots)
  obtain e' rs seq out where p: "process_command (mt_engine ?th) (mt_risk ?th) cmd (mt_seq ?th) = Some ((e', rs, seq), out)"
    "engine_inv e'" "slot_count (engine_book e') \<le> Suc (slot_count (engine_book (mt_engine ?th)))"
    using process_returns [OF e(1) assms(3) e(3)] by blast
  obtain m where "track (command_self_id cmd) conn (hm_get (mt_conns ?th)) (map snd out) = Some m"
    "tab_ok (abs_book (engine_book e')) m"
    using process_routed [OF e(1) assms(3) e(3,2) p(1), of conn] unfolding routed_def tab_ok_def by blast
  then show ?thesis using p
    by (simp add: take_command_def record_command_bytes emit_inv_def thread_slots_def)
qed

lemma thread_ok:
  assumes "sys_run rs recorder tr s" and "\<forall>x \<in> set (over taken_by tr). command_ok (snd x)"
    and "length (over taken_by tr) < 2 ^ 32"
  shows "emit_inv s \<and> thread_slots (sy_thread s) \<le> length (over taken_by tr)"
  using assms
proof induction
  case start
  then show ?case using thread_inv_init [of rs recorder]
    by (simp add: system_init_def emit_inv_def thread_inv_def)
      (simp add: thread_slots_def mthread_init_def engine_new_def book_new_def arena_new_def)
next
  case (step tr s l s')
  have ih: "emit_inv s" "thread_slots (sy_thread s) \<le> length (over taken_by tr)" using step by auto
  show ?case
  proof (cases l)
    case (Send m)
    then show ?thesis using step.hyps(2) ih
      by (cases m) (auto simp: step_elims emit_inv_def thread_slots_def split: prod.splits if_splits)
  next
    case (Take conn cmd)
    obtain xs th out where t: "sy_pending s = []" "take_command conn cmd (sy_thread s) = Some (th, out)"
      "s' = s\<lparr>sy_commands := xs, sy_thread := th, sy_conn := conn, sy_self := command_self_id cmd, sy_pending := out\<rparr>"
      using step.hyps(2) unfolding Take by (elim step_takeE) auto
    have "command_ok cmd" "thread_slots (sy_thread s) < 2 ^ 32 - 1" using step.prems Take ih(2) by auto
    from take_command_inv [OF ih(1) t(1) this, of conn xs] t(2,3) ih(2) Take show ?thesis by auto
  next
    case (Emit_Report conn es ev)
    obtain xs th where t: "sy_pending s = (es, ev) # xs" "emit_next (es, ev) s = Some th"
      "s' = s\<lparr>sy_thread := th, sy_pending := xs\<rparr>"
      using step.hyps(2) unfolding Emit_Report by (elim step_reportE) auto
    from emit_next_inv [OF ih(1) t(1)] t(2,3) ih(2) Emit_Report show ?thesis by (auto simp: thread_slots_def)
  next
    case (Emit_Market ev)
    obtain es xs th where t: "sy_pending s = (es, ev) # xs" "emit_next (es, ev) s = Some th"
      "s' = s\<lparr>sy_thread := th, sy_pending := xs\<rparr>"
      using step.hyps(2) unfolding Emit_Market by (elim step_marketE) auto
    from emit_next_inv [OF ih(1) t(1)] t(2,3) ih(2) Emit_Market show ?thesis by (auto simp: thread_slots_def)
  qed (use step.hyps(2) ih in \<open>auto simp: step_elims emit_inv_def thread_slots_def split: prod.splits option.splits if_splits\<close>)
qed

section \<open>Progress\<close>

text \<open>The steps that need nothing from outside. Delivering a report is one of them: a write to a
  socket is taken to return, with success or failure.\<close>

fun internal :: "label \<Rightarrow> bool" where
  "internal (Send _) = True"
| "internal (Reader_Panic _) = True"
| "internal (Take _ _) = True"
| "internal (Emit_Report _ _ _) = True"
| "internal (Emit_Market _) = True"
| "internal (Dispatch _ _ _ _) = True"
| "internal (Fan_Out _) = True"
| "internal _ = False"

text \<open>Nothing is in flight.\<close>

definition quiescent :: "system \<Rightarrow> bool" where
  "quiescent s \<longleftrightarrow> sy_commands s = [] \<and> sy_pending s = [] \<and> mt_return (sy_thread s) = [] \<and> mt_market (sy_thread s) = [] \<and>
     (\<forall>c r. hm_get (sy_readers s) c = Some r \<longrightarrow> rd_todo r = [] \<and> \<not> rd_desync r)"

lemma deliver_returns: "\<exists>oe'. deliver oe conn es ev ok = Some oe'"
  by (simp add: deliver_eq Let_def)

lemma capacities_positive: "0 < COMMAND_CHANNEL_CAPACITY" "0 < RETURN_CHANNEL_CAPACITY"
  by (simp_all add: COMMAND_CHANNEL_CAPACITY_def RETURN_CHANNEL_CAPACITY_def)

lemma reader_next_conn:
  assumes "reader_next c r = Some (m, r')"
  shows "msg_conn m = c"
proof -
  have "msg_conn m = c" if h: "handle_frame c f = Some m" for f
  proof -
    obtain res where "decode_command f = Some res" using h by (auto simp: handle_frame_def bind_eq_Some_iff)
    then show ?thesis using h by (cases res) (auto simp: handle_frame_def msg_conn_def)
  qed
  then show ?thesis using assms by (auto simp: reader_next_def msg_conn_def bind_eq_Some_iff split: list.splits if_splits)
qed

text \<open>With both channels empty a reader that has work can do it.\<close>

lemma reader_progress:
  assumes "hm_get (sy_readers s) c = Some r" and "rd_todo r \<noteq> [] \<or> rd_desync r"
    and "sy_commands s = []" and "mt_return (sy_thread s) = []"
  shows "\<exists>l s'. internal l \<and> sys_step s l = Some s'"
proof (cases "reader_next c r")
  case None
  then have "rd_todo r \<noteq> []" using assms(2) by (auto simp: reader_next_def)
  then show ?thesis using assms(1) None by (intro exI [of _ "Reader_Panic c"]) auto
next
  case (Some p)
  obtain m r' where p: "p = (m, r')" by fastforce
  then show ?thesis using assms(1,3,4) Some reader_next_conn [of c r m r'] capacities_positive
    by (intro exI [of _ "Send m"]) (cases m; auto simp: msg_conn_def)
qed

lemma progress:
  assumes "emit_inv s" and "\<forall>x \<in> set (sy_commands s). command_ok (snd x)" and "thread_slots (sy_thread s) < 2 ^ 32 - 1"
    and "\<not> quiescent s"
  shows "\<exists>l s'. internal l \<and> sys_step s l = Some s'"
proof (cases "mt_return (sy_thread s)")
  case (Cons x xs)
  then show ?thesis using deliver_returns [of "sy_entry s" "fst x" "fst (snd x)" "snd (snd x)" True]
    by (intro exI [of _ "Dispatch (fst x) (fst (snd x)) (snd (snd x)) True"]) auto
next
  case Nil
  note ret = this
  show ?thesis
  proof (cases "sy_pending s")
    case (Cons x xs)
    obtain th c where th: "emit_next x s = Some th"
      "mt_return th = mt_return (sy_thread s) @ (if is_market_data (snd x) then [] else [(c, x)])"
      using emit_next_inv [OF assms(1) Cons] by blast
    obtain es ev where x: "x = (es, ev)" by fastforce
    have "\<exists>s'. sys_step s (if is_market_data ev then Emit_Market ev else Emit_Report c es ev) = Some s'"
      using Cons th x ret capacities_positive by simp
    then show ?thesis by (intro exI [of _ "if is_market_data ev then Emit_Market ev else Emit_Report c es ev"]) auto
  next
    case Nil
    note pend = this
    show ?thesis
    proof (cases "sy_commands s")
      case (Cons x xs)
      obtain th out where "take_command (fst x) (snd x) (sy_thread s) = Some (th, out)"
        using take_command_inv [OF assms(1) pend _ assms(3), of "snd x" "fst x"] assms(2) Cons by fastforce
      then show ?thesis using Cons pend by (intro exI [of _ "Take (fst x) (snd x)"]) auto
    next
      case Nil
      show ?thesis
      proof (cases "mt_market (sy_thread s)")
        case (Cons ev evs)
        then show ?thesis by (intro exI [of _ "Fan_Out ev"]) auto
      next
        case market: Nil
        then show ?thesis using assms(4) ret pend Nil reader_progress [OF _ _ Nil ret] unfolding quiescent_def by blast
      qed
    qed
  qed
qed

section \<open>Termination\<close>

text \<open>The frames and the final reject that readers still owe.\<close>

definition reader_load :: "reader \<Rightarrow> nat" where
  "reader_load r = length (rd_todo r) + (if rd_desync r then 1 else 0)"

definition readers_load :: "(conn_id, reader) hashmap \<Rightarrow> nat" where
  "readers_load m = sum_list (map (\<lambda>x. reader_load (snd x)) m)"

lemma readers_load_insert:
  "hm_get m c = Some r \<Longrightarrow> reader_load r' < reader_load r \<Longrightarrow> readers_load (hm_insert c r' m) < readers_load m"
  by (induction c r' m rule: hm_insert.induct) (auto simp: hm_get_def readers_load_def split: if_splits)

lemma readers_load_remove_le: "readers_load (hm_remove c m) \<le> readers_load m"
  by (induction m) (auto simp: hm_remove_def readers_load_def)

lemma readers_load_remove:
  "hm_get m c = Some r \<Longrightarrow> 0 < reader_load r \<Longrightarrow> readers_load (hm_remove c m) < readers_load m"
proof (induction m)
  case (Cons x m)
  then show ?case using readers_load_remove_le [of c m]
    by (cases x) (auto simp: hm_get_def hm_remove_def readers_load_def split: if_splits)
qed (simp add: hm_get_def)

lemma reader_next_load:
  assumes "hm_get readers c = Some r" and "reader_next c r = Some (m, r')"
  shows "readers_load (set_reader c r' readers) < readers_load readers"
proof (cases r')
  case None
  then have "0 < reader_load r" using assms(2) by (auto simp: reader_next_def reader_load_def bind_eq_Some_iff split: list.splits if_splits)
  then show ?thesis using readers_load_remove [OF assms(1)] None by (simp add: set_reader_def)
next
  case (Some r1)
  then have "reader_load r1 < reader_load r"
    using assms(2) by (auto simp: reader_next_def reader_load_def bind_eq_Some_iff split: list.splits if_splits)
  then show ?thesis using readers_load_insert [OF assms(1)] Some by (simp add: set_reader_def)
qed

lemma internal_decreases:
  assumes "internal l" and "sys_step s l = Some s'"
  shows "(s', s) \<in> measures [\<lambda>s. readers_load (sy_readers s), \<lambda>s. length (sy_commands s), \<lambda>s. length (sy_pending s),
    \<lambda>s. length (mt_return (sy_thread s)), \<lambda>s. length (mt_market (sy_thread s))]"
proof (cases l)
  case (Send m)
  then show ?thesis using assms reader_next_load by (cases m) (auto simp: step_elims split: prod.splits if_splits)
next
  case (Reader_Panic c)
  then obtain r where "hm_get (sy_readers s) c = Some r" "rd_todo r \<noteq> []" "s' = s\<lparr>sy_readers := hm_remove c (sy_readers s)\<rparr>"
    using assms(2) by (auto simp: step_elims split: if_splits)
  then show ?thesis using readers_load_remove [of "sy_readers s" c r] by (simp add: reader_load_def)
next
  case (Take conn cmd)
  then show ?thesis using assms(2) unfolding Take by (elim step_takeE) simp
next
  case (Emit_Report conn es ev)
  then show ?thesis using assms(2) unfolding Emit_Report by (elim step_reportE) simp
next
  case (Emit_Market ev)
  then show ?thesis using assms(2) unfolding Emit_Market by (elim step_marketE) simp
qed (use assms in \<open>auto simp: step_elims neq_Nil_conv split: if_splits\<close>)

end
