(* ===== verification/System_Flow.thy ===== *)
theory System_Flow
  imports System_Inv
begin

text \<open>
  What the clients of the running server see: connection numbers are fresh, every report goes to a
  connection that was accepted, the bytes written to a connection are its reports, numbered without
  gaps, and the messages of a reader are the decoding of the bytes it read.
\<close>

section \<open>Connection numbers\<close>

definition conns_known :: "system \<Rightarrow> bool" where
  "conns_known s \<longleftrightarrow> (let n = oe_next_conn_id (sy_entry s) in
     (\<forall>c. hm_get (sy_readers s) c \<noteq> None \<longrightarrow> c < n) \<and> list_all (\<lambda>x. fst x < n) (sy_commands s) \<and>
     list_all (\<lambda>x. fst x < n) (mt_return (sy_thread s)) \<and> (\<forall>c \<in> ran (hm_get (mt_conns (sy_thread s))). c < n) \<and>
     (sy_pending s \<noteq> [] \<longrightarrow> sy_conn s < n))"

lemma accepts_append [simp]: "accepts (xs @ ys) = accepts xs + accepts ys"
  by (induction xs rule: accepts.induct) auto

lemma deliver_get:
  assumes "deliver oe conn es ev ok = Some oe'"
  shows "oe_next_conn_id oe' = oe_next_conn_id oe"
    and "c \<noteq> conn \<Longrightarrow> hm_get (oe_writers oe') c = hm_get (oe_writers oe) c \<and> hm_get (oe_seqs oe') c = hm_get (oe_seqs oe) c"
    and "hm_get (oe_writers oe') conn = Some w' \<Longrightarrow>
      \<exists>w seq. hm_get (oe_writers oe) conn = Some w \<and> seq = (case hm_get (oe_seqs oe) conn of None \<Rightarrow> 0 | Some n \<Rightarrow> n) \<and>
        w' = w @ event_bytes (seq + 1) es ev \<and> hm_get (oe_seqs oe') conn = Some (seq + 1)"
  using assms
  by (auto simp: deliver_eq Let_def hm_get_insert hm_get_remove split: option.splits if_splits)

lemma emit_next_conns:
  assumes "emit_next x s = Some th" and "sy_conn s < n" and "\<forall>c \<in> ran (hm_get (mt_conns (sy_thread s))). c < n"
    and "list_all (\<lambda>y. fst y < n) (mt_return (sy_thread s))"
  shows "(\<forall>c \<in> ran (hm_get (mt_conns th)). c < n) \<and> list_all (\<lambda>y. fst y < n) (mt_return th)"
proof -
  let ?conns = "mt_conns (sy_thread s)"
  have r: "route_of ?conns (sy_self s) (sy_conn s) (sy_conn s) i < n" for i
    using assms(2,3) ranI [of "hm_get ?conns" i] by (auto simp: route_of_def split: option.split)
  have u: "c < n" if "c \<in> ran (upd_tab i d ev (hm_get ?conns))" "d < n" for i d ev c
    using assms(3) that by (cases ev) (auto simp: ran_def split: if_splits)
  show ?thesis
    using assms r u
    by (auto simp: emit_next_def emit_event_def step_elims hm_get_update_conns split: prod.splits if_splits)
qed

lemma emit_next_known:
  assumes "conns_known s" and "sy_pending s = x # xs" and "emit_next x s = Some th"
  shows "conns_known (s\<lparr>sy_thread := th, sy_pending := xs\<rparr>)"
proof -
  let ?n = "oe_next_conn_id (sy_entry s)"
  have k: "sy_conn s < ?n" "\<forall>c \<in> ran (hm_get (mt_conns (sy_thread s))). c < ?n"
    "list_all (\<lambda>y. fst y < ?n) (mt_return (sy_thread s))"
    using assms(1,2) by (simp_all add: conns_known_def Let_def)
  show ?thesis using assms(1) k(1) emit_next_conns [OF assms(3) k] by (simp add: conns_known_def Let_def)
qed

lemma next_conn:
  assumes "unat n + 1 < 2 ^ 64"
  shows "unat (n + 1 :: u64) = Suc (unat n)" and "c < n + 1 \<longleftrightarrow> c < n \<or> c = n"
proof -
  show u: "unat (n + 1 :: u64) = Suc (unat n)" using assms unat_word_ariths(1) [of n 1] by simp
  show "c < n + 1 \<longleftrightarrow> c < n \<or> c = n"
    unfolding word_less_nat_alt u using less_Suc_eq [of "unat c" "unat n"] by auto
qed

lemma list_all_next:
  assumes "unat (n :: u64) + 1 < 2 ^ 64" and "list_all (\<lambda>x. fst x < n) xs"
  shows "list_all (\<lambda>x. fst x < n + 1) xs"
  using assms(2) by (rule list.pred_mono_strong) (simp add: next_conn(2) [OF assms(1)])

lemma known_conns:
  assumes "sys_run rs recorder tr s" and "accepts (over entry_by tr) + 2 < 2 ^ 64"
  shows "unat (oe_next_conn_id (sy_entry s)) = Suc (accepts (over entry_by tr)) \<and> conns_known s"
  using assms
proof induction
  case start
  have "ran (hm_get ([] :: (order_key, conn_id) hashmap)) = {}" by (auto simp: hm_get_def ran_def)
  then show ?case
    by (simp add: system_init_def conns_known_def order_entry_init_def mthread_init_def hm_get_def)
next
  case (step tr s l s')
  have n: "unat (oe_next_conn_id (sy_entry s)) = Suc (accepts (over entry_by tr))" and k: "conns_known s"
    using step by auto
  show ?case
  proof (cases l)
    case (Accept cloned)
    have b: "unat (oe_next_conn_id (sy_entry s)) + 1 < 2 ^ 64" using n step.prems Accept by simp
    note nc = next_conn [OF b]
    have "oe_next_conn_id (sy_entry s') = oe_next_conn_id (sy_entry s) + 1" "sy_thread s' = sy_thread s"
      "sy_commands s' = sy_commands s" "sy_pending s' = sy_pending s" "sy_conn s' = sy_conn s"
      "sy_readers s' = sy_readers s \<or> sy_readers s' = hm_insert (oe_next_conn_id (sy_entry s)) reader_new (sy_readers s)"
      using step.hyps(2) Accept by (auto simp: accept_conn_def Let_def split: if_splits)
    then show ?thesis using n k nc(1) nc(2) [THEN iffD2] Accept
        list_all_next [OF b, of "sy_commands s"] list_all_next [OF b, of "mt_return (sy_thread s)"]
      by (auto simp: conns_known_def Let_def hm_get_insert split: if_splits)
  next
    case (Read c chunk)
    then show ?thesis using step.hyps(2) n k
      by (auto simp: step_elims conns_known_def set_reader_def hm_get_insert hm_get_remove split: option.splits if_splits)
  next
    case (Send m)
    then show ?thesis using step.hyps(2) n k
      by (cases m) (auto simp: step_elims conns_known_def set_reader_def hm_get_insert hm_get_remove
          split: option.splits prod.splits if_splits)
  next
    case (Take conn cmd)
    obtain xs th out where t: "sy_commands s = (conn, cmd) # xs" "take_command conn cmd (sy_thread s) = Some (th, out)"
      "s' = s\<lparr>sy_commands := xs, sy_thread := th, sy_conn := conn, sy_self := command_self_id cmd, sy_pending := out\<rparr>"
      using step.hyps(2) unfolding Take by (elim step_takeE) auto
    then show ?thesis using n k Take take_command_channels [OF t(2)] by (auto simp: conns_known_def Let_def)
  next
    case (Emit_Report conn es ev)
    obtain xs th where t: "sy_pending s = (es, ev) # xs" "emit_next (es, ev) s = Some th"
      "s' = s\<lparr>sy_thread := th, sy_pending := xs\<rparr>"
      using step.hyps(2) unfolding Emit_Report by (elim step_reportE) auto
    then show ?thesis using n Emit_Report emit_next_known [OF k t(1,2)] by simp
  next
    case (Emit_Market ev)
    obtain es xs th where t: "sy_pending s = (es, ev) # xs" "emit_next (es, ev) s = Some th"
      "s' = s\<lparr>sy_thread := th, sy_pending := xs\<rparr>"
      using step.hyps(2) unfolding Emit_Market by (elim step_marketE) auto
    then show ?thesis using n Emit_Market emit_next_known [OF k t(1,2)] by simp
  next
    case (Dispatch conn es ev ok)
    then show ?thesis using step.hyps(2) n k
      by (auto simp: step_elims conns_known_def deliver_get(1) neq_Nil_conv split: if_splits)
  qed (use step.hyps(2) n k in \<open>auto simp: step_elims conns_known_def hm_get_remove split: if_splits\<close>)
qed

section \<open>Delivery\<close>

text \<open>The part of a stream that belongs to one connection.\<close>

definition for_conn :: "conn_id \<Rightarrow> (conn_id \<times> 'a) list \<Rightarrow> 'a list" where
  "for_conn c xs = map snd (filter (\<lambda>x. fst x = c) xs)"

lemma for_conn_simps [simp]:
  "for_conn c [] = []" "for_conn c (xs @ ys) = for_conn c xs @ for_conn c ys"
  "for_conn c ((d, x) # xs) = (if d = c then x # for_conn c xs else for_conn c xs)"
  by (simp_all add: for_conn_def)

definition entry_inv :: "conn_id \<Rightarrow> order_entry \<Rightarrow> (engine_seq \<times> event) list \<Rightarrow> bool" where
  "entry_inv c oe got \<longleftrightarrow>
     (oe_next_conn_id oe \<le> c \<longrightarrow> hm_get (oe_writers oe) c = None \<and> hm_get (oe_seqs oe) c = None \<and> got = []) \<and>
     (\<forall>w. hm_get (oe_writers oe) c = Some w \<longrightarrow> w = concat (map reply_bytes (number_from 0 got)) \<and>
        (case hm_get (oe_seqs oe) c of None \<Rightarrow> 0 | Some n \<Rightarrow> n) = of_nat (length got))"

lemma entry_inv_accept:
  assumes "entry_inv c oe got" and "unat (oe_next_conn_id oe) + 1 < 2 ^ 64"
  shows "entry_inv c (fst (accept_conn oe cloned)) got"
proof (cases "c = oe_next_conn_id oe")
  case True
  have "oe_next_conn_id oe < oe_next_conn_id oe + 1" using next_conn(2) [OF assms(2)] by simp
  then show ?thesis using assms(1) True by (auto simp: entry_inv_def accept_conn_def Let_def hm_get_insert)
next
  case False
  then have "oe_next_conn_id oe \<le> c" if "oe_next_conn_id oe + 1 \<le> c"
    using that next_conn(2) [OF assms(2), of c] by (auto simp: not_less [symmetric])
  then show ?thesis using assms(1) False accept_other [OF False, of cloned] by (auto simp: entry_inv_def)
qed

lemma entry_inv_deliver:
  assumes inv: "entry_inv c oe got" and d: "deliver oe conn es ev ok = Some oe'" and known: "conn < oe_next_conn_id oe"
  shows "entry_inv c oe' (got @ for_conn c [(conn, es, ev)])"
proof (cases "conn = c")
  case True
  have "w' = concat (map reply_bytes (number_from 0 (got @ [(es, ev)]))) \<and>
      (case hm_get (oe_seqs oe') c of None \<Rightarrow> 0 | Some n \<Rightarrow> n) = of_nat (length (got @ [(es, ev)]))"
    if w': "hm_get (oe_writers oe') c = Some w'" for w'
  proof -
    obtain w seq where w: "hm_get (oe_writers oe) c = Some w" "seq = (case hm_get (oe_seqs oe) c of None \<Rightarrow> 0 | Some n \<Rightarrow> n)"
      "w' = w @ event_bytes (seq + 1) es ev" "hm_get (oe_seqs oe') c = Some (seq + 1)"
      using deliver_get(3) [OF d] w' True by blast
    then have "w = concat (map reply_bytes (number_from 0 got))" "seq = of_nat (length got)"
      using inv by (simp_all add: entry_inv_def)
    then show ?thesis using w(3,4) by (simp add: number_from_append reply_bytes_def)
  qed
  moreover have "\<not> oe_next_conn_id oe' \<le> c" using known True deliver_get(1) [OF d] by auto
  ultimately show ?thesis using True by (simp add: entry_inv_def)
next
  case False
  then show ?thesis using inv deliver_get(1) [OF d] deliver_get(2) [OF d, of c] by (simp add: entry_inv_def)
qed

lemma delivered:
  assumes "sys_run rs recorder tr s" and "accepts (over entry_by tr) + 2 < 2 ^ 64"
  shows "entry_inv c (sy_entry s) (for_conn c (over delivered_by tr))"
  using assms
proof induction
  case start
  then show ?case by (simp add: system_init_def order_entry_init_def entry_inv_def hm_get_def)
next
  case (step tr s l s')
  have ih: "entry_inv c (sy_entry s) (for_conn c (over delivered_by tr))"
    and k: "unat (oe_next_conn_id (sy_entry s)) = Suc (accepts (over entry_by tr))" "conns_known s"
    using step known_conns [OF step.hyps(1)] by auto
  show ?case
  proof (cases l)
    case (Accept cloned)
    have "sy_entry s' = fst (accept_conn (sy_entry s) cloned)"
      using step.hyps(2) Accept by (auto split: prod.splits option.splits)
    then show ?thesis using entry_inv_accept [OF ih, of cloned] k(1) step.prems Accept by simp
  next
    case (Dispatch conn es ev ok)
    then obtain xs where "mt_return (sy_thread s) = (conn, es, ev) # xs" "deliver (sy_entry s) conn es ev ok = Some (sy_entry s')"
      using step.hyps(2) by (auto simp: step_elims neq_Nil_conv split: if_splits)
    then show ?thesis using entry_inv_deliver [OF ih] k(2) Dispatch by (simp add: conns_known_def Let_def)
  next
    case (Send m)
    then show ?thesis using step.hyps(2) ih by (cases m) (auto simp: step_elims split: prod.splits if_splits)
  next
    case (Take conn cmd)
    then show ?thesis using step.hyps(2) ih unfolding Take by (elim step_takeE) simp
  qed (use step.hyps(2) ih in \<open>auto simp: step_elims split: if_splits option.splits\<close>)
qed

section \<open>Readers\<close>

text \<open>A reader has handled the first frames of what it read; the messages it sent are their decoding.\<close>

definition reader_ok :: "conn_id \<Rightarrow> bytes \<Rightarrow> reader_msg list \<Rightarrow> reader \<Rightarrow> bool" where
  "reader_ok c bs said r \<longleftrightarrow> (\<exists>handled res. split_frames bs = (handled @ rd_todo r, framer_buf (rd_framer r), res) \<and>
     handle_frames c handled = Some said \<and> rd_desync r = (res \<noteq> Inr ()))"

text \<open>The same without the reader, which may have ended: only then can the reject of an unknown tag
  have been sent.\<close>

definition said_ok :: "conn_id \<Rightarrow> bytes \<Rightarrow> reader_msg list \<Rightarrow> bool" where
  "said_ok c bs said \<longleftrightarrow> (\<exists>handled frames left res ms. split_frames bs = (handled @ frames, left, res) \<and>
     handle_frames c handled = Some ms \<and>
     (said = ms \<or> frames = [] \<and> res \<noteq> Inr () \<and>
        said = ms @ [To_Return c WIRE_LEVEL_REJECT_ENGINE_SEQ (malformed_reject UnknownMessageType)]))"

lemma reader_ok_said: "reader_ok c bs said r \<Longrightarrow> said_ok c bs said"
  unfolding reader_ok_def said_ok_def by blast

lemma reader_ok_new: "reader_ok c [] [] reader_new"
  by (simp add: reader_ok_def reader_new_def framer_new_def split_frames_eqs)

lemma reader_ok_read:
  assumes "reader_ok c bs said r" and "rd_todo r = []" and "\<not> rd_desync r" and "reader_read chunk r = Some r'"
  shows "reader_ok c (bs @ chunk) said r'"
proof -
  obtain handled where h: "split_frames bs = (handled, framer_buf (rd_framer r), Inr ())" "handle_frames c handled = Some said"
    using assms(1-3) by (auto simp: reader_ok_def)
  obtain fs left res where s: "split_frames (framer_buf (rd_framer r) @ chunk) = (fs, left, res)" by (metis prod.exhaust)
  then have "rd_todo r' = fs" "framer_buf (rd_framer r') = left" "rd_desync r' = (res \<noteq> Inr ())"
    using assms(4) by (auto simp: reader_read_def drain_frames_split feed_def split: if_splits sum.splits)
  then show ?thesis using split_frames_append [OF h(1) s] h(2) by (auto simp: reader_ok_def)
qed

lemma reader_ok_next:
  assumes "reader_ok c bs said r" and "reader_next c r = Some (m, r')"
  shows "said_ok c bs (said @ [m]) \<and> (\<forall>r1. r' = Some r1 \<longrightarrow> reader_ok c bs (said @ [m]) r1)"
proof -
  obtain handled res where h: "split_frames bs = (handled @ rd_todo r, framer_buf (rd_framer r), res)"
    "handle_frames c handled = Some said" "rd_desync r = (res \<noteq> Inr ())"
    using assms(1) by (auto simp: reader_ok_def)
  show ?thesis
  proof (cases "rd_todo r")
    case Nil
    then have "r' = None" "res \<noteq> Inr ()" "m = To_Return c WIRE_LEVEL_REJECT_ENGINE_SEQ (malformed_reject UnknownMessageType)"
      using assms(2) h(3) by (auto simp: reader_next_def split: if_splits)
    then show ?thesis using h(1,2) Nil by (auto simp: said_ok_def)
  next
    case (Cons f fs)
    then have n: "handle_frame c f = Some m" "r' = Some (r\<lparr>rd_todo := fs\<rparr>)"
      using assms(2) by (auto simp: reader_next_def bind_eq_Some_iff)
    have "handle_frames c (handled @ [f]) = Some (said @ [m])" using h(2) n(1) by (simp add: handle_frames_append)
    then have "reader_ok c bs (said @ [m]) (r\<lparr>rd_todo := fs\<rparr>)"
      using h(1,3) Cons by (auto simp: reader_ok_def intro!: exI [of _ "handled @ [f]"])
    then show ?thesis using n(2) reader_ok_said by blast
  qed
qed

text \<open>All readers at once, by connection.\<close>

definition conn_inv :: "conn_id \<Rightarrow> label list \<Rightarrow> system \<Rightarrow> bool" where
  "conn_inv c tr s \<longleftrightarrow> said_ok c (over (read_by c) tr) (over (said_by c) tr) \<and>
     (oe_next_conn_id (sy_entry s) \<le> c \<longrightarrow> over (read_by c) tr = [] \<and> over (said_by c) tr = []) \<and>
     (\<forall>r. hm_get (sy_readers s) c = Some r \<longrightarrow> reader_ok c (over (read_by c) tr) (over (said_by c) tr) r)"

lemma conn_inv_same:
  assumes "conn_inv c tr s" and "read_by c l = []" and "said_by c l = []" and "sy_readers s' = sy_readers s"
    and "oe_next_conn_id (sy_entry s') = oe_next_conn_id (sy_entry s)"
  shows "conn_inv c (tr @ [l]) s'"
  using assms by (simp add: conn_inv_def)

lemma conn_inv_set:
  assumes "conn_inv c tr s" and "hm_get (sy_readers s) conn = Some r" and "conns_known s"
    and "sy_readers s' = set_reader conn r' (sy_readers s)" and "sy_entry s' = sy_entry s"
    and "conn \<noteq> c \<Longrightarrow> read_by c l = [] \<and> said_by c l = []"
    and "conn = c \<Longrightarrow> said_ok c (over (read_by c) (tr @ [l])) (over (said_by c) (tr @ [l])) \<and>
      (\<forall>r1. r' = Some r1 \<longrightarrow> reader_ok c (over (read_by c) (tr @ [l])) (over (said_by c) (tr @ [l])) r1)"
  shows "conn_inv c (tr @ [l]) s'"
proof -
  have "conn < oe_next_conn_id (sy_entry s)" using assms(2,3) by (auto simp: conns_known_def Let_def)
  then show ?thesis using assms
    by (cases "conn = c") (auto simp: conn_inv_def set_reader_def hm_get_insert hm_get_remove split: option.splits)
qed

lemma readers_ok:
  assumes "sys_run rs recorder tr s" and "accepts (over entry_by tr) + 2 < 2 ^ 64"
  shows "conn_inv c tr s"
  using assms
proof induction
  case start
  have "split_frames [] = ([] @ [], [], Inr ())" "handle_frames c [] = Some []" by (simp_all add: split_frames_eqs)
  then have "said_ok c [] []" unfolding said_ok_def by blast
  then show ?case by (simp add: conn_inv_def system_init_def hm_get_def)
next
  case (step tr s l s')
  have ih: "conn_inv c tr s" and k: "unat (oe_next_conn_id (sy_entry s)) = Suc (accepts (over entry_by tr))" "conns_known s"
    using step known_conns [OF step.hyps(1)] by auto
  show ?case
  proof (cases l)
    case (Accept cloned)
    let ?n = "oe_next_conn_id (sy_entry s)"
    have b: "unat ?n + 1 < 2 ^ 64" using k(1) step.prems Accept by simp
    have s': "oe_next_conn_id (sy_entry s') = ?n + 1"
      "sy_readers s' = sy_readers s \<or> sy_readers s' = hm_insert ?n reader_new (sy_readers s)"
      using step.hyps(2) Accept by (auto simp: accept_conn_def Let_def split: if_splits)
    have "?n \<le> d" if "?n + 1 \<le> d" for d using that next_conn(2) [OF b, of d] by (auto simp: not_less [symmetric])
    then show ?thesis using ih s' reader_ok_new [of c] Accept
      by (cases "c = ?n") (auto simp: conn_inv_def hm_get_insert)
  next
    case (Read conn chunk)
    then obtain r where r: "hm_get (sy_readers s) conn = Some r" "rd_todo r = []" "\<not> rd_desync r"
      "s' = s\<lparr>sy_readers := set_reader conn (reader_read chunk r) (sy_readers s)\<rparr>"
      using step.hyps(2) by (auto simp: step_elims split: if_splits)
    have "reader_read chunk r = None \<longleftrightarrow> chunk = []" by (simp add: reader_read_def Let_def split: prod.split)
    moreover have "reader_ok c (over (read_by c) tr) (over (said_by c) tr) r" if "conn = c"
      using ih r(1) that by (simp add: conn_inv_def)
    ultimately have "said_ok c (over (read_by c) tr @ chunk) (over (said_by c) tr) \<and> (\<forall>r1. reader_read chunk r = Some r1 \<longrightarrow>
        reader_ok c (over (read_by c) tr @ chunk) (over (said_by c) tr) r1)" if "conn = c"
      using that reader_ok_read [OF _ r(2,3)] reader_ok_said [of c] by (cases "reader_read chunk r") (simp, blast)
    then show ?thesis using Read r(4) by (intro conn_inv_set [OF ih r(1) k(2)]) auto
  next
    case (Send m)
    obtain r r' where r: "hm_get (sy_readers s) (msg_conn m) = Some r" "reader_next (msg_conn m) r = Some (m, r')"
      "sy_readers s' = set_reader (msg_conn m) r' (sy_readers s)" "sy_entry s' = sy_entry s"
      using step.hyps(2) Send by (cases m) (auto simp: step_elims msg_conn_def split: prod.splits if_splits)
    have "reader_ok c (over (read_by c) tr) (over (said_by c) tr) r" if "msg_conn m = c"
      using ih r(1) that by (simp add: conn_inv_def)
    then show ?thesis using Send r(3,4) reader_ok_next [OF _ r(2)] by (intro conn_inv_set [OF ih r(1) k(2)]) auto
  next
    case (Reader_Panic conn)
    then obtain r where r: "hm_get (sy_readers s) conn = Some r" "sy_readers s' = set_reader conn None (sy_readers s)" "sy_entry s' = sy_entry s"
      using step.hyps(2) by (auto simp: step_elims set_reader_def split: if_splits)
    then show ?thesis using Reader_Panic ih by (intro conn_inv_set [OF ih r(1) k(2)]) (auto simp: conn_inv_def)
  next
    case (Take conn cmd)
    then show ?thesis using step.hyps(2) unfolding Take by (elim step_takeE) (simp add: conn_inv_same [OF ih])
  next
    case (Dispatch conn es ev ok)
    then show ?thesis using step.hyps(2)
      by (intro conn_inv_same [OF ih]) (auto simp: step_elims deliver_get(1) split: if_splits)
  qed (use step.hyps(2) in \<open>auto simp: step_elims split: if_splits intro!: conn_inv_same [OF ih]\<close>)
qed

definition commands_of :: "reader_msg list \<Rightarrow> command list" where
  "commands_of ms = concat (map (\<lambda>m. case m of To_Command _ cmd \<Rightarrow> [cmd] | To_Return _ _ _ \<Rightarrow> []) ms)"

lemma sent_by_conn: "for_conn c (over sent_by tr) = commands_of (over (said_by c) tr)"
proof (induction tr)
  case (Cons l tr)
  have "for_conn c (sent_by l) = commands_of (said_by c l)"
  proof (cases l)
    case (Send m)
    then show ?thesis by (cases m) (auto simp: msg_conn_def commands_of_def)
  qed (auto simp: commands_of_def)
  then show ?case using Cons by (simp add: commands_of_def)
qed (simp add: commands_of_def)

text \<open>Whatever reaches the command channel passed validation.\<close>

lemma sent_wire_ok:
  assumes "sys_run rs recorder tr s" and "accepts (over entry_by tr) + 2 < 2 ^ 64" and "x \<in> set (over sent_by tr)"
  shows "wire_ok (snd x)"
proof -
  obtain c cmd where x: "x = (c, cmd)" by fastforce
  have "cmd \<in> set (for_conn c (over sent_by tr))" using assms(3) x by (force simp: for_conn_def)
  then obtain d where d: "To_Command d cmd \<in> set (over (said_by c) tr)"
    unfolding sent_by_conn by (auto simp: commands_of_def split: reader_msg.splits)
  have "said_ok c (over (read_by c) tr) (over (said_by c) tr)"
    using readers_ok [OF assms(1,2), of c] by (simp add: conn_inv_def)
  then obtain frames ms where "handle_frames c frames = Some ms" "To_Command d cmd \<in> set ms"
    using d unfolding said_ok_def by auto
  then show ?thesis using handle_frames_commands x by simp
qed

end
