(* ===== verification/System_Props.thy ===== *)
theory System_Props
  imports System_Flow Risk_Props
begin

text \<open>
  The properties of the gateway, market data, replay and the server as a whole, each with a
  witness on a concrete run.
\<close>

section \<open>The matching thread\<close>

lemma a_present_index: "book_inv b \<Longrightarrow> hm_contains (book_order_index b) k \<Longrightarrow> a_present (abs_book b) k"
  using a_present_abs by blast


definition demo_inputs :: "mt_input list" where
  "demo_inputs = [Command_In 1 (NewOrder 1 1 Sell 105 20 Limit Gtc 0), Command_In 2 (NewOrder 2 1 Sell 104 10 Limit Gtc 0), Market_Out]"


section \<open>Order entry\<close>

text \<open>The reader depends on the bytes alone and forwards nothing invalid: however the stream is
  cut into reads, its output is that of the whole stream, and every command it sends to the
  matching thread carries its own connection and passed validation.\<close>

theorem reader_validates:
  assumes "\<forall>c \<in> set chunks. c \<noteq> []"
  shows "run_reader conn framer_new chunks = read_stream conn (concat chunks) \<and>
    (\<forall>ms c cmd. run_reader conn framer_new chunks = Some ms \<longrightarrow> To_Command c cmd \<in> set ms \<longrightarrow> c = conn \<and> wire_ok cmd)"
proof -
  have r: "run_reader conn framer_new chunks = read_stream conn (concat chunks)"
    using run_reader_stream [of framer_new chunks conn] assms by (simp add: framer_new_def split_frames_eqs)
  have "c = conn \<and> wire_ok cmd" if ms: "read_stream conn (concat chunks) = Some ms" "To_Command c cmd \<in> set ms" for ms c cmd
  proof -
    obtain frames left res where s: "split_frames (concat chunks) = (frames, left, res)" by (metis prod.exhaust)
    then obtain ms0 where "handle_frames conn frames = Some ms0" "To_Command c cmd \<in> set ms0"
      using ms by (cases "handle_frames conn frames") (auto simp: read_stream_def split: sum.splits)
    then show ?thesis using handle_frames_commands by blast
  qed
  then show ?thesis using r by simp
qed

theorem reader_validates_witness:
  "run_reader 5 framer_new [[4, 9, 0, 0], [0, 0, 0, 0, 0, 6, 99]] = read_stream 5 (concat [[4, 9, 0, 0], [0, 0, 0, 0, 0, 6, 99]]) \<and>
    (\<exists>ms. run_reader 5 framer_new [[4, 9, 0, 0], [0, 0, 0, 0, 0, 6, 99]] = Some ms \<and>
      (\<forall>c cmd. To_Command c cmd \<in> set ms \<longrightarrow> c = 5 \<and> wire_ok cmd))"
proof -
  have "run_reader 5 framer_new [[4, 9, 0, 0], [0, 0, 0, 0, 0, 6, 99]] =
      Some [To_Command 5 (MassCancel 9), To_Command 5 Snapshot, To_Return 5 0 (Rejected 0 0 UnknownMessageType)]"
    by code_simp
  moreover have "\<forall>c \<in> set [[4, 9, 0, 0], [0, 0, 0, 0, 0, 6, 99 :: 8 word]]. c \<noteq> []" by simp
  note reader_validates [OF this, of 5]
  ultimately show ?thesis by blast
qed

lemma reply_bytes_decode:
  assumes "concat chunks = concat (map reply_bytes ms)"
  shows "\<exists>f fs. pump framer_new chunks = (f, fs, Inr ()) \<and> pending f = 0 \<and>
    map decode_event fs = map (\<lambda>(n, es, ev). Some (Inr (n, if is_report ev then Some es else None, ev))) ms"
proof -
  let ?g = "\<lambda>(n, es, ev). (n, if is_report ev then Some es else None, ev)"
  have "event_bytes n (case if is_report ev then Some es else None of None \<Rightarrow> 0 | Some e \<Rightarrow> e) ev = event_bytes n es ev"
    for n es ev by (cases ev) (simp_all add: event_bytes_def)
  then have "map reply_bytes ms = map (\<lambda>(seq, es, ev). event_bytes seq (case es of None \<Rightarrow> 0 | Some e \<Rightarrow> e) ev) (map ?g ms)"
    by (auto simp: reply_bytes_def)
  then have c: "concat chunks = concat (map (\<lambda>(seq, es, ev). event_bytes seq (case es of None \<Rightarrow> 0 | Some e \<Rightarrow> e) ev) (map ?g ms))"
    using assms by (simp only:)
  have "\<forall>m \<in> set (map ?g ms). case m of (seq, es, ev) \<Rightarrow> (es \<noteq> None) = is_report ev" by (auto split: if_splits)
  from event_codec.stream_roundtrip [OF c this] show ?thesis by (auto simp: comp_def case_prod_unfold)
qed

section \<open>The running server\<close>

text \<open>A run with one client and one subscriber: the client's order rests.\<close>

definition demo_order :: command where
  "demo_order = NewOrder 7 1 Buy 100 5 Limit Gtc 0"

definition demo_trace :: "label list" where
  "demo_trace = [Accept True, Subscribe, Read 1 (take 10 (command_bytes demo_order)), Read 1 (drop 10 (command_bytes demo_order)),
     Send (To_Command 1 demo_order), Take 1 demo_order, Emit_Report 1 1 (Accepted 7 1 5),
     Emit_Market (BookUpdate (Some (100, 5)) None), Dispatch 1 1 (Accepted 7 1 5) True,
     Fan_Out (BookUpdate (Some (100, 5)) None), Write_Sub 1 True]"

definition demo_server :: system where
  "demo_server = the (sys_exec (system_init (risk_state_new (load_config None)) (Some [])) demo_trace)"

lemma demo_run: "sys_run (risk_state_new (load_config None)) (Some []) demo_trace demo_server"
proof -
  have "sys_exec (system_init (risk_state_new (load_config None)) (Some [])) demo_trace \<noteq> None"
    unfolding demo_trace_def demo_order_def by code_simp
  then have "sys_exec (system_init (risk_state_new (load_config None)) (Some [])) demo_trace = Some demo_server"
    by (auto simp: demo_server_def)
  from sys_run_exec [OF start this] show ?thesis by simp
qed

lemma demo_bounds:
  "accepts (over entry_by demo_trace) + 2 < 2 ^ 64" "length (over sent_by demo_trace) < 2 ^ 32 - 1"
  "\<forall>x \<in> set (over sent_by demo_trace). command_ok (snd x)" "length (over fanned_by demo_trace) < 2 ^ 64"
  by (simp_all add: demo_trace_def demo_order_def command_ok_def)




text \<open>C8. The server behaves like one sequential machine fed by its clients: the commands it takes are
  processed exactly as the risk-checked engine processes them one after the other, its reports are
  those of that run in their order; commands are taken in the order they were sent; and what each
  connection sent is the decoding of the first frames of the bytes read from it, in order, however
  they were cut into reads.\<close>

theorem server_linearises:
  assumes run: "sys_run rs recorder tr s" and small: "accepts (over entry_by tr) + 2 < 2 ^ 64"
  shows "(\<exists>past. run process_step (engine_new, rs, 0) (map snd (over taken_by tr)) =
      Some ((mt_engine (sy_thread s), mt_risk (sy_thread s), mt_seq (sy_thread s)), past @ sy_pending s) \<and>
      over emitted_by tr = reports_of past) \<and>
    over sent_by tr = over taken_by tr @ sy_commands s \<and>
    (\<forall>c. \<exists>n ms. handle_frames c (take n (fst (split_frames (over (read_by c) tr)))) = Some ms \<and>
      for_conn c (over sent_by tr) = commands_of ms)"
proof -
  have "\<exists>n ms. handle_frames c (take n (fst (split_frames (over (read_by c) tr)))) = Some ms \<and>
      for_conn c (over sent_by tr) = commands_of ms" for c
  proof -
    have "said_ok c (over (read_by c) tr) (over (said_by c) tr)"
      using readers_ok [OF run small, of c] by (simp add: conn_inv_def)
    then obtain handled frames left res ms where h: "split_frames (over (read_by c) tr) = (handled @ frames, left, res)"
      "handle_frames c handled = Some ms"
      and "over (said_by c) tr = ms \<or> over (said_by c) tr = ms @ [To_Return c WIRE_LEVEL_REJECT_ENGINE_SEQ (malformed_reject UnknownMessageType)]"
      unfolding said_ok_def by blast
    then have "for_conn c (over sent_by tr) = commands_of ms" using sent_by_conn [of c tr] by (auto simp: commands_of_def)
    then show ?thesis using h by (intro exI [of _ "length handled"] exI [of _ ms]) simp
  qed
  then show ?thesis using linear [OF run] channels_fifo [OF run] by blast
qed

theorem server_linearises_witness:
  "(\<exists>past. run process_step (engine_new, risk_state_new (load_config None), 0) (map snd (over taken_by demo_trace)) =
      Some ((mt_engine (sy_thread demo_server), mt_risk (sy_thread demo_server), mt_seq (sy_thread demo_server)), past @ sy_pending demo_server) \<and>
      over emitted_by demo_trace = reports_of past) \<and>
    over sent_by demo_trace = over taken_by demo_trace @ sy_commands demo_server \<and>
    (\<forall>c. \<exists>n ms. handle_frames c (take n (fst (split_frames (over (read_by c) demo_trace)))) = Some ms \<and>
      for_conn c (over sent_by demo_trace) = commands_of ms)"
  by (rule server_linearises [OF demo_run demo_bounds(1)])

text \<open>C12. What a client receives: the reports put on the return channel come out in order; for a
  connection that is still open, a client reading its socket in any chunks decodes exactly the
  reports delivered to it, in order, with stream sequence numbers 1, 2, 3, and so on, and each
  with its engine sequence number, whatever happens to other connections.\<close>

theorem server_delivers:
  assumes run: "sys_run rs recorder tr s" and small: "accepts (over entry_by tr) + 2 < 2 ^ 64"
    and w: "hm_get (oe_writers (sy_entry s)) c = Some w" and ch: "concat chunks = w"
  shows "over returned_by tr = over delivered_by tr @ mt_return (sy_thread s) \<and>
    (\<exists>f fs. pump framer_new chunks = (f, fs, Inr ()) \<and> pending f = 0 \<and>
       map decode_event fs = map (\<lambda>(n, es, ev). Some (Inr (n, if is_report ev then Some es else None, ev)))
         (number_from 0 (for_conn c (over delivered_by tr))))"
proof -
  have "w = concat (map reply_bytes (number_from 0 (for_conn c (over delivered_by tr))))"
    using delivered [OF run small, of c] w by (simp add: entry_inv_def)
  then show ?thesis using reply_bytes_decode [of chunks] ch channels_fifo [OF run] by blast
qed

theorem server_delivers_witness:
  "over returned_by demo_trace = over delivered_by demo_trace @ mt_return (sy_thread demo_server) \<and>
    (\<exists>f fs. pump framer_new [event_bytes 1 1 (Accepted 7 1 5)] = (f, fs, Inr ()) \<and> pending f = 0 \<and>
       map decode_event fs = map (\<lambda>(n, es, ev). Some (Inr (n, if is_report ev then Some es else None, ev)))
         (number_from 0 (for_conn 1 (over delivered_by demo_trace))))"
proof (rule server_delivers [OF demo_run demo_bounds(1)])
  show "hm_get (oe_writers (sy_entry demo_server)) 1 = Some (event_bytes 1 1 (Accepted 7 1 5))"
    unfolding demo_server_def demo_trace_def demo_order_def by code_simp
qed simp

lemma subseq_appendD1: "subseq (xs @ ys) zs \<Longrightarrow> subseq xs zs"
  by (rule subseq_order.trans [OF prefix_imp_subseq]) simp_all

text \<open>The events fanned out are market data of the sequential run, in order.\<close>

lemma feed_market:
  assumes "sys_run rs recorder tr s"
  shows "\<exists>past. run process_step (engine_new, rs, 0) (map snd (over taken_by tr)) =
      Some ((mt_engine (sy_thread s), mt_risk (sy_thread s), mt_seq (sy_thread s)), past @ sy_pending s) \<and>
    subseq (over fanned_by tr) (market_of past) \<and> (\<forall>ev \<in> set (over fanned_by tr). \<not> is_report ev)"
proof -
  obtain past where past: "run process_step (engine_new, rs, 0) (map snd (over taken_by tr)) =
      Some ((mt_engine (sy_thread s), mt_risk (sy_thread s), mt_seq (sy_thread s)), past @ sy_pending s)"
    "subseq (over fanned_by tr @ mt_market (sy_thread s)) (market_of past)"
    using linear [OF assms] channels_fifo [OF assms] by metis
  have sub: "subseq (over fanned_by tr) (market_of past)" using past(2) by (rule subseq_appendD1)
  have "is_market_data ev" if "ev \<in> set (over fanned_by tr)" for ev
    using list_emb_set [OF sub that] by (auto simp: market_of_def)
  then have "\<not> is_report ev" if "ev \<in> set (over fanned_by tr)" for ev using that by (cases ev) force+
  then show ?thesis using past(1) sub by blast
qed

text \<open>C21. Gaps show exactly what was dropped: whatever the interleaving, the market data fanned out is a
  subsequence, in order, of what the commands taken so far produce; the bytes written to a
  subscriber are the encodings of events with strictly increasing sequence numbers, and the event
  numbered \<open>n\<close> is the \<open>n\<close>-th event fanned out since it subscribed; its queue never exceeds its capacity.\<close>

theorem market_data_gaps:
  assumes run: "sys_run rs recorder tr s" and sub: "hm_get (md_subscribers (sy_market s)) i = Some sub"
    and len: "length (over fanned_by tr) < 2 ^ 64"
  shows "(\<exists>past st. run process_step (engine_new, rs, 0) (map snd (over taken_by tr)) = Some (st, past @ sy_pending s) \<and>
      subseq (over fanned_by tr) (market_of past)) \<and>
    length (q_items (sub_queue sub)) \<le> SUBSCRIBER_QUEUE_CAPACITY \<and>
    (\<exists>k ms. k \<le> length (over fanned_by tr) \<and> sub_wire sub = concat (map md_bytes ms) \<and>
      sorted_wrt (<) (map (\<lambda>m. unat (fst m)) ms) \<and>
      (\<forall>m \<in> set ms. 0 < unat (fst m) \<and> k + unat (fst m) \<le> length (over fanned_by tr) \<and>
        over fanned_by tr ! (k + unat (fst m) - 1) = snd m))"
proof -
  obtain k where k: "k \<le> length (over fanned_by tr)" "subscriber_run sub (drop k (over fanned_by tr))"
    using subscribers_fed [OF run sub] by blast
  let ?evs = "drop k (over fanned_by tr)"
  have "\<forall>ev \<in> set ?evs. \<not> is_report ev" using feed_market [OF run] in_set_dropD by metis
  then have "sub_inv sub ?evs" using subscriber_run_inv [OF k(2)] len by simp
  then obtain ms where q: "length (q_items (sub_queue sub)) \<le> SUBSCRIBER_QUEUE_CAPACITY"
    and ms: "sub_wire sub = concat (map md_bytes ms)" "sorted_wrt (<) (map (\<lambda>m. unat (fst m)) ms)"
      "\<forall>m \<in> set ms. 0 < unat (fst m) \<and> unat (fst m) \<le> length ?evs \<and> ?evs ! (unat (fst m) - 1) = snd m"
    unfolding sub_inv_def Let_def feed_of_def by blast
  have "0 < unat (fst m) \<and> k + unat (fst m) \<le> length (over fanned_by tr) \<and>
      over fanned_by tr ! (k + unat (fst m) - 1) = snd m" if "m \<in> set ms" for m
    using bspec [OF ms(3) that] k(1) by auto
  then show ?thesis using k(1) q ms(1,2) feed_market [OF run] by blast
qed

lemma demo_subscribed: "\<exists>sub. hm_get (md_subscribers (sy_market demo_server)) 1 = Some sub"
proof -
  have "hm_get (md_subscribers (sy_market demo_server)) 1 \<noteq> None"
    unfolding demo_server_def demo_trace_def demo_order_def by code_simp
  then show ?thesis by blast
qed

theorem market_data_gaps_witness:
  "\<exists>sub. hm_get (md_subscribers (sy_market demo_server)) 1 = Some sub \<and> (\<exists>past st. run process_step (engine_new, risk_state_new (load_config None), 0) (map snd (over taken_by demo_trace)) =
        Some (st, past @ sy_pending demo_server) \<and> subseq (over fanned_by demo_trace) (market_of past)) \<and>
    length (q_items (sub_queue sub)) \<le> SUBSCRIBER_QUEUE_CAPACITY \<and>
    (\<exists>k ms. k \<le> length (over fanned_by demo_trace) \<and> sub_wire sub = concat (map md_bytes ms) \<and>
      sorted_wrt (<) (map (\<lambda>m. unat (fst m)) ms) \<and>
      (\<forall>m \<in> set ms. 0 < unat (fst m) \<and> k + unat (fst m) \<le> length (over fanned_by demo_trace) \<and>
        over fanned_by demo_trace ! (k + unat (fst m) - 1) = snd m))"
proof -
  obtain sub where sub: "hm_get (md_subscribers (sy_market demo_server)) 1 = Some sub" using demo_subscribed by blast
  from market_data_gaps [OF demo_run sub demo_bounds(4)] sub show ?thesis by blast
qed

text \<open>A subscriber catches up: left to run, its writer empties the queue in as many iterations as it
  holds events, without blocking or panicking, and its last sequence number is then the number of
  events fanned out since it subscribed.\<close>

theorem subscriber_catches_up:
  assumes run: "sys_run rs recorder tr s" and sub: "hm_get (md_subscribers (sy_market s)) i = Some sub"
    and len: "length (over fanned_by tr) < 2 ^ 64"
  shows "\<exists>k sub'. k \<le> length (over fanned_by tr) \<and> write_n (length (q_items (sub_queue sub))) sub = Some sub' \<and>
    q_items (sub_queue sub') = [] \<and> k + unat (sub_seq sub') = length (over fanned_by tr)"
proof -
  obtain k where k: "k \<le> length (over fanned_by tr)" "subscriber_run sub (drop k (over fanned_by tr))"
    using subscribers_fed [OF run sub] by blast
  let ?evs = "drop k (over fanned_by tr)"
  have nr: "\<forall>ev \<in> set ?evs. \<not> is_report ev" using feed_market [OF run] in_set_dropD by metis
  then have "sub_inv sub ?evs" using subscriber_run_inv [OF k(2)] len by simp
  from write_n_drains [OF this nr _ refl] len k(1) show ?thesis by fastforce
qed

theorem subscriber_catches_up_witness:
  "\<exists>sub k sub'. hm_get (md_subscribers (sy_market demo_server)) 1 = Some sub \<and> k \<le> length (over fanned_by demo_trace) \<and> write_n (length (q_items (sub_queue sub))) sub = Some sub' \<and>
    q_items (sub_queue sub') = [] \<and> k + unat (sub_seq sub') = length (over fanned_by demo_trace)"
proof -
  obtain sub where sub: "hm_get (md_subscribers (sy_market demo_server)) 1 = Some sub" using demo_subscribed by blast
  from subscriber_catches_up [OF demo_run sub demo_bounds(4)] sub show ?thesis by blast
qed

section \<open>Replay\<close>



end
