(* ===== verification/Engine_Spec.thy ===== *)
theory Engine_Spec
  imports Routing
begin

text \<open>
  The engine as an operation on the abstract book, for the commands about one order; from it, two
  facts used by clients: every such command is answered with a report about its order, and no
  command moves prices outside an interval that holds all prices so far.
\<close>

section \<open>Dispatch on the abstract book\<close>

definition a_dispatch :: "abook \<Rightarrow> command \<Rightarrow> abook \<times> event list" where
  "a_dispatch ab cmd = (case cmd of
       NewOrder a oid side p q kind tif ts \<Rightarrow>
         (case kind of
            Market \<Rightarrow> a_submit_ioc ab a oid side (market_bound side) q
          | Limit \<Rightarrow>
              (case tif of
                 Gtc \<Rightarrow> a_submit_gtc ab a oid side p q
               | Ioc \<Rightarrow> a_submit_ioc ab a oid side p q
               | Fok \<Rightarrow> a_submit_fok ab a oid side p q
               | PostOnly \<Rightarrow> a_submit_postonly ab a oid side p q))
     | CancelOrder a oid \<Rightarrow> a_cancel ab a oid
     | CancelReplace a oid p q \<Rightarrow> a_modify ab a oid p q
     | _ \<Rightarrow> (ab, []))"

lemma dispatch_refines:
  assumes bi: "book_inv b" and room: "book_room b" and ok: "command_ok cmd" and self: "command_self_id cmd = Some k"
  shows "refines b (dispatch b cmd) (a_dispatch (abs_book b) cmd)"
proof (cases cmd)
  case (NewOrder a oid side p q kind tif ts)
  have q: "q \<noteq> 0" using ok NewOrder by (simp add: command_ok_def)
  show ?thesis
    using submit_market_refines [OF bi] submit_gtc_refines [OF bi room] submit_ioc_refines [OF bi]
      submit_fok_refines [OF bi] submit_postonly_refines [OF bi room q]
    by (cases kind; cases tif) (simp_all add: NewOrder dispatch_def a_dispatch_def)
qed (use self cancel_refines [OF bi] modify_refines [OF bi] in
    \<open>auto simp: dispatch_def a_dispatch_def command_self_id_def\<close>)

section \<open>Every order command is answered\<close>

lemma a_dispatch_answers:
  assumes "command_self_id cmd = Some k"
  shows "\<exists>ev \<in> set (snd (a_dispatch ab cmd)). event_id ev = Some k"
  using assms
  by (cases cmd)
    (auto simp: a_dispatch_def command_self_id_def a_submit_gtc_def a_submit_ioc_def a_submit_fok_def a_submit_postonly_def
      a_cancel_def a_modify_def Let_def split: order_kind.splits tif.splits prod.splits option.splits)

lemma match_not_refused: "a_match ab a oid side p q = ((ab', rem), out) \<Longrightarrow> \<not> refused out"
  using sweep_not_refused by (auto simp: a_match_def split: prod.splits)

lemma process_answers:
  assumes inv: "engine_inv e" and ok: "command_ok cmd" and room: "book_room (engine_book e)"
    and self: "command_self_id cmd = Some k"
    and p: "process_command e rs cmd seq = Some ((e', rs', seq'), out)"
  shows "\<exists>ev. (seq', ev) \<in> set out \<and> event_id ev = Some k"
  using p
proof (cases rule: process_commandE)
  case (rejected r)
  then show ?thesis using reject_self_id [OF rejected(1)] self by auto
next
  case (applied evs)
  have bi: "book_inv (engine_book e)" using inv by (simp add: engine_inv_def)
  obtain out' where d: "dispatch (engine_book e) cmd = Some (engine_book e', out')" and evs: "set out' \<subseteq> set evs"
    using applied(2) by (auto simp: engine_apply_def Let_def bind_eq_Some_iff)
  have "out' = snd (a_dispatch (abs_book (engine_book e)) cmd)"
    using refines_abs [OF dispatch_refines [OF bi room ok self] d] by simp
  then show ?thesis using a_dispatch_answers [OF self] evs applied by fastforce
qed

section \<open>Prices stay where the orders put them\<close>

text \<open>The prices a command may add to the book.\<close>

definition new_prices :: "command \<Rightarrow> price set" where
  "new_prices cmd = (case cmd of
       NewOrder a oid side p q kind tif ts \<Rightarrow> if kind = Limit then {p} else {}
     | CancelReplace a oid p q \<Rightarrow> {p}
     | _ \<Rightarrow> {})"

text \<open>All resting prices and the last trade are in \<open>P\<close>.\<close>

definition priced :: "price set \<Rightarrow> abook \<Rightarrow> bool" where
  "priced P ab \<longleftrightarrow> a_prices ab \<subseteq> P \<and> set_option (a_last ab) \<subseteq> P"

lemma a_sweep_last:
  "a_sweep a oid side limit rs lt rem = ((rs', lt', rem'), out) \<Longrightarrow> lt' = lt \<or> lt' \<in> Some ` r_price ` set rs"
  by (induction a oid side limit rs lt rem arbitrary: out rule: a_sweep.induct)
    (fastforce simp: Let_def split: if_splits prod.splits)+

lemma a_match_last:
  assumes "a_match ab a oid side p q = ((ab', rem), out)" and "priced P ab"
  shows "set_option (a_last ab') \<subseteq> P"
proof -
  obtain rs lt where "a_sweep a oid side p (a_orders ab (opposite side)) (a_last ab) q = ((rs, lt, rem), out)" "a_last ab' = lt"
    using assms(1) by (auto simp: a_match_def split: prod.splits)
  then have "a_last ab' = a_last ab \<or> a_last ab' \<in> Some ` r_price ` set (a_orders ab (opposite side))"
    using a_sweep_last by metis
  moreover have "r_price ` set (a_orders ab (opposite side)) \<subseteq> a_prices ab" using a_prices_iff by blast
  ultimately show ?thesis using assms(2) unfolding priced_def by (elim disjE) fastforce+
qed

lemma a_drop_priced: "priced P ab \<Longrightarrow> priced P (a_drop k ab)"
proof -
  have "a_prices (a_drop k ab) \<subseteq> a_prices ab" by (rule a_prices_sub) (auto simp: a_drop_def drop_key_def)
  then show "priced P ab \<Longrightarrow> priced P (a_drop k ab)" by (auto simp: priced_def a_drop_def)
qed

lemma a_last_add [simp]: "a_last (a_add side r ab) = a_last ab"
  by (simp add: a_add_def)

lemma a_dispatch_last:
  assumes "priced P ab"
  shows "set_option (a_last (fst (a_dispatch ab cmd))) \<subseteq> P"
proof -
  have m: "set_option (a_last (fst (fst (a_match ab a oid side p q)))) \<subseteq> P" for a oid side p q
    using a_match_last [OF _ assms] by (metis prod.collapse)
  have d: "set_option (a_last (fst (fst (a_match (a_drop k ab) a oid side p q)))) \<subseteq> P" for k a oid side p q
    using a_match_last [OF _ a_drop_priced [OF assms]] by (metis prod.collapse)
  have l: "set_option (a_last ab) \<subseteq> P" using assms by (simp add: priced_def)
  show ?thesis
  proof (cases cmd)
    case (NewOrder a oid side p q kind tif ts)
    then show ?thesis using m [of a oid side p q] m [of a oid side "market_bound side" q] l
      by (auto simp: a_dispatch_def a_submit_gtc_def a_submit_ioc_def a_submit_fok_def a_submit_postonly_def Let_def
          split: order_kind.splits tif.splits prod.splits if_splits)
  next
    case (CancelReplace a oid p q)
    show ?thesis
    proof (cases "a_find ab (a, oid)")
      case (Some sr)
      then show ?thesis using CancelReplace l d [of "(a, oid)" a oid "fst sr" p q]
        by (cases sr) (auto simp: a_dispatch_def a_modify_def Let_def split: prod.splits if_splits)
    qed (use CancelReplace l in \<open>simp add: a_dispatch_def a_modify_def\<close>)
  qed (use l in \<open>auto simp: a_dispatch_def a_cancel_def a_drop_def\<close>)
qed

lemma a_dispatch_priced:
  assumes "priced P ab" and "new_prices cmd \<subseteq> P"
  shows "priced P (fst (a_dispatch ab cmd))"
proof -
  have "a_prices (fst (a_dispatch ab cmd)) \<subseteq> new_prices cmd \<union> a_prices ab"
  proof (cases cmd)
    case (NewOrder a oid side p q kind tif ts)
    then show ?thesis
      using a_submit_prices(1,2) [of ab a oid side p q] a_shrink_prices(1,2) [of ab a oid side p q]
        a_shrink_prices(1) [of ab a oid side "market_bound side" q]
      by (cases kind; cases tif) (auto simp: a_dispatch_def new_prices_def)
  next
    case (CancelOrder a oid)
    then show ?thesis using a_shrink_prices(3) [of ab a oid] by (auto simp: a_dispatch_def)
  next
    case (CancelReplace a oid p q)
    then show ?thesis using a_submit_prices(3) [of ab a oid p q] by (auto simp: a_dispatch_def new_prices_def)
  qed (auto simp: a_dispatch_def)
  then show ?thesis using assms a_dispatch_last [OF assms(1), of cmd] by (auto simp: priced_def)
qed

lemma dispatch_priced:
  assumes inv: "engine_inv e" and ok: "command_ok cmd" and room: "book_room (engine_book e)"
    and d: "dispatch (engine_book e) cmd = Some (b', out)"
    and P: "priced P (abs_book (engine_book e))" "new_prices cmd \<subseteq> P"
  shows "priced P (abs_book b')"
proof (cases "command_self_id cmd")
  case (Some k)
  have bi: "book_inv (engine_book e)" using inv by (simp add: engine_inv_def)
  show ?thesis using refines_abs [OF dispatch_refines [OF bi room ok Some] d] a_dispatch_priced [OF P] by simp
next
  case None
  show ?thesis
  proof (cases cmd)
    case (MassCancel a)
    obtain ids where "resting b' = (\<lambda>sd. filter (\<lambda>r. r_account r \<noteq> a) (resting (engine_book e) sd))"
      "book_last_trade b' = book_last_trade (engine_book e)"
      using mass_cancel_spec [of "engine_book e" a] inv d MassCancel by (auto simp: dispatch_def engine_inv_def)
    then show ?thesis using P(1) a_prices_sub [of "abs_book b'" "abs_book (engine_book e)"]
      by (auto simp: priced_def)
  qed (use None d P(1) in \<open>auto simp: command_self_id_def dispatch_def bind_eq_Some_iff\<close>)
qed

lemma process_priced:
  assumes inv: "engine_inv e" and ok: "command_ok cmd" and room: "book_room (engine_book e)"
    and p: "process_command e rs cmd seq = Some ((e', rs', seq'), out)"
    and P: "priced P (abs_book (engine_book e))" "new_prices cmd \<subseteq> P"
  shows "priced P (abs_book (engine_book e'))"
  using p
proof (cases rule: process_commandE)
  case (applied evs)
  then show ?thesis using apply_dispatch [OF applied(2)] dispatch_priced [OF inv ok room _ P] by blast
qed (use P(1) in simp)

section \<open>Well-formed events\<close>

text \<open>
  A fill has a price, a quantity and a state that agrees with what is left; a trade has a price and
  a quantity; an amend has a quantity; the prices of a top-of-book update are not zero.
\<close>

fun event_wf :: "event \<Rightarrow> bool" where
  "event_wf (Filled _ _ _ p q left state) \<longleftrightarrow> p \<noteq> 0 \<and> q \<noteq> 0 \<and> (state = State_Filled \<longleftrightarrow> left = 0)"
| "event_wf (Trade p q _) \<longleftrightarrow> p \<noteq> 0 \<and> q \<noteq> 0"
| "event_wf (Replaced _ _ q _) \<longleftrightarrow> q \<noteq> 0"
| "event_wf (BookUpdate bid ask) \<longleftrightarrow> 0 \<notin> fst ` (set_option bid \<union> set_option ask)"
| "event_wf _ \<longleftrightarrow> True"

definition orders_wf :: "rorder list \<Rightarrow> bool" where
  "orders_wf rs \<longleftrightarrow> (\<forall>r \<in> set rs. r_price r \<noteq> 0 \<and> r_qty r \<noteq> 0)"

lemma fill_events_wf:
  "p \<noteq> 0 \<Longrightarrow> f \<noteq> 0 \<Longrightarrow> ev \<in> set (fill_events a oid side m mid p f rem left) \<Longrightarrow> event_wf ev"
  by (auto simp: fill_events_def fill_state_def)

lemma a_sweep_wf:
  assumes "a_sweep a oid side limit rs lt rem = ((rs', lt', rem'), out)" and "orders_wf rs"
  shows "\<forall>ev \<in> set out. event_wf ev"
  using assms
proof (induction rule: a_sweep_induct)
  case (full r rs lt rem rs' lt' rem' out)
  then show ?case using fill_events_wf [of "r_price r" "r_qty r"] by (auto simp: orders_wf_def)
next
  case (part r rs lt rem)
  then show ?case using fill_events_wf [of "r_price r" rem] by (auto simp: orders_wf_def)
qed (simp_all add: orders_wf_def)

lemma a_match_wf:
  assumes "a_match ab a oid side p q = (st, out)" and "orders_wf (a_orders ab (opposite side))"
  shows "\<forall>ev \<in> set out. event_wf ev"
  using a_sweep_wf [OF _ assms(2)] assms(1) by (auto simp: a_match_def split: prod.splits)

lemma a_stp_wf: "a_stp a side limit rs = (st, out) \<Longrightarrow> \<forall>ev \<in> set out. event_wf ev"
  by (induction a side limit rs arbitrary: st out rule: a_stp.induct) (auto simp: Let_def split: if_splits prod.splits)

lemma a_dispatch_wf:
  assumes wf: "\<And>sd. orders_wf (a_orders ab sd)"
  shows "\<forall>ev \<in> set (snd (a_dispatch ab cmd)). event_wf ev"
proof -
  have m: "event_wf ev" if "a_match ab a oid side p q = ((ab', rem), out)" "ev \<in> set out" for a oid side p q ab' rem out ev
    using a_match_wf [OF that(1) wf] that(2) by blast
  have "orders_wf (a_orders (a_drop k ab) sd)" for k sd
    using wf [of sd] by (auto simp: orders_wf_def a_drop_def drop_key_def)
  then have d: "event_wf ev" if "a_match (a_drop k ab) a oid side p q = ((ab', rem), out)" "ev \<in> set out"
    for k a oid side p q ab' rem out ev using a_match_wf [OF that(1)] that(2) by blast
  have s: "event_wf ev" if "a_stp a side p rs = ((rs', c), out)" "ev \<in> set out" for a side p rs rs' c out ev
    using a_stp_wf [OF that(1)] that(2) by blast
  show ?thesis
    by (cases cmd)
      (auto simp: a_dispatch_def a_submit_gtc_def a_submit_ioc_def a_submit_fok_def a_submit_postonly_def a_cancel_def
        a_modify_def Let_def dest: m d s split: order_kind.splits tif.splits prod.splits option.splits if_splits)
qed

lemma engine_orders_wf: "engine_inv e \<Longrightarrow> orders_wf (resting (engine_book e) sd)"
  using book_inv_resting(3) [of "engine_book e"] by (force simp: engine_inv_def orders_wf_def prices_ok_abs a_prices_iff)

lemma dispatch_wf:
  assumes inv: "engine_inv e" and ok: "command_ok cmd" and room: "book_room (engine_book e)"
    and d: "dispatch (engine_book e) cmd = Some (b', out)"
  shows "\<forall>ev \<in> set out. event_wf ev"
proof (cases "command_self_id cmd")
  case (Some k)
  have bi: "book_inv (engine_book e)" using inv by (simp add: engine_inv_def)
  show ?thesis using refines_abs [OF dispatch_refines [OF bi room ok Some] d] a_dispatch_wf [of "abs_book (engine_book e)" cmd]
      engine_orders_wf [OF inv] by simp
next
  case None
  show ?thesis
  proof (cases cmd)
    case (MassCancel a)
    then show ?thesis using mass_cancel_spec [of "engine_book e" a] inv d by (auto simp: dispatch_def engine_inv_def)
  next
    case Snapshot
    then show ?thesis using snapshot_spec [of "engine_book e"] inv d
      by (auto simp: dispatch_def engine_inv_def level_event_def)
  qed (use None d in \<open>auto simp: command_self_id_def dispatch_def\<close>)
qed

lemma process_wf:
  assumes inv: "risk_inv cfg s" and ok: "command_ok cmd" and room: "sys_slots s < 2 ^ 32 - 1"
    and p: "process_step s cmd = Some (s', out)"
  shows "\<forall>x \<in> set out. event_wf (snd x)"
proof -
  obtain e rs seq where s: "s = (e, rs, seq)" by (metis prod.exhaust)
  obtain e' rs' seq' where s': "s' = (e', rs', seq')" by (metis prod.exhaust)
  have e: "engine_inv e" "book_room (engine_book e)" using inv room s by (auto intro: book_room_slots)
  have "process_command e rs cmd seq = Some ((e', rs', seq'), out)" using p s s' by simp
  then show ?thesis
  proof (cases rule: process_commandE)
    case (rejected r)
    then show ?thesis using pre_apply_reject [OF rejected(1)] by auto
  next
    case (applied evs)
    have "engine_inv e'" using engine_apply_inv [OF e(1) ok e(2)] applied(2) by auto
    then have "event_wf (BookUpdate (fst (top_of_book (engine_book e'))) (snd (top_of_book (engine_book e'))))"
      using engine_orders_wf [of e' Buy] engine_orders_wf [of e' Sell] top_of_book_abs [of "engine_book e'"]
      by (auto simp: engine_inv_def a_touch_def orders_wf_def split: list.splits)
    moreover obtain out' where "dispatch (engine_book e) cmd = Some (engine_book e', out')"
      "set evs \<subseteq> set out' \<union> {BookUpdate (fst (top_of_book (engine_book e'))) (snd (top_of_book (engine_book e')))}"
      using apply_dispatch [OF applied(2)] by blast
    ultimately show ?thesis using dispatch_wf [OF e(1) ok e(2)] applied(4) by fastforce
  qed
qed

section \<open>Reports of one command\<close>

text \<open>The events about the command's own order go to the connection that sent it.\<close>

lemma emit_event_returns:
  assumes "emit_event cap conn (Some k) fb x st = Some st'"
  shows "\<exists>new. mt_return st' = mt_return st @ new \<and> (event_id (snd x) = Some k \<longrightarrow> (conn, x) \<in> set new)"
proof (cases "event_id (snd x)")
  case None
  then show ?thesis using assms by (auto simp: emit_event_def case_prod_unfold Let_def split: if_splits)
next
  case (Some i)
  then have "\<not> is_market_data (snd x)" "\<not> is_snapshot (snd x)" using event_id_None [of "snd x"] by auto
  then have "mt_return st' = mt_return st @ [(route_of (mt_conns st) (Some k) conn fb i, x)]"
    using assms Some by (auto simp: emit_event_def case_prod_unfold Let_def)
  then show ?thesis using Some by (intro exI conjI) (auto simp: route_of_def)
qed

lemma emit_all_returns:
  assumes "emit_all cap conn (Some k) fb xs st = Some st'"
  shows "\<exists>new. mt_return st' = mt_return st @ new \<and> (\<forall>x \<in> set xs. event_id (snd x) = Some k \<longrightarrow> (conn, x) \<in> set new)"
  using assms
proof (induction xs arbitrary: st)
  case (Cons x xs)
  then obtain st1 where st1: "emit_event cap conn (Some k) fb x st = Some st1" "emit_all cap conn (Some k) fb xs st1 = Some st'"
    by (auto simp: bind_eq_Some_iff)
  obtain new where new: "mt_return st' = mt_return st1 @ new"
    "\<forall>x \<in> set xs. event_id (snd x) = Some k \<longrightarrow> (conn, x) \<in> set new" using Cons.IH [OF st1(2)] by blast
  obtain one where one: "mt_return st1 = mt_return st @ one" "event_id (snd x) = Some k \<longrightarrow> (conn, x) \<in> set one"
    using emit_event_returns [OF st1(1)] by blast
  show ?case using new one by (intro exI [of _ "one @ new"]) auto
qed simp






end
