(* ===== verification/Workload.thy ===== *)
theory Workload
  imports Engine_Spec Risk_Config
begin

text \<open>
  The benchmark's traffic (\<open>bench/src/workload.rs\<close>): the xorshift generator, the mix of new,
  cancel and crossing orders, and the pool of resting orders that cancels are drawn from. The
  generator, the two counters and the head of the pool are only used by the sender, and the reader
  changes the pool in one locked section, so that \<open>next_command\<close> and \<open>observe\<close> are atomic here.
\<close>

unbundle bit_operations_syntax

section \<open>workload.rs\<close>

definition ACCOUNT_POOL :: u64 where "ACCOUNT_POOL = 256"

definition BUY_LEVELS :: "u64 list" where "BUY_LEVELS = [9950, 9960, 9970, 9980, 9990]"
definition SELL_LEVELS :: "u64 list" where "SELL_LEVELS = [10010, 10020, 10030, 10040, 10050]"

definition NEW_ORDER_QTY :: u64 where "NEW_ORDER_QTY = 5"
definition SWEEP_QTY :: u64 where "SWEEP_QTY = 300"

record mix =
  new_pct :: u32
  cancel_pct :: u32
  cross_pct :: u32

text \<open>\<open>Inl\<close> is the error; the message prints the total.\<close>

definition mix_validate :: "mix \<Rightarrow> u32 + mix" where
  "mix_validate m =
     (let total = new_pct m + cancel_pct m + cross_pct m
      in if total \<noteq> 100 then Inl total else Inr m)"

definition next_u64 :: "u64 \<Rightarrow> u64 \<times> u64" where
  "next_u64 state =
     (let x = state;
          x = x XOR push_bit 13 x;
          x = x XOR drop_bit 7 x;
          x = x XOR push_bit 17 x
      in (x * 0x2545F4914F6CDD1D, x))"

definition next_range :: "u64 \<Rightarrow> u64 \<Rightarrow> u64 \<times> u64" where
  "next_range n state = (let (r, state') = next_u64 state in (r mod n, state'))"

datatype traffic_kind = New | Cancel | CrossMarket | CrossLimitSweep

definition kind_for_roll :: "mix \<Rightarrow> u32 \<Rightarrow> traffic_kind" where
  "kind_for_roll m roll =
     (if roll < new_pct m then New
      else if roll < new_pct m + cancel_pct m then Cancel
      else
        (let cross_offset = roll - new_pct m - cancel_pct m
         in if cross_offset * 2 < cross_pct m then CrossMarket else CrossLimitSweep))"

record workload =
  w_mix :: mix
  w_next_order_id :: u64
  w_next_account :: u64
  w_resting_pool :: "order_key list"
  w_rng :: u64

definition workload_new :: "mix \<Rightarrow> u64 \<Rightarrow> workload" where
  "workload_new m seed = \<lparr>w_mix = m, w_next_order_id = 1, w_next_account = 0, w_resting_pool = [], w_rng = seed OR 1\<rparr>"

definition fresh_account :: "workload \<Rightarrow> account_id \<times> workload" where
  "fresh_account w = (w_next_account w mod ACCOUNT_POOL + 1, w\<lparr>w_next_account := w_next_account w + 1\<rparr>)"

definition fresh_order_id :: "workload \<Rightarrow> order_id \<times> workload" where
  "fresh_order_id w = (w_next_order_id w, w\<lparr>w_next_order_id := w_next_order_id w + 1\<rparr>)"

text \<open>\<open>self.rng.lock().next_range(n)\<close>.\<close>

definition roll_range :: "u64 \<Rightarrow> workload \<Rightarrow> u64 \<times> workload" where
  "roll_range n w = (let (r, s) = next_range n (w_rng w) in (r, w\<lparr>w_rng := s\<rparr>))"

text \<open>Indexing a level array out of range panics.\<close>

definition new_order_fallback :: "workload \<Rightarrow> ((order_key \<times> command) \<times> workload) option" where
  "new_order_fallback w =
     (let (side_idx, w) = roll_range 2 w;
          (level_idx, w) = roll_range (of_nat (length BUY_LEVELS)) w
      in do {
        (side, price) \<leftarrow>
          (if side_idx = 0
           then do { p \<leftarrow> vec_get BUY_LEVELS (unat level_idx); Some (Buy, p) }
           else do { p \<leftarrow> vec_get SELL_LEVELS (unat level_idx); Some (Sell, p) });
        let (account_id, w) = fresh_account w;
        let (order_id, w) = fresh_order_id w;
        let cmd = NewOrder account_id order_id side price NEW_ORDER_QTY Limit Gtc 0;
        Some (((account_id, order_id), cmd), w)
      })"

definition next_command :: "workload \<Rightarrow> ((order_key \<times> command) \<times> workload) option" where
  "next_command w =
     (let (r, w) = roll_range 100 w;
          roll = ucast r :: u32
      in case kind_for_roll (w_mix w) roll of
           New \<Rightarrow>
             (let (side_idx, w) = roll_range 2 w;
                  (level_idx, w) = roll_range (of_nat (length BUY_LEVELS)) w
              in do {
                (side, price) \<leftarrow>
                  (if side_idx = 0
                   then do { p \<leftarrow> vec_get BUY_LEVELS (unat level_idx); Some (Buy, p) }
                   else do { p \<leftarrow> vec_get SELL_LEVELS (unat level_idx); Some (Sell, p) });
                let (account_id, w) = fresh_account w;
                let (order_id, w) = fresh_order_id w;
                let cmd = NewOrder account_id order_id side price NEW_ORDER_QTY Limit Gtc 0;
                Some (((account_id, order_id), cmd), w)
              })
         | Cancel \<Rightarrow>
             (case w_resting_pool w of
                (account_id, order_id) # pool \<Rightarrow>
                  (let w = w\<lparr>w_resting_pool := pool\<rparr>;
                       cmd = CancelOrder account_id order_id
                   in Some (((account_id, order_id), cmd), w))
              | [] \<Rightarrow> new_order_fallback w)
         | CrossMarket \<Rightarrow>
             (let (side_idx, w) = roll_range 2 w;
                  side = (if side_idx = 0 then Buy else Sell);
                  (account_id, w) = fresh_account w;
                  (order_id, w) = fresh_order_id w;
                  cmd = NewOrder account_id order_id side 0 SWEEP_QTY Market Ioc 0
              in Some (((account_id, order_id), cmd), w))
         | CrossLimitSweep \<Rightarrow>
             (let (side_idx, w) = roll_range 2 w;
                  side = (if side_idx = 0 then Buy else Sell);
                  price = (case side of Buy \<Rightarrow> last SELL_LEVELS | Sell \<Rightarrow> hd BUY_LEVELS);
                  (account_id, w) = fresh_account w;
                  (order_id, w) = fresh_order_id w;
                  cmd = NewOrder account_id order_id side price SWEEP_QTY Limit Gtc 0
              in Some (((account_id, order_id), cmd), w)))"

definition observe :: "event \<Rightarrow> workload \<Rightarrow> workload" where
  "observe ev w =
     (case ev of
        Accepted account_id order_id resting_qty \<Rightarrow>
          if 0 < resting_qty
          then w\<lparr>w_resting_pool := w_resting_pool w @ [(account_id, order_id)]\<rparr> else w
      | Cancelled account_id order_id \<Rightarrow>
          w\<lparr>w_resting_pool := filter (\<lambda>i. i \<noteq> (account_id, order_id)) (w_resting_pool w)\<rparr>
      | Filled account_id order_id side price qty resting_qty state \<Rightarrow>
          if resting_qty = 0
          then w\<lparr>w_resting_pool := filter (\<lambda>i. i \<noteq> (account_id, order_id)) (w_resting_pool w)\<rparr> else w
      | _ \<Rightarrow> w)"

section \<open>The generator\<close>

text \<open>A word that equals itself shifted by at least one bit is zero, by induction on the bits.\<close>

lemma push_bit_fixpoint:
  assumes "push_bit k x = (x :: u64)" and "0 < k"
  shows "x = 0"
proof (rule bit_eqI)
  fix n
  show "bit x n \<longleftrightarrow> bit (0 :: u64) n"
  proof (induction n rule: less_induct)
    case (less n)
    have "bit x n \<longleftrightarrow> bit (push_bit k x) n" by (simp only: assms(1))
    also have "\<dots> \<longleftrightarrow> k \<le> n \<and> possible_bit TYPE(u64) n \<and> bit x (n - k)" by (simp only: bit_push_bit_iff)
    finally have "bit x n \<Longrightarrow> k \<le> n \<and> bit x (n - k)" by simp
    then show ?case using less.IH [of "n - k"] assms(2) by auto
  qed
qed

lemma drop_bit_fixpoint:
  assumes "drop_bit k x = (x :: u64)" and "0 < k"
  shows "x = 0"
proof (rule bit_eqI)
  fix n
  show "bit x n \<longleftrightarrow> bit (0 :: u64) n"
  proof (induction "64 - n" arbitrary: n rule: less_induct)
    case less
    have "bit x n \<longleftrightarrow> bit (drop_bit k x) n" by (simp only: assms(1))
    then have "bit x n \<longleftrightarrow> bit x (k + n)" by (simp only: bit_drop_bit_eq comp_apply)
    moreover have "bit x m \<Longrightarrow> m < 64" for m using bit_imp_le_length [of x m] by simp
    ultimately show ?case using less [of "k + n"] assms(2) by (cases "n < 64") auto
  qed
qed

lemma xor_eq_0_iff: "a XOR b = 0 \<longleftrightarrow> a = (b :: u64)"
  by (auto simp: bit_eq_iff bit_xor_iff)

text \<open>Each of the three steps of the generator maps only zero to zero.\<close>

lemma xor_shift_nonzero:
  "x \<noteq> 0 \<Longrightarrow> 0 < k \<Longrightarrow> x XOR push_bit k x \<noteq> (0 :: u64)"
  "x \<noteq> 0 \<Longrightarrow> 0 < k \<Longrightarrow> x XOR drop_bit k x \<noteq> (0 :: u64)"
  unfolding xor_eq_0_iff using push_bit_fixpoint [of k x] drop_bit_fixpoint [of k x] by metis+

lemma next_u64_nonzero: "state \<noteq> 0 \<Longrightarrow> snd (next_u64 state) \<noteq> 0"
  unfolding next_u64_def Let_def snd_conv by (intro xor_shift_nonzero) simp_all

section \<open>The shape of the traffic\<close>

text \<open>The \<open>k\<close>-th order of a run, counting from zero: accounts round-robin, identifiers count up.\<close>

definition new_traffic :: "nat \<Rightarrow> command \<Rightarrow> bool" where
  "new_traffic k cmd \<longleftrightarrow> (\<exists>side p q kind tif. cmd = NewOrder (of_nat k mod 256 + 1) (of_nat k + 1) side p q kind tif 0 \<and>
     0 < q \<and> q \<le> 300 \<and>
     (kind = Limit \<and> tif = Gtc \<and> p \<in> {9950..10050} \<or> kind = Market \<and> tif = Ioc \<and> p = 0 \<and> q = SWEEP_QTY))"

fun is_cancel :: "command \<Rightarrow> bool" where
  "is_cancel (CancelOrder _ _) = True"
| "is_cancel _ = False"

fun numbered :: "nat \<Rightarrow> command list \<Rightarrow> bool" where
  "numbered k [] = True"
| "numbered k (c # cs) = (if is_cancel c then numbered k cs else new_traffic k c \<and> numbered (Suc k) cs)"

definition counters :: "nat \<Rightarrow> workload \<Rightarrow> bool" where
  "counters k w \<longleftrightarrow> w_next_account w = of_nat k \<and> w_next_order_id w = of_nat k + 1"

lemma counters_new: "counters 0 (workload_new m seed)"
  by (simp add: counters_def workload_new_def)

lemma roll_range_counters [simp]:
  "counters k (snd (roll_range n w)) = counters k w" "w_mix (snd (roll_range n w)) = w_mix w"
  "w_resting_pool (snd (roll_range n w)) = w_resting_pool w"
  by (simp_all add: roll_range_def next_range_def counters_def case_prod_unfold Let_def)

lemma observe_counters [simp]: "counters k (observe ev w) = counters k w"
  by (cases ev) (simp_all add: observe_def counters_def)

lemma roll_range_less: "n \<noteq> 0 \<Longrightarrow> fst (roll_range n w) < n"
  by (simp add: roll_range_def next_range_def case_prod_unfold Let_def word_mod_less_divisor word_neq_0_conv)

lemma level_in_range:
  "i < 5 \<Longrightarrow> \<exists>p. vec_get BUY_LEVELS (unat i) = Some p \<and> p \<in> {9950..10050}"
  "i < 5 \<Longrightarrow> \<exists>p. vec_get SELL_LEVELS (unat i) = Some p \<and> p \<in> {9950..10050}" for i :: u64
proof -
  have "unat i \<in> {0, 1, 2, 3, 4}" if "i < 5" using that by (auto simp: word_less_nat_alt)
  then show "i < 5 \<Longrightarrow> \<exists>p. vec_get BUY_LEVELS (unat i) = Some p \<and> p \<in> {9950..10050}"
    "i < 5 \<Longrightarrow> \<exists>p. vec_get SELL_LEVELS (unat i) = Some p \<and> p \<in> {9950..10050}"
    by (auto simp: vec_get_def BUY_LEVELS_def SELL_LEVELS_def)
qed

text \<open>Drawing a price, then the account and the identifier.\<close>

lemma fresh_both:
  assumes "counters k w"
  shows "fst (fresh_account w) = of_nat k mod 256 + 1"
    and "fst (fresh_order_id (snd (fresh_account w))) = of_nat k + 1"
    and "counters (Suc k) (snd (fresh_order_id (snd (fresh_account w))))"
    and "w_resting_pool (snd (fresh_order_id (snd (fresh_account w)))) = w_resting_pool w"
  using assms by (simp_all add: fresh_account_def fresh_order_id_def counters_def ACCOUNT_POOL_def)

lemma new_order_fallback_shape:
  assumes "counters k w"
  shows "\<exists>key cmd w'. new_order_fallback w = Some ((key, cmd), w') \<and> command_self_id cmd = Some key \<and>
    new_traffic k cmd \<and> counters (Suc k) w' \<and> w_resting_pool w' = w_resting_pool w"
proof -
  define w1 where "w1 = snd (roll_range 2 w)"
  define w2 where "w2 = snd (roll_range 5 w1)"
  have i: "fst (roll_range 5 w1) < 5" by (rule roll_range_less) simp
  obtain pb ps where lv: "vec_get BUY_LEVELS (unat (fst (roll_range 5 w1))) = Some pb" "pb \<in> {9950..10050}"
    "vec_get SELL_LEVELS (unat (fst (roll_range 5 w1))) = Some ps" "ps \<in> {9950..10050}"
    using level_in_range [OF i] by blast
  have five: "of_nat (length BUY_LEVELS) = (5 :: u64)" by (simp add: BUY_LEVELS_def)
  define side where "side = (if fst (roll_range 2 w) = 0 then Buy else Sell)"
  define p where "p = (if fst (roll_range 2 w) = 0 then pb else ps)"
  have pp: "p \<in> {9950..10050}" using lv by (simp add: p_def)
  have c: "counters k w2" "w_resting_pool w2 = w_resting_pool w" using assms by (simp_all add: w1_def w2_def)
  let ?a = "fst (fresh_account w2)" and ?o = "fst (fresh_order_id (snd (fresh_account w2)))"
  have "new_order_fallback w = Some (((?a, ?o), NewOrder ?a ?o side p NEW_ORDER_QTY Limit Gtc 0),
      snd (fresh_order_id (snd (fresh_account w2))))"
    unfolding new_order_fallback_def side_def p_def
    by (simp add: case_prod_unfold Let_def w1_def [symmetric] five w2_def [symmetric] lv del: vec_get_Some)
  moreover have "new_traffic k (NewOrder ?a ?o side p NEW_ORDER_QTY Limit Gtc 0)"
    using pp by (simp add: new_traffic_def fresh_both [OF c(1)] NEW_ORDER_QTY_def)
  ultimately show ?thesis using fresh_both(3,4) [OF c(1)] c(2) by (simp add: command_self_id_def)
qed

text \<open>Every roll yields the next order, or a cancel of the head of the pool.\<close>

lemma next_command_shape:
  assumes c: "counters k w"
  shows "\<exists>key cmd w'. next_command w = Some ((key, cmd), w') \<and> command_self_id cmd = Some key \<and>
    (new_traffic k cmd \<and> counters (Suc k) w' \<and> w_resting_pool w' = w_resting_pool w \<or>
     is_cancel cmd \<and> counters k w' \<and> w_resting_pool w = key # w_resting_pool w')"
proof -
  define w1 where "w1 = snd (roll_range 100 w)"
  have c1: "counters k w1" using c by (simp add: w1_def)
  have pool: "w_resting_pool w1 = w_resting_pool w" by (simp add: w1_def)
  define w2 where "w2 = snd (roll_range 2 w1)"
  have c2: "counters k w2" "w_resting_pool w2 = w_resting_pool w" using c1 pool by (simp_all add: w2_def)
  let ?a = "fst (fresh_account w2)" and ?o = "fst (fresh_order_id (snd (fresh_account w2)))"
  let ?w' = "snd (fresh_order_id (snd (fresh_account w2)))"
  let ?side = "if fst (roll_range 2 w1) = 0 then Buy else Sell"
  note unfolded = next_command_def [of w] case_prod_unfold Let_def w1_def [symmetric] w2_def [symmetric]
  show ?thesis
  proof (cases "kind_for_roll (w_mix w1) (ucast (fst (roll_range 100 w)))")
    case New
    then have "next_command w = new_order_fallback w1"
      by (simp add: unfolded new_order_fallback_def del: w1_def)
    then show ?thesis using new_order_fallback_shape [OF c1] pool by auto
  next
    case Cancel
    then show ?thesis
    proof (cases "w_resting_pool w1")
      case Nil
      then have "next_command w = new_order_fallback w1" using Cancel by (simp add: unfolded)
      then show ?thesis using new_order_fallback_shape [OF c1] pool by auto
    next
      case (Cons key ks)
      then have "next_command w = Some ((key, CancelOrder (fst key) (snd key)), w1\<lparr>w_resting_pool := ks\<rparr>)"
        using Cancel by (simp add: unfolded)
      then show ?thesis using c1 Cons pool by (simp add: command_self_id_def counters_def)
    qed
  next
    case CrossMarket
    then have "next_command w = Some (((?a, ?o), NewOrder ?a ?o ?side 0 SWEEP_QTY Market Ioc 0), ?w')"
      by (simp add: unfolded)
    moreover have "new_traffic k (NewOrder ?a ?o ?side 0 SWEEP_QTY Market Ioc 0)"
      by (simp add: new_traffic_def fresh_both [OF c2(1)] SWEEP_QTY_def)
    ultimately show ?thesis using fresh_both(3,4) [OF c2(1)] c2(2) by (simp add: command_self_id_def)
  next
    case CrossLimitSweep
    let ?p = "case ?side of Buy \<Rightarrow> last SELL_LEVELS | Sell \<Rightarrow> hd BUY_LEVELS"
    have "next_command w = Some (((?a, ?o), NewOrder ?a ?o ?side ?p SWEEP_QTY Limit Gtc 0), ?w')"
      using CrossLimitSweep by (simp add: unfolded)
    moreover have "new_traffic k (NewOrder ?a ?o ?side ?p SWEEP_QTY Limit Gtc 0)"
      by (simp add: new_traffic_def fresh_both [OF c2(1)] SWEEP_QTY_def SELL_LEVELS_def BUY_LEVELS_def)
    ultimately show ?thesis using fresh_both(3,4) [OF c2(1)] c2(2) by (simp add: command_self_id_def)
  qed
qed

text \<open>What the sender sends while the reader observes any events in between.\<close>

datatype bench_action = Send_Next | Observe_Event event

fun traffic :: "workload \<Rightarrow> bench_action list \<Rightarrow> (command list \<times> workload) option" where
  "traffic w [] = Some ([], w)"
| "traffic w (Send_Next # acts) = do {
     ((key, cmd), w') \<leftarrow> next_command w;
     (cmds, w'') \<leftarrow> traffic w' acts;
     Some (cmd # cmds, w'')
   }"
| "traffic w (Observe_Event ev # acts) = traffic (observe ev w) acts"

lemma traffic_numbered:
  "counters k w \<Longrightarrow> \<exists>cmds w'. traffic w acts = Some (cmds, w') \<and> numbered k cmds \<and> length cmds \<le> length acts"
proof (induction w acts arbitrary: k rule: traffic.induct)
  case (2 w acts)
  obtain key cmd w' where n: "next_command w = Some ((key, cmd), w')"
    "new_traffic k cmd \<and> counters (Suc k) w' \<or> is_cancel cmd \<and> counters k w'"
    using next_command_shape [OF 2(2)] by blast
  have nc: "\<not> is_cancel cmd" if "new_traffic k cmd" using that by (auto simp: new_traffic_def)
  obtain j where j: "counters j w'" "\<And>cmds. numbered j cmds \<Longrightarrow> numbered k (cmd # cmds)" using n(2) nc by auto
  then show ?case using 2(1) [OF n(1) refl refl j(1)] n(1) by fastforce
next
  case (3 w ev acts)
  then show ?case using 3(1) [of k] by fastforce
qed simp

section \<open>The traffic against the engine\<close>

text \<open>The configuration the benchmark runs with (\<open>risk-bench.toml\<close>).\<close>

definition bench_config :: risk_config where
  "bench_config = \<lparr>max_open_orders = 1000000, max_notional = 1000000000000, price_band_pct = 10\<rparr>"

text \<open>How many of the first \<open>k\<close> orders belong to account \<open>x\<close> of the pool.\<close>

definition share :: "nat \<Rightarrow> account_id \<Rightarrow> nat" where
  "share k x = (k + 256 - unat x) div 256"

lemma share_mono: "share k x \<le> share (Suc k) x"
  by (simp add: share_def div_le_mono)

lemma share_bound: "k < 80000000 \<Longrightarrow> share k x \<le> 312500"
  unfolding share_def using div_le_mono [of "k + 256 - unat x" 80000255 256] by simp

lemma unat_account: "unat (of_nat k mod 256 + 1 :: u64) = k mod 256 + 1" if "k < 80000000"
proof -
  have "unat (of_nat k mod 256 :: u64) = k mod 256"
    using that by (simp add: unat_mod_distrib unsigned_of_nat take_bit_nat_eq_self)
  then show ?thesis by (simp add: unat_plus_if')
qed

lemma share_own: "k < 80000000 \<Longrightarrow> share (Suc k) (of_nat k mod 256 + 1) = Suc (share k (of_nat k mod 256 + 1))"
proof -
  assume k: "k < 80000000"
  have "k mod 256 \<le> 255" using mod_less_divisor [of 256 k] by linarith
  then have "Suc k + 256 - (k mod 256 + 1) = 256 * (k div 256) + 256" "k + 256 - (k mod 256 + 1) = 256 * (k div 256) + 255"
    using mult_div_mod_eq [of 256 k] by linarith+
  then show ?thesis by (simp only: share_def unat_account [OF k]) simp
qed

definition in_band :: "price set" where
  "in_band = {9950..10050}"

fun bench_inv :: "nat \<Rightarrow> risk_sys \<Rightarrow> bool" where
  "bench_inv k (e, rs, seq) \<longleftrightarrow> engine_inv e \<and> config rs = bench_config \<and> \<not> kill_switch_engaged rs \<and>
     priced in_band (abs_book (engine_book e)) \<and>
     (\<forall>key. a_present (abs_book (engine_book e)) key \<longrightarrow> unat (snd key) \<le> k) \<and>
     (\<forall>x. account_open_order_count (engine_book e) x \<le> share k x) \<and>
     (\<forall>x. exposure (engine_book e) x \<le> 3015000 * share k x)"

subsection \<open>Keys\<close>

lemma dispatch_keys:
  assumes "engine_inv e" and "command_ok cmd" and "book_room (engine_book e)"
    and "dispatch (engine_book e) cmd = Some (b', out)" and "a_present (abs_book b') key"
  shows "a_present (abs_book (engine_book e)) key \<or> command_self_id cmd = Some key \<and> \<not> is_cancel cmd"
proof -
  let ?m = "\<lambda>k. if a_present (abs_book (engine_book e)) k then Some undefined else None"
  have "tab_ok (abs_book (engine_book e)) ?m" unfolding tab_ok_def by simp
  from dispatch_routed [OF assms(1-3) this assms(4), of undefined] assms(5)
  have keys: "a_present (abs_book (engine_book e)) key \<or> command_self_id cmd = Some key"
    unfolding routed_def by (metis option.distinct(1))
  show ?thesis
  proof (cases cmd)
    case (CancelOrder a oid)
    have "refines (engine_book e) (dispatch (engine_book e) cmd) (a_dispatch (abs_book (engine_book e)) cmd)"
      using dispatch_refines [OF _ assms(3,2), of "(a, oid)"] assms(1) CancelOrder
      by (simp add: engine_inv_def command_self_id_def)
    from refines_abs [OF this assms(4)] show ?thesis using assms(5) CancelOrder
      by (auto simp: a_dispatch_def a_cancel_def a_present_drop split: if_splits)
  qed (use keys in auto)
qed

subsection \<open>The gate\<close>

lemma in_band_nat: "p \<in> in_band \<Longrightarrow> 9950 \<le> unat p \<and> unat p \<le> 10050"
  by (simp add: in_band_def word_le_nat_alt)

lemma best_in_band:
  assumes "book_inv b" and "priced in_band (abs_book b)"
  shows "set_option (best_bid b) \<subseteq> in_band" and "set_option (best_ask b) \<subseteq> in_band"
    and "set_option (book_last_trade b) \<subseteq> in_band"
  using assms(2) best_prices [of b "queue_of b"] assms(1)
  by (auto simp: priced_def a_prices_def book_inv_def split: list.splits)

lemma reference_in_band:
  assumes "book_inv b" and "priced in_band (abs_book b)" and "price_band_reference rs b = Some r"
  shows "9950 \<le> unat r \<and> unat r \<le> 10050"
proof (cases "book_last_trade b")
  case None
  then obtain bid ask where ba: "best_bid b = Some bid" "best_ask b = Some ask" "r = (bid + ask) div 2"
    using assms(3) by (auto simp: price_band_reference_def split: option.splits)
  have bid: "9950 \<le> unat bid \<and> unat bid \<le> 10050" and ask: "9950 \<le> unat ask \<and> unat ask \<le> 10050"
    using best_in_band [OF assms(1,2)] ba(1,2) in_band_nat by auto
  then have "unat (bid + ask) = unat bid + unat ask" by (simp add: unat_plus_if')
  then have "unat r = (unat bid + unat ask) div 2" by (simp add: ba(3) unat_div)
  then show ?thesis using bid ask by presburger
next
  case (Some l)
  then show ?thesis using assms(3) best_in_band(3) [OF assms(1,2)] in_band_nat [of r]
    by (simp add: price_band_reference_def)
qed

lemma band_wide_enough:
  assumes "9950 \<le> unat r \<and> unat r \<le> 10050" and "p \<in> in_band"
  shows "\<not> band_violated 10 r p"
proof -
  have "unat r * 90 div 100 \<le> 9045" using assms(1) by linarith
  moreover have "10945 \<le> unat r * 110 div 100" using assms(1) by linarith
  ultimately show ?thesis using in_band_nat [OF assms(2)] by (simp add: band_violated_nat)
qed

lemma notional_fits:
  assumes "book_inv b" and "exposure b a \<le> 3015000 * 312500" and "unat p \<le> 10050" and "q \<le> 300"
  shows "account_notional b a + notional_of p q \<le> 1000000000000"
proof -
  have "unat q \<le> 300" using assms(4) by (simp add: word_le_nat_alt)
  then have "unat p * unat q \<le> 10050 * 300" using assms(3) by (intro mult_le_mono)
  then have le: "exposure b a + unat p * unat q \<le> 1000000000000" using assms(2) by simp
  have "account_notional b a + notional_of p q = of_nat (exposure b a + unat p * unat q)"
    by (simp only: notional_exposure [OF assms(1)] notional_of_nat of_nat_add)
  then show ?thesis using le
    by (simp only: word_le_nat_alt unsigned_of_nat) (simp add: take_bit_nat_eq_self)
qed

text \<open>An order of the run passes the gate, unless it is a market order and the book has no price for it.\<close>

lemma traffic_gate:
  assumes inv: "bench_inv k (e, rs, seq)" and k: "k < 80000000" and t: "new_traffic k cmd"
  shows "pre_apply_check rs cmd (engine_book e) = (rs, None) \<or>
    (\<exists>a oid side. cmd = NewOrder a oid side 0 SWEEP_QTY Market Ioc 0 \<and>
       pre_apply_check rs cmd (engine_book e) = (rs, Some (Rejected a oid NotFullyFillable)))"
proof -
  let ?b = "engine_book e"
  obtain a oid side p q kind tif where cmd: "cmd = NewOrder a oid side p q kind tif 0" and q: "q \<le> 300"
    and kind: "kind = Limit \<and> tif = Gtc \<and> p \<in> in_band \<or> kind = Market \<and> tif = Ioc \<and> p = 0 \<and> q = SWEEP_QTY"
    using t unfolding new_traffic_def in_band_def by blast
  have bi: "book_inv ?b" and pr: "priced in_band (abs_book ?b)" and cfg: "config rs = bench_config"
    and ks: "\<not> kill_switch_engaged rs" using inv by (simp_all add: engine_inv_def)
  have sh: "share k x \<le> 312500" for x by (rule share_bound [OF k])
  have count: "account_open_order_count ?b a < 1000000"
  proof -
    have "account_open_order_count ?b a \<le> share k a" using inv by simp
    then show ?thesis using sh [of a] by linarith
  qed
  have exp: "exposure ?b a \<le> 3015000 * 312500"
    using inv sh [of a] by (auto intro: order_trans)
  have fits: "\<not> max_notional (config rs) < account_notional ?b a + notional_of r q" if "unat r \<le> 10050" for r
    using notional_fits [OF bi exp that q] by (simp add: cfg bench_config_def not_less)
  show ?thesis
  proof (cases kind)
    case Limit
    then have p: "p \<in> in_band" "tif = Gtc" using kind by auto
    have "\<not> band_violated (price_band_pct (config rs)) r p" if "price_band_reference rs ?b = Some r" for r
      using band_wide_enough [OF reference_in_band [OF bi pr that] p(1)] by (simp add: cfg bench_config_def)
    then have "new_order_check rs a oid side p q kind tif ?b = None"
      using fits [of p] in_band_nat [OF p(1)] count Limit
      by (auto simp: new_order_check_def Let_def cfg bench_config_def split: option.splits)
    then show ?thesis by (simp add: pre_apply_check_def ks cmd)
  next
    case Market
    have ref: "unat r \<le> 10050" if "market_reference_price rs side ?b = Some r" for r
      using that best_in_band [OF bi pr] in_band_nat [of r]
      by (cases side) (auto simp: market_reference_price_def split: option.splits)
    show ?thesis
    proof (cases "market_reference_price rs side ?b")
      case None
      then show ?thesis using Market kind by (simp add: pre_apply_check_def ks cmd new_order_check_def can_rest_def)
    next
      case (Some r)
      then have "new_order_check rs a oid side p q kind tif ?b = None"
        using fits [OF ref [OF Some]] Market by (simp add: new_order_check_def can_rest_def Let_def)
      then show ?thesis by (simp add: pre_apply_check_def ks cmd)
    qed
  qed
qed

subsection \<open>The engine\<close>

text \<open>The only reasons the engine itself has to refuse an order of the run or a cancel.\<close>

lemma traffic_refusal:
  assumes "new_traffic k cmd \<or> is_cancel cmd" and "Rejected a oid r \<in> set (snd (a_dispatch ab cmd))"
  shows "command_self_id cmd = Some (a, oid) \<and>
    (new_traffic k cmd \<and> r = DuplicateOrderId \<and> a_present ab (a, oid) \<or> cmd = CancelOrder a oid \<and> r = UnknownOrderId)"
proof -
  have m: "Rejected a oid r \<notin> set out" if "a_match ab a' oid' side p q = ((ab', rem), out)" for a' oid' side p q ab' rem out
    using match_not_refused [OF that] by (auto simp: refused_def list_ex_iff)
  show ?thesis
  proof (cases "is_cancel cmd")
    case True
    then obtain a' oid' where "cmd = CancelOrder a' oid'" by (cases cmd) auto
    then show ?thesis using assms(2) by (auto simp: a_dispatch_def a_cancel_def command_self_id_def split: if_splits)
  next
    case False
    then obtain a' oid' side p q kind tif where "cmd = NewOrder a' oid' side p q kind tif 0" "new_traffic k cmd"
      "kind = Limit \<and> tif = Gtc \<or> kind = Market" using assms(1) unfolding new_traffic_def by blast
    then show ?thesis using assms(2) m
      by (auto simp: a_dispatch_def a_submit_gtc_def a_submit_ioc_def command_self_id_def split: if_splits prod.splits)
  qed
qed

lemma traffic_ok:
  "new_traffic k cmd \<or> is_cancel cmd \<Longrightarrow> command_ok cmd \<and> new_prices cmd \<subseteq> in_band \<and> (\<exists>key. command_self_id cmd = Some key)"
  by (cases cmd) (auto simp: new_traffic_def command_ok_def new_prices_def in_band_def command_self_id_def)

text \<open>What a run of the traffic adds to the load of an account.\<close>

lemma traffic_added:
  assumes "new_traffic k cmd \<or> is_cancel cmd" and k: "k < 80000000"
  shows "c \<le> share k x \<Longrightarrow> c + added unit_weight ab cmd x \<le> share (if is_cancel cmd then k else Suc k) x"
    and "n \<le> 3015000 * share k x \<Longrightarrow>
      n + added notional_weight ab cmd x \<le> 3015000 * share (if is_cancel cmd then k else Suc k) x"
proof -
  have sh: "share k x \<le> share (Suc k) x" by (rule share_mono)
  show "c + added unit_weight ab cmd x \<le> share (if is_cancel cmd then k else Suc k) x" if "c \<le> share k x"
    using assms(1) that sh share_own [OF k] by (cases cmd) (auto simp: new_traffic_def added_def unit_weight_def)
  have w: "unat p * unat q \<le> 3015000" if "p \<in> in_band" "q \<le> 300" for p q :: u64
  proof -
    have "unat p * unat q \<le> 10050 * 300"
      using in_band_nat [OF that(1)] that(2) by (intro mult_le_mono) (simp_all add: word_le_nat_alt)
    then show ?thesis by simp
  qed
  show "n + added notional_weight ab cmd x \<le> 3015000 * share (if is_cancel cmd then k else Suc k) x"
    if "n \<le> 3015000 * share k x"
  proof (cases "is_cancel cmd")
    case True
    then show ?thesis using that by (cases cmd) (auto simp: added_def)
  next
    case False
    then obtain side p q kind tif where cmd: "cmd = NewOrder (of_nat k mod 256 + 1) (of_nat k + 1) side p q kind tif 0"
      "q \<le> 300" "can_rest kind tif \<Longrightarrow> p \<in> in_band"
      using assms(1) unfolding new_traffic_def in_band_def can_rest_def by blast
    show ?thesis
    proof (cases "x = of_nat k mod 256 + 1 \<and> can_rest kind tif")
      case True
      then show ?thesis using that cmd w [of p q] share_own [OF k]
        by (simp add: added_def notional_weight_def order_for_def)
    next
      case False
      then show ?thesis using that cmd(1) sh by (auto simp: added_def intro: order_trans)
    qed
  qed
qed

fun expected_reject :: "command \<Rightarrow> event \<Rightarrow> bool" where
  "expected_reject cmd (Rejected a oid r) \<longleftrightarrow>
     r = UnknownOrderId \<and> cmd = CancelOrder a oid \<or>
     r = NotFullyFillable \<and> cmd \<in> {NewOrder a oid Buy 0 SWEEP_QTY Market Ioc 0, NewOrder a oid Sell 0 SWEEP_QTY Market Ioc 0}"
| "expected_reject cmd ev \<longleftrightarrow> True"

lemma applied_load:
  assumes inv: "engine_inv e" and ok: "command_ok cmd" and room: "book_room (engine_book e)"
    and d: "engine_apply e cmd = Some (e', out)"
  shows "account_open_order_count (engine_book e') x \<le>
      account_open_order_count (engine_book e) x + added unit_weight (abs_book (engine_book e)) cmd x"
    and "exposure (engine_book e') x \<le> exposure (engine_book e) x + added notional_weight (abs_book (engine_book e)) cmd x"
proof -
  have inv': "engine_inv e'" using engine_apply_inv [OF inv ok room] d by auto
  have bi: "book_inv (engine_book e)" "book_inv (engine_book e')" using inv inv' by (simp_all add: engine_inv_def)
  obtain evs where e: "dispatch (engine_book e) cmd = Some (engine_book e', evs)" using apply_dispatch [OF d] by blast
  show "account_open_order_count (engine_book e') x \<le>
      account_open_order_count (engine_book e) x + added unit_weight (abs_book (engine_book e)) cmd x"
    using cw.dispatch_load [OF bi(1) room ok e] by (simp add: count_load [OF bi(1)] count_load [OF bi(2)])
  show "exposure (engine_book e') x \<le> exposure (engine_book e) x + added notional_weight (abs_book (engine_book e)) cmd x"
    using nw.dispatch_load [OF bi(1) room ok e] by (simp add: exposure_def)
qed

lemma traffic_key:
  "new_traffic k cmd \<Longrightarrow> k < 80000000 \<Longrightarrow> command_self_id cmd = Some key \<Longrightarrow> unat (snd key) = Suc k"
  by (auto simp: new_traffic_def command_self_id_def unat_plus_if' unsigned_of_nat take_bit_nat_eq_self)

lemma bench_applied:
  assumes inv: "bench_inv k (e, rs, seq)" and k: "k < 80000000" and t: "new_traffic k cmd \<or> is_cancel cmd"
    and room: "book_room (engine_book e)" and pre: "pre_apply_check rs cmd (engine_book e) = (rs, None)"
  shows "\<exists>e' out. process_command e rs cmd seq = Some ((e', rs, seq + 1), out) \<and>
    bench_inv (if is_cancel cmd then k else Suc k) (e', rs, seq + 1) \<and>
    slot_count (engine_book e') \<le> Suc (slot_count (engine_book e)) \<and> (\<forall>x \<in> set out. expected_reject cmd (snd x))"
proof -
  let ?b = "engine_book e" and ?k = "if is_cancel cmd then k else Suc k"
  have ok: "command_ok cmd" "new_prices cmd \<subseteq> in_band" and self: "\<exists>key. command_self_id cmd = Some key"
    using traffic_ok [OF t] by auto
  have e: "engine_inv e" "book_inv ?b" "priced in_band (abs_book ?b)" using inv by (simp_all add: engine_inv_def)
  have keys: "unat (snd key) \<le> k" if "a_present (abs_book ?b) key" for key
    using inv that by (cases key) simp
  obtain e' evs where d: "engine_apply e cmd = Some (e', evs)" "engine_inv e'"
    "slot_count (engine_book e') \<le> Suc (slot_count ?b)" using engine_apply_inv [OF e(1) ok(1) room] by blast
  have p: "process_command e rs cmd seq = Some ((e', rs, seq + 1), map (Pair (seq + 1)) evs)"
    using pre d(1) by (simp add: process_command_def Let_def)
  obtain evs' where dd: "dispatch ?b cmd = Some (engine_book e', evs')"
    "set evs \<subseteq> set evs' \<union> {BookUpdate (fst (top_of_book (engine_book e'))) (snd (top_of_book (engine_book e')))}"
    using apply_dispatch [OF d(1)] by blast
  have own: "unat (snd key) = Suc k" if "command_self_id cmd = Some key" "new_traffic k cmd" for key
    using traffic_key [OF that(2) k that(1)] .
  have "expected_reject cmd ev" if "ev \<in> set evs" for ev
  proof (cases ev)
    case (Rejected a oid r)
    obtain key where "command_self_id cmd = Some key" using self by blast
    then have "evs' = snd (a_dispatch (abs_book ?b) cmd)"
      using refines_abs [OF dispatch_refines [OF e(2) room ok(1)] dd(1)] by blast
    then have "Rejected a oid r \<in> set (snd (a_dispatch (abs_book ?b) cmd))" using that dd(2) Rejected by auto
    from traffic_refusal [OF t this] show ?thesis using keys [of "(a, oid)"] own [of "(a, oid)"] Rejected by auto
  qed simp_all
  moreover have "bench_inv ?k (e', rs, seq + 1)"
  proof -
    have "unat (snd key) \<le> ?k" if "a_present (abs_book (engine_book e')) key" for key
      using dispatch_keys [OF e(1) ok(1) room dd(1) that] keys [of key] own [of key] t by auto
    moreover have "account_open_order_count (engine_book e') x \<le> share ?k x" for x
      using applied_load(1) [OF e(1) ok(1) room d(1)] traffic_added(1) [OF t k] inv by (fastforce intro: order_trans)
    moreover have "exposure (engine_book e') x \<le> 3015000 * share ?k x" for x
      using applied_load(2) [OF e(1) ok(1) room d(1)] traffic_added(2) [OF t k] inv by (fastforce intro: order_trans)
    moreover have "priced in_band (abs_book (engine_book e'))"
      using process_priced [OF e(1) ok(1) room p e(3) ok(2)] .
    ultimately show ?thesis using d(2) inv by simp
  qed
  ultimately show ?thesis using p d(3) by auto
qed

lemma bench_step:
  assumes inv: "bench_inv k s" and k: "k < 80000000" and t: "new_traffic k cmd \<or> is_cancel cmd" and room: "sys_slots s < 2 ^ 32 - 1"
  shows "\<exists>s' out. process_step s cmd = Some (s', out) \<and> bench_inv (if is_cancel cmd then k else Suc k) s' \<and>
    sys_slots s' \<le> Suc (sys_slots s) \<and> (\<forall>x \<in> set out. expected_reject cmd (snd x))"
proof -
  obtain e rs seq where s: "s = (e, rs, seq)" by (metis prod.exhaust)
  have i: "bench_inv k (e, rs, seq)" and r: "book_room (engine_book e)" using inv room s by (auto intro: book_room_slots)
  have ks: "\<not> kill_switch_engaged rs" using i by simp
  consider (passes) "pre_apply_check rs cmd (engine_book e) = (rs, None)"
    | (refused) a oid side where "cmd = NewOrder a oid side 0 SWEEP_QTY Market Ioc 0"
      "pre_apply_check rs cmd (engine_book e) = (rs, Some (Rejected a oid NotFullyFillable))"
  proof (cases "is_cancel cmd")
    case True
    then have "pre_apply_check rs cmd (engine_book e) = (rs, None)" using ks by (cases cmd) (simp_all add: pre_apply_check_def)
    then show ?thesis by (rule passes)
  next
    case False
    then show ?thesis using traffic_gate [OF i k] t passes refused by blast
  qed
  then show ?thesis
  proof cases
    case passes
    then show ?thesis using bench_applied [OF i k t r] s by fastforce
  next
    case refused
    have sh: "share k x \<le> share (Suc k) x" for x by (rule share_mono)
    have "bench_inv (Suc k) (e, rs, seq + 1)" using i sh by (auto intro: order_trans le_SucI)
    then show ?thesis using refused s by (cases side) (simp_all add: process_command_def Let_def)
  qed
qed

lemma bench_run:
  assumes "bench_inv k s" and "numbered k cmds" and "k + length cmds \<le> 80000000" and "sys_slots s + length cmds \<le> 2 ^ 32 - 1"
  shows "\<exists>s' out. run process_step s cmds = Some (s', out) \<and>
    (\<forall>x \<in> set out. \<exists>cmd \<in> set cmds. expected_reject cmd (snd x))"
  using assms
proof (induction cmds arbitrary: k s)
  case (Cons cmd cmds)
  let ?k = "if is_cancel cmd then k else Suc k"
  have t: "new_traffic k cmd \<or> is_cancel cmd" "numbered ?k cmds" using Cons.prems(2) by (auto split: if_splits)
  have "k < 80000000" "sys_slots s < 2 ^ 32 - 1" using Cons.prems(3,4) by simp_all
  from bench_step [OF Cons.prems(1) this(1) t(1) this(2)] obtain s1 o1 where s1: "process_step s cmd = Some (s1, o1)"
    "bench_inv ?k s1" "sys_slots s1 \<le> Suc (sys_slots s)" "\<forall>x \<in> set o1. expected_reject cmd (snd x)" by blast
  have len: "?k + length cmds \<le> 80000000" "sys_slots s1 + length cmds \<le> 2 ^ 32 - 1"
    using Cons.prems(3,4) s1(3) by simp_all
  obtain s2 o2 where "run process_step s1 cmds = Some (s2, o2)" "\<forall>x \<in> set o2. \<exists>cmd \<in> set cmds. expected_reject cmd (snd x)"
    using Cons.IH [OF s1(2) t(2)] len by blast
  then show ?case using s1(1,4) by (cases s2) auto
qed (metis empty_iff list.set(1) run.simps(1))

lemma bench_inv_new: "bench_inv 0 (engine_new, risk_state_new bench_config, 0)"
proof -
  have r: "resting (engine_book engine_new) sd = []" for sd by (simp add: engine_new_def)
  have "exposure (engine_book engine_new) x = 0" for x by (simp add: exposure_def a_load_def r)
  moreover have "account_open_order_count (engine_book engine_new) x = 0" for x
    by (simp add: account_open_order_count_def engine_new_def book_new_def hm_get_def)
  moreover have "priced in_band (abs_book (engine_book engine_new))"
    by (simp add: priced_def a_prices_def r) (simp add: engine_new_def book_new_def)
  ultimately show ?thesis using engine_inv_new by (simp add: risk_state_new_def a_present_def r)
qed

section \<open>The mix\<close>

lemma kind_for_roll_nat:
  assumes "unat (new_pct m) + unat (cancel_pct m) + unat (cross_pct m) = 100" and "i < 100"
  shows "kind_for_roll m (of_nat i) =
    (if i < unat (new_pct m) then New
     else if i < unat (new_pct m) + unat (cancel_pct m) then Cancel
     else if 2 * (i - unat (new_pct m) - unat (cancel_pct m)) < unat (cross_pct m) then CrossMarket else CrossLimitSweep)"
proof -
  let ?n = "unat (new_pct m)" and ?c = "unat (cancel_pct m)"
  have i: "unat (of_nat i :: u32) = i" using assms(2) by simp
  have nc: "unat (new_pct m + cancel_pct m) = ?n + ?c" using assms(1) by (simp add: unat_plus_if')
  have "unat ((of_nat i - new_pct m - cancel_pct m) * 2) = 2 * (i - ?n - ?c)" if "?n + ?c \<le> i"
  proof -
    have "of_nat i - new_pct m - cancel_pct m = of_nat (i - ?n - ?c)" using that by (simp add: of_nat_diff)
    then have "(of_nat i - new_pct m - cancel_pct m) * 2 = of_nat (2 * (i - ?n - ?c))" by simp
    moreover have "2 * (i - ?n - ?c) < 2 ^ 32" using assms(2) by simp
    ultimately show ?thesis by (simp only: unat_of_nat_u32)
  qed
  then show ?thesis by (auto simp: kind_for_roll_def Let_def word_less_nat_alt i nc)
qed

lemma length_filter_range: "lo \<le> hi \<Longrightarrow> hi \<le> n \<Longrightarrow> length (filter (\<lambda>i. lo \<le> i \<and> i < hi) [0..<n]) = hi - lo"
proof -
  assume "lo \<le> hi" "hi \<le> n"
  then have "filter (\<lambda>i. lo \<le> i \<and> i < hi) [0..<n] = [lo..<hi]"
    by (intro sorted_distinct_set_unique) (auto simp: sorted_wrt_filter)
  then show ?thesis by simp
qed

text \<open>How many of the rolls \<open>0 .. 99\<close> give each kind of command.\<close>

definition rolls_of :: "mix \<Rightarrow> traffic_kind \<Rightarrow> nat" where
  "rolls_of m kind = length (filter (\<lambda>i. kind_for_roll m (of_nat i) = kind) [0..<100])"

lemma rolls_of_range:
  assumes "\<And>i. i < 100 \<Longrightarrow> kind_for_roll m (of_nat i) = kind \<longleftrightarrow> lo \<le> i \<and> i < hi" and "lo \<le> hi" and "hi \<le> 100"
  shows "rolls_of m kind = hi - lo"
proof -
  have "filter (\<lambda>i. kind_for_roll m (of_nat i) = kind) [0..<100] = filter (\<lambda>i. lo \<le> i \<and> i < hi) [0..<100]"
    using assms(1) by (intro filter_cong) auto
  then show ?thesis using length_filter_range [OF assms(2,3)] by (simp add: rolls_of_def)
qed

end
