(* ===== verification/Bench.thy ===== *)
theory Bench
  imports Workload Framing Server
begin

text \<open>
  The latency harness (\<open>bench/src/harness.rs\<close>). Its two threads share the table of pending
  commands, the counter of matched replies and the workload; a step of the model is one locked
  section of the sender or one pass of the reader loop. The reader touches the pool and the table
  one after the other and nothing else of the sender's, so that a frame is handled in one step.

  Instants are nanoseconds; every reading of the clock is an input. The histogram is a library
  type: its \<open>record\<close> method is the argument \<open>rec\<close>, with \<^const>\<open>None\<close> for its error.
\<close>

section \<open>harness.rs\<close>

definition IDLE_TIMEOUT :: nat where "IDLE_TIMEOUT = 30 * 1000000000"
definition HISTOGRAM_MIN_NS :: u64 where "HISTOGRAM_MIN_NS = 1"
definition HISTOGRAM_MAX_NS :: u64 where "HISTOGRAM_MAX_NS = 60000000000"

record run_config =
  rc_messages :: u64
  rc_rate_per_sec :: u64
  rc_warmup :: u64

record 'h run_report =
  rep_sent :: u64
  rep_matched :: u64
  rep_warmup_excluded :: u64
  rep_histogram :: 'h
  rep_wall_clock :: nat

definition unmatched :: "('h, 'm) run_report_scheme \<Rightarrow> u64" where
  "unmatched r = rep_sent r - rep_matched r"

definition histogram_samples :: "('h, 'm) run_report_scheme \<Rightarrow> u64" where
  "histogram_samples r = rep_matched r - rep_warmup_excluded r"

fun event_correlation_id :: "event \<Rightarrow> order_key option" where
  "event_correlation_id (Accepted account_id order_id _) = Some (account_id, order_id)"
| "event_correlation_id (Rejected account_id order_id _) = Some (account_id, order_id)"
| "event_correlation_id (Filled account_id order_id _ _ _ _ _) = Some (account_id, order_id)"
| "event_correlation_id (Cancelled account_id order_id) = Some (account_id, order_id)"
| "event_correlation_id (Replaced account_id order_id _ _) = Some (account_id, order_id)"
| "event_correlation_id (Trade _ _ _) = None"
| "event_correlation_id (BookUpdate _ _) = None"
| "event_correlation_id (SnapshotLevel _ _ _ _) = None"
| "event_correlation_id (SnapshotAccount _ _ _) = None"
| "event_correlation_id (SnapshotSummary _ _ _ _ _) = None"

text \<open>The sender between its locked sections: at message \<open>i\<close>, or with the next command chosen.\<close>

datatype sender = At u64 | Chosen u64 order_key command nat | Sent_All

record 'h bench =
  b_workload :: workload
  b_pending :: "(order_key, nat) hashmap"
  b_matched :: u64
  b_sender_done :: bool
  b_histogram :: 'h
  b_sender :: sender
  b_framer :: framer
  b_last_match :: nat
  b_reader_done :: bool

definition bench_init :: "workload \<Rightarrow> 'h \<Rightarrow> nat \<Rightarrow> 'h bench" where
  "bench_init w h now = \<lparr>b_workload = w, b_pending = [], b_matched = 0, b_sender_done = False, b_histogram = h,
     b_sender = At 0, b_framer = framer_new, b_last_match = now, b_reader_done = False\<rparr>"

text \<open>The intended time of message \<open>i\<close>: \<open>start + interval * (i as u32)\<close>.\<close>

definition intended_at :: "nat \<Rightarrow> nat \<Rightarrow> u64 \<Rightarrow> nat" where
  "intended_at start interval i = start + interval * unat (ucast i :: u32)"

text \<open>One step of the sender, with the bytes it writes.\<close>

definition sender_step :: "nat \<Rightarrow> nat \<Rightarrow> run_config \<Rightarrow> 'h bench \<Rightarrow> ('h bench \<times> bytes) option" where
  "sender_step start interval cfg st =
     (case b_sender st of
        At i \<Rightarrow>
          if i < rc_messages cfg then do {
            let intended = intended_at start interval i;
            ((key, cmd), w) \<leftarrow> next_command (b_workload st);
            Some (st\<lparr>b_workload := w, b_sender := Chosen i key cmd intended\<rparr>, [])
          } else Some (st\<lparr>b_sender := Sent_All, b_sender_done := True\<rparr>, [])
      | Chosen i key cmd intended \<Rightarrow> do {
          (buf, len) \<leftarrow> encode_command cmd (replicate MAX_MESSAGE_LEN 0);
          Some (st\<lparr>b_pending := hm_insert key intended (b_pending st), b_sender := At (i + 1)\<rparr>, take len buf)
        }
      | Sent_All \<Rightarrow> Some (st, []))"

definition clamp_ns :: "u64 \<Rightarrow> u64" where
  "clamp_ns v = max HISTOGRAM_MIN_NS (min v HISTOGRAM_MAX_NS)"

text \<open>A reply about \<open>i\<close>; \<open>now\<close> and \<open>now'\<close> are the two readings of the clock.\<close>

definition match_reply :: "('h \<Rightarrow> u64 \<Rightarrow> 'h option) \<Rightarrow> run_config \<Rightarrow> nat \<times> nat \<Rightarrow> order_key \<Rightarrow> 'h bench \<Rightarrow> 'h bench option" where
  "match_reply rec cfg ts i st =
     (case hm_get (b_pending st) i of
        None \<Rightarrow> Some st
      | Some intended \<Rightarrow> do {
          let latency_ns = (of_nat (fst ts - intended) :: u64);
          let count = b_matched st + 1;
          let st = st\<lparr>b_pending := hm_remove i (b_pending st), b_matched := count\<rparr>;
          st \<leftarrow> (if rc_warmup cfg < count
                 then map_option (\<lambda>h. st\<lparr>b_histogram := h\<rparr>) (rec (b_histogram st) (clamp_ns latency_ns))
                 else Some st);
          Some (st\<lparr>b_last_match := snd ts\<rparr>)
        })"

definition reader_frame :: "('h \<Rightarrow> u64 \<Rightarrow> 'h option) \<Rightarrow> run_config \<Rightarrow> nat \<times> nat \<Rightarrow> bytes \<Rightarrow> 'h bench \<Rightarrow> 'h bench option" where
  "reader_frame rec cfg ts frame st =
     (case decode_event frame of
        None \<Rightarrow> None
      | Some (Inl _) \<Rightarrow> Some st
      | Some (Inr (_, _, ev)) \<Rightarrow>
          (let st = st\<lparr>b_workload := observe ev (b_workload st)\<rparr>
           in case event_correlation_id ev of
                None \<Rightarrow> Some st
              | Some i \<Rightarrow> match_reply rec cfg ts i st))"

fun reader_frames :: "('h \<Rightarrow> u64 \<Rightarrow> 'h option) \<Rightarrow> run_config \<Rightarrow> (nat \<Rightarrow> nat \<times> nat) \<Rightarrow> nat \<Rightarrow> bytes list \<Rightarrow> 'h bench \<Rightarrow> 'h bench option" where
  "reader_frames rec cfg ts j [] st = Some st"
| "reader_frames rec cfg ts j (frame # frames) st = do {
     st \<leftarrow> reader_frame rec cfg (ts j) frame st;
     reader_frames rec cfg ts (Suc j) frames st
   }"

text \<open>What a read returns: end of file, data, a timeout, or another error.\<close>

datatype read_result = Read_Eof | Read_Data bytes "nat \<Rightarrow> nat \<times> nat" | Read_Timeout | Read_Error

text \<open>The two tests at the end of the reader's loop; \<open>now\<close> is when the elapsed time is taken.\<close>

definition reader_check :: "run_config \<Rightarrow> nat \<Rightarrow> 'h bench \<Rightarrow> 'h bench" where
  "reader_check cfg now st =
     (if b_sender_done st \<and> rc_messages cfg \<le> b_matched st then st\<lparr>b_reader_done := True\<rparr>
      else if b_sender_done st \<and> IDLE_TIMEOUT < now - b_last_match st then st\<lparr>b_reader_done := True\<rparr>
      else st)"

definition reader_step :: "('h \<Rightarrow> u64 \<Rightarrow> 'h option) \<Rightarrow> run_config \<Rightarrow> read_result \<Rightarrow> nat \<Rightarrow> 'h bench \<Rightarrow> 'h bench option" where
  "reader_step rec cfg res now st =
     (if b_reader_done st then Some st
      else case res of
        Read_Eof \<Rightarrow> Some (st\<lparr>b_reader_done := True\<rparr>)
      | Read_Data bs ts \<Rightarrow>
          (let (f, frames, _) = drain_frames (feed (b_framer st) bs)
           in do {
             st \<leftarrow> reader_frames rec cfg ts 0 frames (st\<lparr>b_framer := f\<rparr>);
             Some (reader_check cfg now st)
           })
      | Read_Timeout \<Rightarrow> Some (reader_check cfg now st)
      | Read_Error \<Rightarrow> Some (st\<lparr>b_reader_done := True\<rparr>))"

text \<open>The report, once both threads have ended.\<close>

definition bench_report :: "run_config \<Rightarrow> nat \<Rightarrow> 'h bench \<Rightarrow> 'h run_report" where
  "bench_report cfg wall_clock st = \<lparr>rep_sent = rc_messages cfg, rep_matched = b_matched st,
     rep_warmup_excluded = min (rc_warmup cfg) (b_matched st), rep_histogram = b_histogram st,
     rep_wall_clock = wall_clock\<rparr>"

section \<open>main.rs\<close>

definition DEFAULT_MESSAGES :: u64 where "DEFAULT_MESSAGES = 1000000"
definition DEFAULT_RATE_PER_SEC :: u64 where "DEFAULT_RATE_PER_SEC = 200000"
definition DEFAULT_WARMUP :: u64 where "DEFAULT_WARMUP = 50000"
definition DEFAULT_RISK_CONFIG :: string where "DEFAULT_RISK_CONFIG = ''risk-bench.toml''"

record bench_args =
  ba_messages :: u64
  ba_rate_per_sec :: u64
  ba_warmup :: u64
  ba_mix :: mix
  ba_risk_config_path :: string

definition default_args :: bench_args where
  "default_args = \<lparr>ba_messages = DEFAULT_MESSAGES, ba_rate_per_sec = DEFAULT_RATE_PER_SEC, ba_warmup = DEFAULT_WARMUP,
     ba_mix = \<lparr>new_pct = 70, cancel_pct = 20, cross_pct = 10\<rparr>, ba_risk_config_path = DEFAULT_RISK_CONFIG\<rparr>"

text \<open>One flag with its value; \<^const>\<open>None\<close> is \<open>exit(1)\<close>.\<close>

definition bench_flag :: "string \<Rightarrow> string \<Rightarrow> bench_args \<Rightarrow> bench_args option" where
  "bench_flag flag value st =
     (let parse_u64 = map_option of_nat (parse_uint 64 (str_lit value)) :: u64 option;
          parse_u32 = map_option of_nat (parse_uint 32 (str_lit value)) :: u32 option
      in if flag = ''--messages'' then map_option (\<lambda>n. st\<lparr>ba_messages := n\<rparr>) parse_u64
         else if flag = ''--rate'' then map_option (\<lambda>n. st\<lparr>ba_rate_per_sec := n\<rparr>) parse_u64
         else if flag = ''--warmup'' then map_option (\<lambda>n. st\<lparr>ba_warmup := n\<rparr>) parse_u64
         else if flag = ''--new-pct'' then map_option (\<lambda>n. st\<lparr>ba_mix := (ba_mix st)\<lparr>new_pct := n\<rparr>\<rparr>) parse_u32
         else if flag = ''--cancel-pct'' then map_option (\<lambda>n. st\<lparr>ba_mix := (ba_mix st)\<lparr>cancel_pct := n\<rparr>\<rparr>) parse_u32
         else if flag = ''--cross-pct'' then map_option (\<lambda>n. st\<lparr>ba_mix := (ba_mix st)\<lparr>cross_pct := n\<rparr>\<rparr>) parse_u32
         else if flag = ''--risk-config'' then Some (st\<lparr>ba_risk_config_path := value\<rparr>)
         else None)"

text \<open>A flag without a value and an unknown flag both exit.\<close>

fun bench_flags :: "string list \<Rightarrow> bench_args \<Rightarrow> bench_args cli" where
  "bench_flags [] st = Parsed st"
| "bench_flags [flag] st = Exit_Failure"
| "bench_flags (flag # value # args) st =
     (case bench_flag flag value st of None \<Rightarrow> Exit_Failure | Some st \<Rightarrow> bench_flags args st)"

definition parse_bench_args :: "string list \<Rightarrow> bench_args cli" where
  "parse_bench_args args =
     (case bench_flags (drop 1 args) default_args of
        Exit_Failure \<Rightarrow> Exit_Failure
      | Parsed st \<Rightarrow>
          if ba_rate_per_sec st = 0 then Exit_Failure
          else if ba_messages st < ba_warmup st then Exit_Failure
          else (case mix_validate (ba_mix st) of
                  Inl _ \<Rightarrow> Exit_Failure
                | Inr m \<Rightarrow> Parsed (st\<lparr>ba_mix := m\<rparr>)))"

text \<open>The socket paths: the process number and the value of the static counter are arguments.\<close>

definition temp_socket_path :: "nat \<Rightarrow> nat \<Rightarrow> string \<Rightarrow> string" where
  "temp_socket_path pid n label =
     ''/tmp/bench-'' @ label @ ''-'' @ map char_of (show_nat pid) @ ''-'' @ map char_of (show_nat n) @ ''.sock''"

text \<open>
  The retry loop: each attempt to connect has an outcome and, when it fails, the time at which the
  clock is read; \<open>deadline\<close> is five seconds after the first reading. \<^const>\<open>None\<close>: still trying.
\<close>

fun connect_with_retry :: "nat \<Rightarrow> ('s option \<times> nat) list \<Rightarrow> 's cli option" where
  "connect_with_retry deadline [] = None"
| "connect_with_retry deadline ((Some stream, _) # attempts) = Some (Parsed stream)"
| "connect_with_retry deadline ((None, now) # attempts) =
     (if now < deadline then connect_with_retry deadline attempts else Some Exit_Failure)"

text \<open>What \<open>main\<close> hands to the harness.\<close>

definition BENCH_SEED :: u64 where "BENCH_SEED = 0x9E3779B97F4A7C15"

definition bench_main :: "bench_args \<Rightarrow> workload \<times> run_config" where
  "bench_main args = (workload_new (ba_mix args) BENCH_SEED,
     \<lparr>rc_messages = ba_messages args, rc_rate_per_sec = ba_rate_per_sec args, rc_warmup = ba_warmup args\<rparr>)"

text \<open>The server of the benchmark gets two different paths, whatever the numbers.\<close>

lemma temp_paths_differ: "temp_socket_path pid n ''oe'' \<noteq> temp_socket_path pid' n' ''md''"
  by (simp add: temp_socket_path_def)

text \<open>The retry loop ends with the first success or with the first failure past the deadline.\<close>

lemma connect_with_retry_ends:
  assumes "\<forall>x \<in> set before. fst x = None \<and> snd x < deadline" and "fst last_try \<noteq> None \<or> deadline \<le> snd last_try"
  shows "connect_with_retry deadline (before @ last_try # after) =
    Some (case fst last_try of Some stream \<Rightarrow> Parsed stream | None \<Rightarrow> Exit_Failure)"
  using assms(1)
proof (induction before)
  case Nil
  then show ?case using assms(2) by (cases last_try; cases "fst last_try") auto
next
  case (Cons x before)
  then show ?case by (cases x) auto
qed

text \<open>Whatever is accepted can be run: the assertion at the start of \<open>run\<close> holds, and so on.\<close>

lemma parse_bench_args_valid:
  assumes "parse_bench_args args = Parsed a"
  shows "0 < ba_rate_per_sec a" and "ba_warmup a \<le> ba_messages a"
    and "new_pct (ba_mix a) + cancel_pct (ba_mix a) + cross_pct (ba_mix a) = 100"
  using assms by (auto simp: parse_bench_args_def mix_validate_def Let_def word_neq_0_conv not_less
      split: cli.splits if_splits sum.splits)

end
