(* ===== verification/Bench_Loop.thy ===== *)
theory Bench_Loop
  imports Bench System_Flow
begin

text \<open>
  The harness against the engine: the commands it writes are decoded and processed in order, and
  the reports come back as a byte stream that the reader takes in pieces of any size. The harness
  is the only connection, so that every report is its own. Whatever the schedule, nothing panics,
  every command sent is either pending or matched, and when everything has been read nothing is
  pending.
\<close>

section \<open>The closed loop\<close>

record 'h loop =
  lp_bench :: "'h bench"
  lp_commands :: "command list"
  lp_engine :: risk_sys
  lp_seq :: stream_seq
  lp_unread :: bytes

datatype loop_action = Sender_Acts | Server_Acts | Reader_Acts nat "nat \<Rightarrow> nat \<times> nat" nat

definition received :: "bytes \<Rightarrow> command list" where
  "received bs = (case decode_command bs of Some (Inr cmd) \<Rightarrow> [cmd] | _ \<Rightarrow> [])"

definition reports :: "(engine_seq \<times> event) list \<Rightarrow> (engine_seq \<times> event) list" where
  "reports out = filter (\<lambda>x. event_id (snd x) \<noteq> None) out"

definition serve :: "'h loop \<Rightarrow> 'h loop option" where
  "serve lp =
     (case lp_commands lp of
        [] \<Rightarrow> Some lp
      | cmd # cmds \<Rightarrow> do {
          (s, out) \<leftarrow> process_step (lp_engine lp) cmd;
          let replies = number_from (lp_seq lp) (reports out);
          Some (lp\<lparr>lp_commands := cmds, lp_engine := s, lp_seq := lp_seq lp + of_nat (length replies),
            lp_unread := lp_unread lp @ concat (map reply_bytes replies)\<rparr>)
        })"

fun loop_step :: "('h \<Rightarrow> u64 \<Rightarrow> 'h option) \<Rightarrow> nat \<Rightarrow> nat \<Rightarrow> run_config \<Rightarrow> 'h loop \<Rightarrow> loop_action \<Rightarrow> 'h loop option" where
  "loop_step rec start interval cfg lp Sender_Acts = do {
     (b, bs) \<leftarrow> sender_step start interval cfg (lp_bench lp);
     Some (lp\<lparr>lp_bench := b, lp_commands := lp_commands lp @ received bs\<rparr>)
   }"
| "loop_step rec start interval cfg lp Server_Acts = serve lp"
| "loop_step rec start interval cfg lp (Reader_Acts n ts now) =
     (let chunk = take n (lp_unread lp)
      in do {
        b \<leftarrow> reader_step rec cfg (if chunk = [] then Read_Timeout else Read_Data chunk ts) now (lp_bench lp);
        Some (lp\<lparr>lp_bench := b, lp_unread := if b_reader_done (lp_bench lp) then lp_unread lp else drop n (lp_unread lp)\<rparr>)
      })"

fun loop_run :: "('h \<Rightarrow> u64 \<Rightarrow> 'h option) \<Rightarrow> nat \<Rightarrow> nat \<Rightarrow> run_config \<Rightarrow> 'h loop \<Rightarrow> loop_action list \<Rightarrow> 'h loop option" where
  "loop_run rec start interval cfg lp [] = Some lp"
| "loop_run rec start interval cfg lp (act # acts) = do {
     lp \<leftarrow> loop_step rec start interval cfg lp act;
     loop_run rec start interval cfg lp acts
   }"

definition loop_init :: "workload \<Rightarrow> 'h \<Rightarrow> nat \<Rightarrow> 'h loop" where
  "loop_init w h now = \<lparr>lp_bench = bench_init w h now, lp_commands = [],
     lp_engine = (engine_new, risk_state_new bench_config, 0), lp_seq = 0, lp_unread = []\<rparr>"

section \<open>Which order is where\<close>

fun resting_keys :: "event list \<Rightarrow> order_key list" where
  "resting_keys [] = []"
| "resting_keys (Accepted a oid q # evs) = (if 0 < q then (a, oid) # resting_keys evs else resting_keys evs)"
| "resting_keys (_ # evs) = resting_keys evs"

fun new_keys :: "command list \<Rightarrow> order_key list" where
  "new_keys [] = []"
| "new_keys (NewOrder a oid _ _ _ _ _ _ # cmds) = (a, oid) # new_keys cmds"
| "new_keys (_ # cmds) = new_keys cmds"

lemma resting_keys_append [simp]: "resting_keys (xs @ ys) = resting_keys xs @ resting_keys ys"
  by (induction xs rule: resting_keys.induct) auto

lemma new_keys_append [simp]: "new_keys (xs @ ys) = new_keys xs @ new_keys ys"
  by (induction xs rule: new_keys.induct) auto

definition self_keys :: "command list \<Rightarrow> order_key set" where
  "self_keys cmds = {k. Some k \<in> command_self_id ` set cmds}"

definition reply_keys :: "event list \<Rightarrow> order_key set" where
  "reply_keys evs = {k. Some k \<in> event_id ` set evs}"

lemma self_keys_simps [simp]:
  "self_keys [] = {}" "self_keys (cmd # cmds) = set_option (command_self_id cmd) \<union> self_keys cmds"
  "self_keys (xs @ ys) = self_keys xs \<union> self_keys ys"
  by (auto simp: self_keys_def)

lemma reply_keys_simps [simp]:
  "reply_keys [] = {}" "reply_keys (ev # evs) = set_option (event_id ev) \<union> reply_keys evs"
  "reply_keys (xs @ ys) = reply_keys xs \<union> reply_keys ys"
  by (auto simp: reply_keys_def)

text \<open>
  The keys of a run: the pool of orders known to rest, the acceptances under way, the new orders
  under way and the command chosen are about different orders; a pending key has its command or a
  reply under way, and is neither in the pool nor chosen; the identifiers are those given out.
\<close>

definition given :: "nat \<Rightarrow> order_key set" where
  "given k = {key. unat (snd key) \<le> k}"

lemma given_new: "unat (snd key) = Suc k \<Longrightarrow> key \<notin> given k \<and> insert key (given k) \<subseteq> given (Suc k)"
  by (auto simp: given_def)

definition keys_inv :: "order_key list \<Rightarrow> order_key set \<Rightarrow> order_key list \<Rightarrow> command list \<Rightarrow> event list \<Rightarrow> nat \<Rightarrow> bool" where
  "keys_inv pool pend ch cmds evs k \<longleftrightarrow>
     distinct (pool @ resting_keys evs @ new_keys cmds @ ch) \<and>
     pend \<subseteq> self_keys cmds \<union> reply_keys evs \<and> pend \<inter> (set pool \<union> set ch) = {} \<and>
     set (pool @ resting_keys evs @ new_keys cmds @ ch) \<union> pend \<subseteq> given k"

lemma keys_choose_new:
  assumes "keys_inv pool pend [] cmds evs k" and "unat (snd key) = Suc k"
  shows "keys_inv pool pend [key] cmds evs (Suc k)"
  using assms(1) given_new [OF assms(2)] unfolding keys_inv_def by simp blast

lemma keys_choose_cancel:
  assumes "keys_inv (key # pool) pend [] cmds evs k"
  shows "keys_inv pool pend [key] cmds evs k"
  using assms unfolding keys_inv_def by auto

text \<open>The chosen command is written: its key becomes pending.\<close>

lemma keys_insert:
  assumes "keys_inv pool pend [key] cmds evs k" and "command_self_id cmd = Some key" and "set (new_keys [cmd]) \<subseteq> {key}"
    and "distinct (new_keys [cmd])"
  shows "keys_inv pool (insert key pend) [] (cmds @ [cmd]) evs k \<and> key \<notin> pend"
  using assms unfolding keys_inv_def by simp blast

text \<open>A command is processed: its replies include one about its own key, and an acceptance only of a new order.\<close>

lemma keys_serve:
  assumes "keys_inv pool pend ch (cmd # cmds) evs k" and "set_option (command_self_id cmd) \<subseteq> reply_keys out"
    and "resting_keys out = [] \<or> resting_keys out = new_keys [cmd]"
  shows "keys_inv pool pend ch cmds (evs @ out) k"
proof -
  have n: "new_keys (cmd # cmds) = new_keys [cmd] @ new_keys cmds" using new_keys_append [of "[cmd]" cmds] by simp
  have d: "distinct (pool @ resting_keys (evs @ out) @ new_keys cmds @ ch)"
    "set (pool @ resting_keys (evs @ out) @ new_keys cmds @ ch) \<subseteq> set (pool @ resting_keys evs @ new_keys (cmd # cmds) @ ch)"
    using assms(1,3) unfolding keys_inv_def n by auto
  show ?thesis using assms(1,2) d unfolding keys_inv_def by auto
qed

text \<open>A reply is read.\<close>

lemma keys_reply:
  assumes "keys_inv (w_resting_pool w) pend ch cmds (ev # evs) k"
  shows "keys_inv (w_resting_pool (observe ev w)) (pend - set_option (event_id ev)) ch cmds evs k"
  using assms unfolding keys_inv_def by (cases ev) (auto simp: observe_def)

section \<open>What the engine answers\<close>

lemma a_sweep_rests_nothing: "a_sweep a oid side limit rs lt rem = (st, out) \<Longrightarrow> resting_keys out = []"
  by (induction a oid side limit rs lt rem arbitrary: st out rule: a_sweep.induct)
    (auto simp: Let_def fill_events_def split: if_splits prod.splits)

lemma a_match_rests_nothing: "a_match ab a oid side p q = (st, out) \<Longrightarrow> resting_keys out = []"
  using a_sweep_rests_nothing by (auto simp: a_match_def split: prod.splits)

lemma a_stp_rests_nothing: "a_stp a side p rs = (st, out) \<Longrightarrow> resting_keys out = []"
  by (induction a side p rs arbitrary: st out rule: a_stp.induct) (auto simp: Let_def split: if_splits prod.splits)

lemma a_dispatch_rests: "resting_keys (snd (a_dispatch ab cmd)) = [] \<or> resting_keys (snd (a_dispatch ab cmd)) = new_keys [cmd]"
  using a_match_rests_nothing a_stp_rests_nothing
  by (cases cmd)
    (auto simp: a_dispatch_def a_submit_gtc_def a_submit_ioc_def a_submit_fok_def a_submit_postonly_def a_cancel_def
      a_modify_def Let_def split: order_kind.splits tif.splits prod.splits option.splits)

lemma resting_keys_reports [simp]: "resting_keys (map snd (reports out)) = resting_keys (map snd out)"
  unfolding reports_def
proof (induction out)
  case (Cons x out)
  then show ?case by (cases "snd x") auto
qed simp

lemma process_replies:
  assumes inv: "engine_inv e" and ok: "command_ok cmd" and room: "book_room (engine_book e)"
    and self: "command_self_id cmd = Some key" and p: "process_command e rs cmd seq = Some ((e', rs', seq'), out)"
  shows "key \<in> reply_keys (map snd (reports out))"
    and "resting_keys (map snd out) = [] \<or> resting_keys (map snd out) = new_keys [cmd]"
proof -
  show "key \<in> reply_keys (map snd (reports out))"
    using process_answers [OF assms] by (force simp: reply_keys_def reports_def)
  show "resting_keys (map snd out) = [] \<or> resting_keys (map snd out) = new_keys [cmd]"
    using p
  proof (cases rule: process_commandE)
    case (rejected r)
    then show ?thesis using pre_apply_reject [OF rejected(1)] by auto
  next
    case (applied evs)
    have bi: "book_inv (engine_book e)" using inv by (simp add: engine_inv_def)
    obtain out' upd where d: "dispatch (engine_book e) cmd = Some (engine_book e', out')" "evs = out' @ upd"
      "resting_keys upd = []"
      using applied(2) by (auto simp: engine_apply_def Let_def bind_eq_Some_iff split: if_splits)
    have "out' = snd (a_dispatch (abs_book (engine_book e)) cmd)"
      using refines_abs [OF dispatch_refines [OF bi room ok self] d(1)] by simp
    then show ?thesis using a_dispatch_rests d applied(4) by (simp add: comp_def)
  qed
qed

section \<open>Bytes\<close>

text \<open>The frames in a prefix of a stream of whole frames.\<close>

lemma split_frames_prefix:
  assumes "bs @ left = concat fs" and "\<forall>f \<in> set fs. frame_ok f"
  shows "\<exists>n r. split_frames bs = (take n fs, r, Inr ()) \<and> r @ left = concat (drop n fs)"
proof -
  obtain gs r res where s: "split_frames bs = (gs, r, res)" by (metis prod.exhaust)
  have w: "split_frames (bs @ left) = (fs, [], Inr ())" using split_frames_concat [OF assms(2)] assms(1) by simp
  obtain hs r' res' where t: "split_frames (r @ left) = (hs, r', res')" by (metis prod.exhaust)
  have "res = Inr ()" using split_frames_error [of bs gs r _ left] s w by (cases res) auto
  then have "fs = gs @ hs" "r' = []" using split_frames_append [of bs gs r left hs r' res'] s t w by auto
  moreover have "r @ left = concat hs" using split_frames_cut [OF t] calculation(2) by simp
  ultimately show ?thesis using s \<open>res = Inr ()\<close> by (intro exI [of _ "length gs"]) simp
qed

lemma reply_frame_ok: "frame_ok (reply_bytes x)"
  by (cases x) (simp add: reply_bytes_def frame_ok_def length_event_bytes)

lemma decode_reply: "\<exists>es. decode_event (reply_bytes x) = Some (Inr (fst x, es, snd (snd x)))"
  by (cases x) (simp add: reply_bytes_def decode_event_bytes)

section \<open>Counting\<close>

text \<open>What the histogram promises: a value within its bounds is recorded as one more sample.\<close>

definition histogram_ok :: "('h \<Rightarrow> u64 \<Rightarrow> 'h option) \<Rightarrow> ('h \<Rightarrow> nat) \<Rightarrow> bool" where
  "histogram_ok rec samples \<longleftrightarrow> (\<forall>h v. HISTOGRAM_MIN_NS \<le> v \<longrightarrow> v \<le> HISTOGRAM_MAX_NS \<longrightarrow>
     (\<exists>h'. rec h v = Some h' \<and> samples h' = Suc (samples h)))"

lemma clamp_in_bounds: "HISTOGRAM_MIN_NS \<le> clamp_ns v \<and> clamp_ns v \<le> HISTOGRAM_MAX_NS"
  by (simp add: clamp_ns_def HISTOGRAM_MIN_NS_def HISTOGRAM_MAX_NS_def max_def min_def)

definition schedule :: "nat \<Rightarrow> nat \<Rightarrow> run_config \<Rightarrow> nat set" where
  "schedule start interval cfg = intended_at start interval ` {n. n < rc_messages cfg}"

text \<open>\<open>i\<close> commands were written: each is pending, since a time of the schedule, or matched.\<close>

definition counted :: "('h \<Rightarrow> nat) \<Rightarrow> nat set \<Rightarrow> u64 \<Rightarrow> 'h bench \<Rightarrow> nat \<Rightarrow> bool" where
  "counted samples sched warmup b i \<longleftrightarrow> hm_ok (b_pending b) \<and> unat (b_matched b) + length (b_pending b) = i \<and>
     samples (b_histogram b) = unat (b_matched b) - unat warmup \<and> snd ` set (b_pending b) \<subseteq> sched"

definition same_run :: "'h bench \<Rightarrow> 'h bench \<Rightarrow> bool" where
  "same_run b b' \<longleftrightarrow> b_sender b' = b_sender b \<and> b_sender_done b' = b_sender_done b \<and> b_framer b' = b_framer b \<and>
     b_reader_done b' = b_reader_done b"

lemma event_correlation_id_eq: "event_correlation_id ev = event_id ev"
  by (cases ev) auto

lemma match_reply_counted:
  assumes h: "histogram_ok rec samples" and c: "counted samples sched (rc_warmup cfg) b i" and i: "i < 2 ^ 64"
  shows "\<exists>b'. match_reply rec cfg ts key b = Some b' \<and> counted samples sched (rc_warmup cfg) b' i \<and>
    b_workload b' = b_workload b \<and> fst ` set (b_pending b') = fst ` set (b_pending b) - {key} \<and> same_run b b'"
proof (cases "hm_get (b_pending b) key")
  case None
  moreover have "key \<notin> fst ` set (b_pending b)" using None hm_get_None by fast
  ultimately show ?thesis using c by (simp add: match_reply_def same_run_def)
next
  case (Some t)
  let ?b = "b\<lparr>b_pending := hm_remove key (b_pending b), b_matched := b_matched b + 1\<rparr>"
  let ?v = "clamp_ns (of_nat (fst ts - t))"
  have len: "length (b_pending b) = Suc (length (hm_remove key (b_pending b)))"
    using length_hm_remove [of "b_pending b" key] c Some by (simp add: counted_def)
  then have m: "unat (b_matched b + 1) = Suc (unat (b_matched b))"
    using c i by (simp add: counted_def unat_plus_if')
  obtain h' where h': "rec (b_histogram b) ?v = Some h'" "samples h' = Suc (samples (b_histogram b))"
    using h clamp_in_bounds [of "of_nat (fst ts - t)"] unfolding histogram_ok_def by blast
  have inv: "hm_ok (hm_remove key (b_pending b))" "snd ` set (hm_remove key (b_pending b)) \<subseteq> sched"
    using c by (simp_all add: counted_def hm_ok_remove order_trans [OF snd_hm_remove])
  show ?thesis
  proof (cases "rc_warmup cfg < b_matched b + 1")
    case True
    then have "unat (rc_warmup cfg) \<le> unat (b_matched b)" using m by (simp add: word_less_nat_alt)
    then show ?thesis using Some True h' c m len inv
      by (simp add: match_reply_def counted_def same_run_def fst_hm_remove Suc_diff_le)
  next
    case False
    then have "Suc (unat (b_matched b)) \<le> unat (rc_warmup cfg)" using m by (simp add: word_less_nat_alt)
    then show ?thesis using Some False c m len inv
      by (simp add: match_reply_def counted_def same_run_def fst_hm_remove)
  qed
qed

lemma reader_frame_counted:
  assumes "histogram_ok rec samples" and c: "counted samples sched (rc_warmup cfg) b i" and "i < 2 ^ 64"
  shows "\<exists>b'. reader_frame rec cfg ts (reply_bytes x) b = Some b' \<and> counted samples sched (rc_warmup cfg) b' i \<and>
    b_workload b' = observe (snd (snd x)) (b_workload b) \<and>
    fst ` set (b_pending b') = fst ` set (b_pending b) - set_option (event_id (snd (snd x))) \<and> same_run b b'"
proof -
  let ?b = "b\<lparr>b_workload := observe (snd (snd x)) (b_workload b)\<rparr>"
  have c': "counted samples sched (rc_warmup cfg) ?b i" using c by (simp add: counted_def)
  obtain es where d: "decode_event (reply_bytes x) = Some (Inr (fst x, es, snd (snd x)))" using decode_reply by blast
  show ?thesis
  proof (cases "event_id (snd (snd x))")
    case None
    then show ?thesis using c' d by (simp add: reader_frame_def event_correlation_id_eq same_run_def)
  next
    case (Some key)
    then show ?thesis using match_reply_counted [OF assms(1) c' assms(3), of ts key] d
      by (fastforce simp: reader_frame_def event_correlation_id_eq same_run_def)
  qed
qed

lemma reader_frames_counted:
  assumes "histogram_ok rec samples" and "counted samples sched (rc_warmup cfg) b i" and "i < 2 ^ 64"
    and "keys_inv (w_resting_pool (b_workload b)) (fst ` set (b_pending b)) ch cmds (map (\<lambda>x. snd (snd x)) (xs @ ys)) k"
    and "counters k (b_workload b)"
  shows "\<exists>b'. reader_frames rec cfg ts j (map reply_bytes xs) b = Some b' \<and> counted samples sched (rc_warmup cfg) b' i \<and>
    keys_inv (w_resting_pool (b_workload b')) (fst ` set (b_pending b')) ch cmds (map (\<lambda>x. snd (snd x)) ys) k \<and>
    counters k (b_workload b') \<and> same_run b b'"
  using assms(2,4,5)
proof (induction xs arbitrary: b j)
  case (Cons x xs)
  obtain b1 where b1: "reader_frame rec cfg (ts j) (reply_bytes x) b = Some b1" "counted samples sched (rc_warmup cfg) b1 i"
    "b_workload b1 = observe (snd (snd x)) (b_workload b)"
    "fst ` set (b_pending b1) = fst ` set (b_pending b) - set_option (event_id (snd (snd x)))" "same_run b b1"
    using reader_frame_counted [OF assms(1) Cons.prems(1) assms(3), of "ts j" x] by blast
  have "keys_inv (w_resting_pool (b_workload b1)) (fst ` set (b_pending b1)) ch cmds (map (\<lambda>x. snd (snd x)) (xs @ ys)) k"
    unfolding b1(3,4) by (rule keys_reply) (use Cons.prems(2) in simp)
  from Cons.IH [OF b1(2) this, of "Suc j"] show ?case using b1 Cons.prems(3) by (auto simp: same_run_def)
qed (simp add: same_run_def)

section \<open>The invariant of the loop\<close>

fun chosen :: "sender \<Rightarrow> (order_key \<times> command) list" where
  "chosen (Chosen _ key cmd _) = [(key, cmd)]"
| "chosen _ = []"

text \<open>\<open>i\<close> commands were written so far.\<close>

fun written :: "nat set \<Rightarrow> u64 \<Rightarrow> sender \<Rightarrow> bool \<Rightarrow> nat \<Rightarrow> bool" where
  "written sched n (At m) done i \<longleftrightarrow> unat m = i \<and> i \<le> unat n \<and> \<not> done"
| "written sched n (Chosen m key cmd t) done i \<longleftrightarrow> unat m = i \<and> i < unat n \<and> \<not> done \<and> command_self_id cmd = Some key \<and> t \<in> sched"
| "written sched n Sent_All done i \<longleftrightarrow> i = unat n \<and> done"

definition orders_in :: "command list \<Rightarrow> nat" where
  "orders_in cmds = length (filter (\<lambda>cmd. \<not> is_cancel cmd) cmds)"

lemma orders_in_simps [simp]:
  "orders_in [] = 0" "orders_in (cmd # cmds) = (if is_cancel cmd then 0 else 1) + orders_in cmds"
  "orders_in (xs @ ys) = orders_in xs + orders_in ys"
  by (simp_all add: orders_in_def)

lemma numbered_append: "numbered j (xs @ ys) \<longleftrightarrow> numbered j xs \<and> numbered (j + orders_in xs) ys"
  by (induction xs arbitrary: j) auto

definition loop_at :: "('h \<Rightarrow> nat) \<Rightarrow> nat \<Rightarrow> nat \<Rightarrow> run_config \<Rightarrow> 'h loop \<Rightarrow> nat \<Rightarrow> nat \<Rightarrow> nat \<Rightarrow>
    (u64 \<times> engine_seq \<times> event) list \<Rightarrow> bool" where
  "loop_at samples start interval cfg lp i j k replies \<longleftrightarrow>
     (let b = lp_bench lp; cmds = lp_commands lp; ch = chosen (b_sender b) in
     written (schedule start interval cfg) (rc_messages cfg) (b_sender b) (b_sender_done b) i \<and>
     bench_inv j (lp_engine lp) \<and> sys_slots (lp_engine lp) + length cmds \<le> i \<and>
     numbered j (cmds @ map snd ch) \<and> k = j + orders_in (cmds @ map snd ch) \<and> k \<le> i + length ch \<and>
     counters k (b_workload b) \<and>
     framer_buf (b_framer b) @ lp_unread lp = concat (map reply_bytes replies) \<and>
     split_frames (framer_buf (b_framer b)) = ([], framer_buf (b_framer b), Inr ()) \<and>
     keys_inv (w_resting_pool (b_workload b)) (fst ` set (b_pending b)) (map fst ch) cmds (map (\<lambda>x. snd (snd x)) replies) k \<and>
     counted samples (schedule start interval cfg) (rc_warmup cfg) b i)"

text \<open>
  \<open>i\<close> commands were written, \<open>j\<close> orders processed, \<open>k\<close> orders given out, and \<open>replies\<close> are on
  their way to the reader.
\<close>

definition loop_inv :: "('h \<Rightarrow> nat) \<Rightarrow> nat \<Rightarrow> nat \<Rightarrow> run_config \<Rightarrow> 'h loop \<Rightarrow> bool" where
  "loop_inv samples start interval cfg lp \<longleftrightarrow> (\<exists>i j k replies. loop_at samples start interval cfg lp i j k replies)"

lemma loop_atD:
  assumes "loop_at samples start interval cfg lp i j k replies"
  shows "written (schedule start interval cfg) (rc_messages cfg) (b_sender (lp_bench lp)) (b_sender_done (lp_bench lp)) i"
    and "bench_inv j (lp_engine lp)" and "sys_slots (lp_engine lp) + length (lp_commands lp) \<le> i"
    and "numbered j (lp_commands lp @ map snd (chosen (b_sender (lp_bench lp))))"
    and "k = j + orders_in (lp_commands lp @ map snd (chosen (b_sender (lp_bench lp))))"
    and "k \<le> i + length (chosen (b_sender (lp_bench lp)))" and "counters k (b_workload (lp_bench lp))"
    and "framer_buf (b_framer (lp_bench lp)) @ lp_unread lp = concat (map reply_bytes replies)"
    and "split_frames (framer_buf (b_framer (lp_bench lp))) = ([], framer_buf (b_framer (lp_bench lp)), Inr ())"
    and "keys_inv (w_resting_pool (b_workload (lp_bench lp))) (fst ` set (b_pending (lp_bench lp)))
      (map fst (chosen (b_sender (lp_bench lp)))) (lp_commands lp) (map (\<lambda>x. snd (snd x)) replies) k"
    and "counted samples (schedule start interval cfg) (rc_warmup cfg) (lp_bench lp) i"
  using assms unfolding loop_at_def Let_def by blast+

lemma written_le: "written sched n s done i \<Longrightarrow> i + length (chosen s) \<le> unat n"
  by (cases s) auto

lemma loop_inv_init:
  assumes "samples h = 0" and "counters 0 w" and "w_resting_pool w = []"
  shows "loop_inv samples start interval cfg (loop_init w h now)"
  unfolding loop_inv_def loop_at_def
  by (intro exI [of _ 0] exI [of _ "[]"])
    (use assms bench_inv_new in \<open>simp add: loop_init_def bench_init_def framer_new_def counted_def hm_ok_def keys_inv_def
      engine_new_def book_new_def arena_new_def split_frames_eqs\<close>)

lemma reader_keeps:
  assumes h: "histogram_ok rec samples" and inv: "loop_inv samples start interval cfg lp"
  shows "\<exists>lp'. loop_step rec start interval cfg lp (Reader_Acts n ts now) = Some lp' \<and> loop_inv samples start interval cfg lp'"
proof -
  let ?b = "lp_bench lp" and ?chunk = "take n (lp_unread lp)" and ?sched = "schedule start interval cfg"
  let ?ch = "chosen (b_sender ?b)"
  obtain i j k replies where at: "loop_at samples start interval cfg lp i j k replies"
    using inv unfolding loop_inv_def by blast
  note w = loop_atD(1) [OF at] and e = loop_atD(2-7) [OF at] and bs = loop_atD(8,9) [OF at] and ks = loop_atD(10) [OF at]
    and c = loop_atD(11) [OF at]
  have i: "i < 2 ^ 64" using written_le [OF w] unsigned_less [of "rc_messages cfg", where ?'a = nat] by simp
  have check: "\<exists>d. reader_check cfg now b = b\<lparr>b_reader_done := d\<rparr>" for b :: "'a bench"
    unfolding reader_check_def by (cases b) auto
  show ?thesis
  proof (cases "b_reader_done ?b \<or> ?chunk = []")
    case True
    have "\<exists>d. loop_step rec start interval cfg lp (Reader_Acts n ts now) = Some (lp\<lparr>lp_bench := ?b\<lparr>b_reader_done := d\<rparr>\<rparr>)"
      using True check [of ?b] by (cases lp) (auto simp: reader_step_def Let_def intro: exI [of _ True])
    then obtain d where d: "loop_step rec start interval cfg lp (Reader_Acts n ts now) =
        Some (lp\<lparr>lp_bench := ?b\<lparr>b_reader_done := d\<rparr>\<rparr>)" by blast
    have "loop_inv samples start interval cfg (lp\<lparr>lp_bench := ?b\<lparr>b_reader_done := d\<rparr>\<rparr>)"
      using inv by (simp add: loop_inv_def loop_at_def Let_def counted_def)
    then show ?thesis using d by blast
  next
    case False
    have whole: "(framer_buf (b_framer ?b) @ ?chunk) @ drop n (lp_unread lp) = concat (map reply_bytes replies)" using bs(1) by simp
    have "\<forall>f \<in> set (map reply_bytes replies). frame_ok f" by (simp add: reply_frame_ok)
    from split_frames_prefix [OF whole this] obtain m r where s: "split_frames (framer_buf (b_framer ?b) @ ?chunk) = (take m (map reply_bytes replies), r, Inr ())"
      and r: "r @ drop n (lp_unread lp) = concat (drop m (map reply_bytes replies))" by blast
    define f where "f = (b_framer ?b)\<lparr>framer_buf := r\<rparr>"
    have dr: "drain_frames (feed (b_framer ?b) ?chunk) = (f, map reply_bytes (take m replies), Inr ())"
      using s by (simp add: drain_frames_split feed_def f_def take_map)
    have c': "counted samples ?sched (rc_warmup cfg) (?b\<lparr>b_framer := f\<rparr>) i" using c by (simp add: counted_def)
    have ks': "keys_inv (w_resting_pool (b_workload (?b\<lparr>b_framer := f\<rparr>))) (fst ` set (b_pending (?b\<lparr>b_framer := f\<rparr>)))
        (map fst ?ch) (lp_commands lp) (map (\<lambda>x. snd (snd x)) (take m replies @ drop m replies)) k" using ks by simp
    have cn: "counters k (b_workload (?b\<lparr>b_framer := f\<rparr>))" using e(6) by simp
    obtain b' where b': "reader_frames rec cfg ts 0 (map reply_bytes (take m replies)) (?b\<lparr>b_framer := f\<rparr>) = Some b'"
      "counted samples ?sched (rc_warmup cfg) b' i"
      "keys_inv (w_resting_pool (b_workload b')) (fst ` set (b_pending b')) (map fst ?ch) (lp_commands lp)
        (map (\<lambda>x. snd (snd x)) (drop m replies)) k" "counters k (b_workload b')" "same_run (?b\<lparr>b_framer := f\<rparr>) b'"
      using reader_frames_counted [OF h c' i ks' cn, of ts 0] by blast
    obtain d where d: "reader_check cfg now b' = b'\<lparr>b_reader_done := d\<rparr>" using check by blast
    let ?lp = "lp\<lparr>lp_bench := b'\<lparr>b_reader_done := d\<rparr>, lp_unread := drop n (lp_unread lp)\<rparr>"
    have step: "loop_step rec start interval cfg lp (Reader_Acts n ts now) = Some ?lp"
      using False dr b'(1) d by (simp add: reader_step_def Let_def)
    have "loop_inv samples start interval cfg ?lp"
      unfolding loop_inv_def loop_at_def Let_def
      by (intro exI [of _ i] exI [of _ j] exI [of _ k] exI [of _ "drop m replies"])
        (use w e b' r split_frames_rest [OF s] in \<open>simp add: same_run_def counted_def f_def drop_map\<close>)
    then show ?thesis using step by blast
  qed
qed

lemma server_keeps:
  assumes inv: "loop_inv samples start interval cfg lp" and n: "unat (rc_messages cfg) < 80000000"
  shows "\<exists>lp'. loop_step rec start interval cfg lp Server_Acts = Some lp' \<and> loop_inv samples start interval cfg lp'"
proof (cases "lp_commands lp")
  case Nil
  then show ?thesis using inv by (simp add: serve_def)
next
  case (Cons cmd cmds)
  let ?b = "lp_bench lp" and ?sched = "schedule start interval cfg"
  let ?ch = "chosen (b_sender ?b)"
  obtain i j k replies where at: "loop_at samples start interval cfg lp i j k replies"
    using inv unfolding loop_inv_def by blast
  note w = loop_atD(1) [OF at] and e = loop_atD(2-7) [OF at] and bs = loop_atD(8,9) [OF at] and ks = loop_atD(10) [OF at]
    and c = loop_atD(11) [OF at]
  have t: "new_traffic j cmd \<or> is_cancel cmd" using e(3) Cons by (simp split: if_splits)
  have small: "j < 80000000" "sys_slots (lp_engine lp) < 2 ^ 32 - 1" using written_le [OF w] e(2,4,5) n Cons by simp_all
  from bench_step [OF e(1) small(1) t small(2)] obtain s out where s: "process_step (lp_engine lp) cmd = Some (s, out)"
    "bench_inv (if is_cancel cmd then j else Suc j) s" "sys_slots s \<le> Suc (sys_slots (lp_engine lp))" by blast
  obtain key where key: "command_self_id cmd = Some key" "command_ok cmd" using traffic_ok [OF t] by blast
  obtain eg rs seq where eg: "lp_engine lp = (eg, rs, seq)" by (metis prod.exhaust)
  have p: "process_command eg rs cmd seq = Some ((fst s, fst (snd s), snd (snd s)), out)" using s(1) eg by simp
  have ei: "engine_inv eg" "book_room (engine_book eg)" using e(1) small(2) eg by (auto intro: book_room_slots)
  define new where "new = number_from (lp_seq lp) (reports out)"
  let ?lp = "lp\<lparr>lp_commands := cmds, lp_engine := s, lp_seq := lp_seq lp + of_nat (length new),
    lp_unread := lp_unread lp @ concat (map reply_bytes new)\<rparr>"
  have step: "loop_step rec start interval cfg lp Server_Acts = Some ?lp"
    using Cons s(1) by (simp add: serve_def new_def Let_def)
  have out: "map (\<lambda>x. snd (snd x)) new = map snd (reports out)"
  proof -
    have "map snd (map snd new) = map snd (reports out)" unfolding new_def by (simp only: map_snd_number)
    then show ?thesis by (simp add: comp_def)
  qed
  have ks': "keys_inv (w_resting_pool (b_workload ?b)) (fst ` set (b_pending ?b)) (map fst ?ch) cmds
      (map (\<lambda>x. snd (snd x)) replies @ map snd (reports out)) k"
  proof (rule keys_serve)
    show "keys_inv (w_resting_pool (b_workload ?b)) (fst ` set (b_pending ?b)) (map fst ?ch) (cmd # cmds)
      (map (\<lambda>x. snd (snd x)) replies) k" using ks Cons by simp
  qed (use process_replies [OF ei(1) key(2) ei(2) key(1) p] key(1) in simp_all)
  have "loop_inv samples start interval cfg ?lp"
    unfolding loop_inv_def loop_at_def Let_def
    by (intro exI [of _ i] exI [of _ "if is_cancel cmd then j else Suc j"] exI [of _ k] exI [of _ "replies @ new"])
      (use w e s ks' out c bs Cons in \<open>simp split: if_splits\<close>)
  then show ?thesis using step by blast
qed

lemma written_bytes:
  assumes "new_traffic k cmd \<or> is_cancel cmd"
  shows "\<exists>buf len. encode_command cmd (replicate MAX_MESSAGE_LEN 0) = Some (buf, len) \<and> received (take len buf) = [cmd]"
proof -
  have ok: "wire_ok cmd" using assms by (cases cmd) (auto simp: new_traffic_def wire_ok_def)
  show ?thesis using encode_command_layout [of "replicate MAX_MESSAGE_LEN 0" cmd] decode_command_bytes [OF ok]
    by (simp add: received_def)
qed

lemma received_nothing [simp]: "received [] = []"
  by (simp add: received_def decode_command_def)

text \<open>The three steps of the sender: it draws a command, writes the one it has drawn, or is done.\<close>

lemma sender_chooses:
  assumes at: "loop_at samples start interval cfg lp i j k replies" and n: "unat (rc_messages cfg) < 80000000"
    and At: "b_sender (lp_bench lp) = At m" and True: "m < rc_messages cfg"
  shows "\<exists>lp'. loop_step rec start interval cfg lp Sender_Acts = Some lp' \<and> loop_inv samples start interval cfg lp'"
proof -
  let ?b = "lp_bench lp" and ?sched = "schedule start interval cfg"
  note w = loop_atD(1) [OF at] and e = loop_atD(2-7) [OF at] and bs = loop_atD(8,9) [OF at] and ks = loop_atD(10) [OF at]
    and c = loop_atD(11) [OF at]
  obtain key cmd w' where nc: "next_command (b_workload ?b) = Some ((key, cmd), w')" "command_self_id cmd = Some key"
    "new_traffic k cmd \<and> counters (Suc k) w' \<and> w_resting_pool w' = w_resting_pool (b_workload ?b) \<or>
     is_cancel cmd \<and> counters k w' \<and> w_resting_pool (b_workload ?b) = key # w_resting_pool w'"
    using next_command_shape [OF e(6)] by blast
  let ?t = "intended_at start interval m"
  let ?lp = "lp\<lparr>lp_bench := ?b\<lparr>b_workload := w', b_sender := Chosen m key cmd ?t\<rparr>\<rparr>"
  have step: "loop_step rec start interval cfg lp Sender_Acts = Some ?lp"
    using At True nc(1) by (cases lp) (simp add: sender_step_def)
  have k: "k < 80000000" "k = j + orders_in (lp_commands lp)" "numbered j (lp_commands lp)" "i < unat (rc_messages cfg)" "unat m = i" "\<not> b_sender_done ?b"
    using w At e n True by (simp_all add: word_less_nat_alt)
  let ?k = "k + orders_in [cmd]"
  have nb: "numbered j (lp_commands lp @ [cmd])" "?k \<le> Suc i" "counters ?k w'"
    using nc(3) k e(5) At by (auto simp: numbered_append new_traffic_def)
  have ks': "keys_inv (w_resting_pool w') (fst ` set (b_pending ?b)) [key] (lp_commands lp) (map (\<lambda>x. snd (snd x)) replies) ?k"
    using nc(3)
  proof
    assume a: "new_traffic k cmd \<and> counters (Suc k) w' \<and> w_resting_pool w' = w_resting_pool (b_workload ?b)"
    then have "?k = Suc k" by (auto simp: new_traffic_def)
    then show ?thesis using keys_choose_new [of _ _ _ _ k key] ks At traffic_key [OF _ k(1) nc(2)] a by simp
  next
    assume "is_cancel cmd \<and> counters k w' \<and> w_resting_pool (b_workload ?b) = key # w_resting_pool w'"
    then show ?thesis using keys_choose_cancel ks At by simp
  qed
  have t: "?t \<in> ?sched" using True by (simp add: schedule_def)
  have "loop_inv samples start interval cfg ?lp"
    unfolding loop_inv_def loop_at_def Let_def
    by (intro exI [of _ i] exI [of _ j] exI [of _ ?k] exI [of _ replies])
      (use k nc(2) e(1,2) nb bs ks' c t in \<open>simp add: counted_def\<close>)
  then show ?thesis using step by blast
qed

lemma sender_writes:
  assumes at: "loop_at samples start interval cfg lp i j k replies" and n: "unat (rc_messages cfg) < 80000000"
    and Chosen: "b_sender (lp_bench lp) = Chosen m key cmd t"
  shows "\<exists>lp'. loop_step rec start interval cfg lp Sender_Acts = Some lp' \<and> loop_inv samples start interval cfg lp'"
proof -
  let ?b = "lp_bench lp" and ?sched = "schedule start interval cfg"
  note w = loop_atD(1) [OF at] and e = loop_atD(2-7) [OF at] and bs = loop_atD(8,9) [OF at] and ks = loop_atD(10) [OF at]
    and c = loop_atD(11) [OF at]
  have k: "numbered j (lp_commands lp @ [cmd])" "k = j + orders_in (lp_commands lp @ [cmd])" "k \<le> Suc i" "unat m = i"
    "i < unat (rc_messages cfg)" "\<not> b_sender_done ?b" "command_self_id cmd = Some key" "t \<in> ?sched"
    using w Chosen e by simp_all
  have tr: "new_traffic (j + orders_in (lp_commands lp)) cmd \<or> is_cancel cmd"
    using k(1) by (auto simp: numbered_append split: if_splits)
  obtain buf len where bytes: "encode_command cmd (replicate MAX_MESSAGE_LEN 0) = Some (buf, len)" "received (take len buf) = [cmd]"
    using written_bytes [OF tr] by blast
  have nk: "set (new_keys [cmd]) \<subseteq> {key}" "distinct (new_keys [cmd])"
    using k(7) by (cases cmd; simp add: command_self_id_def)+
  have ks': "keys_inv (w_resting_pool (b_workload ?b)) (insert key (fst ` set (b_pending ?b))) [] (lp_commands lp @ [cmd])
      (map (\<lambda>x. snd (snd x)) replies) k" and fresh: "key \<notin> fst ` set (b_pending ?b)"
    using keys_insert [OF _ k(7) nk] ks Chosen by simp_all
  let ?lp = "lp\<lparr>lp_bench := ?b\<lparr>b_pending := hm_insert key t (b_pending ?b), b_sender := At (m + 1)\<rparr>,
    lp_commands := lp_commands lp @ [cmd]\<rparr>"
  have step: "loop_step rec start interval cfg lp Sender_Acts = Some ?lp"
    using Chosen bytes by (simp add: sender_step_def)
  have m: "unat (m + 1) = Suc i" using k(4,5) n by (simp add: unat_plus_if')
  have "counted samples ?sched (rc_warmup cfg) (?b\<lparr>b_pending := hm_insert key t (b_pending ?b), b_sender := At (m + 1)\<rparr>) (Suc i)"
    using c fresh k(8) by (auto simp: counted_def hm_ok_insert length_hm_insert dest!: snd_hm_insert [THEN subsetD, OF imageI])
  then have "loop_inv samples start interval cfg ?lp"
    unfolding loop_inv_def loop_at_def Let_def
    by (intro exI [of _ "Suc i"] exI [of _ j] exI [of _ k] exI [of _ replies])
      (use k e(1,2,6) bs ks' m in \<open>simp add: fst_hm_insert\<close>)
  then show ?thesis using step by blast
qed

lemma sender_finishes:
  assumes at: "loop_at samples start interval cfg lp i j k replies"
    and At: "b_sender (lp_bench lp) = At m" and last: "\<not> m < rc_messages cfg"
  shows "\<exists>lp'. loop_step rec start interval cfg lp Sender_Acts = Some lp' \<and> loop_inv samples start interval cfg lp'"
proof -
  let ?lp = "lp\<lparr>lp_bench := (lp_bench lp)\<lparr>b_sender := Sent_All, b_sender_done := True\<rparr>\<rparr>"
  note D = loop_atD [OF at]
  have "i = unat (rc_messages cfg)" using D(1) At last by (simp add: word_less_nat_alt)
  then have "loop_inv samples start interval cfg ?lp"
    unfolding loop_inv_def loop_at_def Let_def
    by (intro exI [of _ i] exI [of _ j] exI [of _ k] exI [of _ replies]) (use D At in \<open>simp add: counted_def\<close>)
  then show ?thesis using At last by (simp add: sender_step_def)
qed

lemma sender_keeps:
  assumes inv: "loop_inv samples start interval cfg lp" and n: "unat (rc_messages cfg) < 80000000"
  shows "\<exists>lp'. loop_step rec start interval cfg lp Sender_Acts = Some lp' \<and> loop_inv samples start interval cfg lp'"
proof -
  obtain i j k replies where at: "loop_at samples start interval cfg lp i j k replies"
    using inv unfolding loop_inv_def by blast
  show ?thesis
  proof (cases "b_sender (lp_bench lp)")
    case Sent_All
    then show ?thesis using inv by (simp add: sender_step_def)
  next
    case (At m)
    then show ?thesis using sender_chooses [OF at n At] sender_finishes [OF at At] by (cases "m < rc_messages cfg") blast+
  next
    case (Chosen m key cmd t)
    then show ?thesis by (rule sender_writes [OF at n])
  qed
qed

lemma loop_run_keeps:
  assumes "histogram_ok rec samples" and "unat (rc_messages cfg) < 80000000" and "loop_inv samples start interval cfg lp"
  shows "\<exists>lp'. loop_run rec start interval cfg lp acts = Some lp' \<and> loop_inv samples start interval cfg lp'"
  using assms(3)
proof (induction acts arbitrary: lp)
  case (Cons act acts)
  have "\<exists>lp'. loop_step rec start interval cfg lp act = Some lp' \<and> loop_inv samples start interval cfg lp'"
    using sender_keeps [OF Cons.prems assms(2)] server_keeps [OF Cons.prems assms(2)] reader_keeps [OF assms(1) Cons.prems]
    by (cases act) blast+
  then show ?case using Cons.IH by fastforce
qed simp

text \<open>What the invariant says of the numbers in the report.\<close>

lemma loop_inv_report:
  assumes "loop_inv samples start interval cfg lp"
  shows "unat (b_matched (lp_bench lp)) + length (b_pending (lp_bench lp)) \<le> unat (rc_messages cfg)"
    and "b_sender_done (lp_bench lp) \<Longrightarrow>
      unat (b_matched (lp_bench lp)) + length (b_pending (lp_bench lp)) = unat (rc_messages cfg)"
    and "snd ` set (b_pending (lp_bench lp)) \<subseteq> schedule start interval cfg"
    and "samples (b_histogram (lp_bench lp)) = unat (b_matched (lp_bench lp)) - unat (rc_warmup cfg)"
    and "lp_commands lp = [] \<Longrightarrow> lp_unread lp = [] \<Longrightarrow> b_pending (lp_bench lp) = []"
proof -
  let ?b = "lp_bench lp" and ?sched = "schedule start interval cfg"
  obtain i j k replies where at: "loop_at samples start interval cfg lp i j k replies"
    using assms unfolding loop_inv_def by blast
  note w = loop_atD(1) [OF at] and bs = loop_atD(8,9) [OF at] and ks = loop_atD(10) [OF at] and c = loop_atD(11) [OF at]
  show "unat (b_matched ?b) + length (b_pending ?b) \<le> unat (rc_messages cfg)" "snd ` set (b_pending ?b) \<subseteq> ?sched"
    "samples (b_histogram ?b) = unat (b_matched ?b) - unat (rc_warmup cfg)"
    using c written_le [OF w] by (simp_all add: counted_def)
  show "unat (b_matched ?b) + length (b_pending ?b) = unat (rc_messages cfg)" if "b_sender_done ?b"
    using c w that by (cases "b_sender ?b") (simp_all add: counted_def)
  show "b_pending ?b = []" if "lp_commands lp = []" "lp_unread lp = []"
  proof -
    have "split_frames (concat (map reply_bytes replies)) = (map reply_bytes replies, [], Inr ())"
      by (rule split_frames_concat) (simp add: reply_frame_ok)
    then have "replies = []" using bs that(2) by simp
    then show ?thesis using ks that(1) unfolding keys_inv_def by simp
  qed
qed

end
