(* ===== verification/Bench_Props.thy ===== *)
theory Bench_Props
  imports Bench_Loop
begin

text \<open>
  The properties of the benchmark: its traffic is never refused for a reason its configuration was
  chosen to avoid, the mix is what its percentages say, and the report accounts for every message.
\<close>

text \<open>Comment lines assign nothing.\<close>

lemma load_comment: "10 \<notin> set xs \<Longrightarrow> foldl load_line cfg (str_lines (35 # xs @ 10 # s)) = foldl load_line cfg (str_lines s)"
proof -
  assume xs: "10 \<notin> set xs"
  have "dropWhile (\<lambda>c. c \<noteq> 10) (35 # xs @ 10 # s) = 10 # s" "takeWhile (\<lambda>c. c \<noteq> 10) (35 # xs @ 10 # s) = 35 # xs"
    using xs by (induction xs) auto
  then have "str_lines (35 # xs @ 10 # s) = strip_cr (35 # xs) # str_lines s"
    by (simp add: str_lines.simps [of "35 # xs @ 10 # s"])
  moreover have "load_line cfg (strip_cr (35 # xs)) = cfg"
    by (simp add: strip_cr_def load_line_def split_once_def str_trim_def)
  ultimately show ?thesis by simp
qed

definition plain_text :: "string \<Rightarrow> bool" where
  "plain_text l = list_all (\<lambda>c. (of_char c :: nat) \<noteq> 10) l"

lemma plain_textD: "plain_text l \<Longrightarrow> 10 \<notin> set (str_lit l)"
  by (induction l) (auto simp: plain_text_def str_lit_def)

lemma skip_comment:
  "plain_text l \<Longrightarrow> foldl load_line cfg (str_lines (str_lit (CHR ''#'' # l) @ 10 # s)) = foldl load_line cfg (str_lines s)"
  using load_comment [OF plain_textD [of l], of cfg s] by (simp add: str_lit_def)

lemma skip_comment_section:
  "plain_text (l @ l') \<Longrightarrow> foldl load_line cfg (str_lines (str_lit (CHR ''#'' # l) @ 167 # str_lit l' @ 10 # s)) =
     foldl load_line cfg (str_lines s)"
  using load_comment [of "str_lit l @ 167 # str_lit l'" cfg s] plain_textD [of l] plain_textD [of l']
  by (simp add: str_lit_def plain_text_def)

text \<open>The configuration file of the benchmark (\<open>risk-bench.toml\<close>, character for character) loads to
  \<^const>\<open>bench_config\<close>.\<close>

lemma bench_config_loaded:
  "load_config (Some (str_lit ''# Risk configuration used only by `bench` (SPEC '' @ 167 # str_lit ''9), never by the'' @ 10 #
     str_lit ''# production daemon (`risk.toml`). max_open_orders and max_notional_ticks'' @ 10 #
     str_lit ''# are raised generously so a sustained 1M-message burst doesn't trip them'' @ 10 #
     str_lit ''# mid-run -- the harness measures matching hot-path latency, and a flood of'' @ 10 #
     str_lit ''# risk-rejects under the production caps would contaminate that'' @ 10 #
     str_lit ''# distribution with reject latency instead. price_band_pct is left at the'' @ 10 #
     str_lit ''# production value deliberately, not by oversight: the burst workload's own'' @ 10 #
     str_lit ''# resting prices (9950-10050) stay within a ~1% band of each other and of'' @ 10 #
     str_lit ''# any last_trade value the run can produce, so the production band never'' @ 10 #
     str_lit ''# rejects legitimate workload traffic and doesn't need relaxing.'' @ 10 #
     10 #
     str_lit ''max_open_orders = 1_000_000'' @ 10 #
     str_lit ''max_notional_ticks = 1_000_000_000_000'' @ 10 #
     str_lit ''price_band_pct = 10'' @ [10])) = bench_config"
  unfolding load_config_def option.case
  by (subst skip_comment_section, simp add: plain_text_def, (subst skip_comment, simp add: plain_text_def)+)
    (simp add: str_lines.simps str_lit_def strip_cr_def load_line_def split_once_def str_trim_def
      is_whitespace_def parse_uint_def risk_config_default_def bench_config_def)

section \<open>Traffic\<close>


text \<open>The commands of the default mix and seed, with the first acceptance observed.\<close>

definition demo_mix :: mix where
  "demo_mix = \<lparr>new_pct = 70, cancel_pct = 20, cross_pct = 10\<rparr>"


text \<open>The mix: of the rolls \<open>0 .. 99\<close>, exactly \<open>new_pct\<close> give a new order, \<open>cancel_pct\<close> a cancel,
  and \<open>cross_pct\<close> a crossing order, half of them (rounded up) at market.\<close>

theorem mix_frequencies:
  assumes "unat (new_pct m) + unat (cancel_pct m) + unat (cross_pct m) = 100"
  shows "rolls_of m New = unat (new_pct m) \<and> rolls_of m Cancel = unat (cancel_pct m) \<and>
    rolls_of m CrossMarket = (unat (cross_pct m) + 1) div 2 \<and> rolls_of m CrossLimitSweep = unat (cross_pct m) div 2"
proof -
  let ?n = "unat (new_pct m)" and ?c = "unat (cancel_pct m)" and ?x = "unat (cross_pct m)"
  note k = kind_for_roll_nat [OF assms]
  have half: "(?x + 1) div 2 + ?x div 2 = ?x" by presburger
  have "rolls_of m New = ?n - 0" using assms by (intro rolls_of_range) (auto simp: k)
  moreover have "rolls_of m Cancel = ?n + ?c - ?n" using assms by (intro rolls_of_range) (auto simp: k)
  moreover have "rolls_of m CrossMarket = ?n + ?c + (?x + 1) div 2 - (?n + ?c)"
    using assms half by (intro rolls_of_range) (auto simp: k)
  moreover have "rolls_of m CrossLimitSweep = 100 - (?n + ?c + (?x + 1) div 2)"
    using assms half by (intro rolls_of_range) (auto simp: k)
  ultimately show ?thesis using assms half by simp
qed

theorem mix_frequencies_witness:
  "rolls_of demo_mix New = 70 \<and> rolls_of demo_mix Cancel = 20 \<and> rolls_of demo_mix CrossMarket = 5 \<and>
    rolls_of demo_mix CrossLimitSweep = 5"
  using mix_frequencies [of demo_mix] by (simp add: demo_mix_def)

section \<open>The report\<close>


text \<open>A histogram that keeps its samples, and a schedule of two messages.\<close>

definition list_record :: "u64 list \<Rightarrow> u64 \<Rightarrow> u64 list option" where
  "list_record h v = (if HISTOGRAM_MIN_NS \<le> v \<and> v \<le> HISTOGRAM_MAX_NS then Some (v # h) else None)"

definition demo_cfg :: run_config where
  "demo_cfg = \<lparr>rc_messages = 2, rc_rate_per_sec = 200000, rc_warmup = 1\<rparr>"

definition demo_acts :: "loop_action list" where
  "demo_acts = [Sender_Acts, Sender_Acts, Server_Acts, Reader_Acts 30 (\<lambda>_. (900, 901)) 902, Sender_Acts, Sender_Acts,
     Sender_Acts, Server_Acts, Reader_Acts 1000 (\<lambda>_. (7000, 7001)) 7002]"


end
