(* ===== verification/Startup.thy ===== *)
theory Startup
  imports Server System
begin

text \<open>
  How the server starts and stops: the transport's socket file (\<open>gateway/src/transport.rs\<close>), the
  market-data socket (\<open>marketdata/src/subscriber.rs\<close>), the wiring in \<open>bin/src/lib.rs\<close> up to the
  first accepted connection, and \<open>main.rs\<close>. The file system is a map from paths to nodes; a socket
  node names the listener that clients of the path reach. \<open>perm\<close> says which paths the operating
  system lets the process create and remove. Symbolic links are not modelled.
\<close>

section \<open>The operating system\<close>

datatype fnode = Regular bytes | Directory | Socket nat

datatype io_error = Not_Permitted | Not_Found | Is_A_Directory | Addr_In_Use | No_Such_Device

record fs =
  fs_node :: "string \<Rightarrow> fnode option"
  fs_next :: nat

definition path_exists :: "string \<Rightarrow> fs \<Rightarrow> bool" where
  "path_exists path f \<longleftrightarrow> fs_node f path \<noteq> None"

definition remove_file :: "(string \<Rightarrow> bool) \<Rightarrow> string \<Rightarrow> fs \<Rightarrow> io_error + fs" where
  "remove_file perm path f =
     (case fs_node f path of
        None \<Rightarrow> Inl Not_Found
      | Some Directory \<Rightarrow> Inl Is_A_Directory
      | Some _ \<Rightarrow> if perm path then Inr (f\<lparr>fs_node := (fs_node f)(path := None)\<rparr>) else Inl Not_Permitted)"

text \<open>\<open>UnixListener::bind\<close>: a fresh listener, with its socket file.\<close>

definition listener_bind :: "(string \<Rightarrow> bool) \<Rightarrow> string \<Rightarrow> fs \<Rightarrow> io_error + (nat \<times> fs)" where
  "listener_bind perm path f =
     (if fs_node f path \<noteq> None then Inl Addr_In_Use
      else if perm path then Inr (fs_next f, f\<lparr>fs_node := (fs_node f)(path \<mapsto> Socket (fs_next f)), fs_next := Suc (fs_next f)\<rparr>)
      else Inl Not_Permitted)"

text \<open>\<open>File::create\<close>: an empty file, truncating one that is there.\<close>

definition file_create :: "(string \<Rightarrow> bool) \<Rightarrow> string \<Rightarrow> fs \<Rightarrow> io_error + fs" where
  "file_create perm path f =
     (case fs_node f path of
        Some Directory \<Rightarrow> Inl Is_A_Directory
      | Some (Socket _) \<Rightarrow> Inl No_Such_Device
      | _ \<Rightarrow> if perm path then Inr (f\<lparr>fs_node := (fs_node f)(path \<mapsto> Regular [])\<rparr>) else Inl Not_Permitted)"

text \<open>UTF-8 as \<open>String\<close> validates it: no overlong form, no surrogate, nothing above \<open>U+10FFFF\<close>.\<close>

definition continuation :: "u8 \<Rightarrow> nat option" where
  "continuation b = (if 128 \<le> unat b \<and> unat b < 192 then Some (unat b - 128) else None)"

fun utf8_decode :: "bytes \<Rightarrow> str option" where
  "utf8_decode [] = Some []"
| "utf8_decode (b # bs) =
     (if unat b < 128 then map_option (Cons (unat b)) (utf8_decode bs)
      else if unat b < 194 then None
      else if unat b < 224 then
        (case bs of
           c # bs \<Rightarrow> do {
             x \<leftarrow> continuation c;
             s \<leftarrow> utf8_decode bs;
             Some (((unat b - 192) * 64 + x) # s)
           }
         | _ \<Rightarrow> None)
      else if unat b < 240 then
        (case bs of
           c # d # bs \<Rightarrow> do {
             x \<leftarrow> continuation c;
             y \<leftarrow> continuation d;
             s \<leftarrow> utf8_decode bs;
             (let cp = (unat b - 224) * 4096 + x * 64 + y
              in if cp < 2048 \<or> 55296 \<le> cp \<and> cp < 57344 then None else Some (cp # s))
           }
         | _ \<Rightarrow> None)
      else if unat b < 245 then
        (case bs of
           c # d # e # bs \<Rightarrow> do {
             x \<leftarrow> continuation c;
             y \<leftarrow> continuation d;
             z \<leftarrow> continuation e;
             s \<leftarrow> utf8_decode bs;
             (let cp = (unat b - 240) * 262144 + x * 4096 + y * 64 + z
              in if cp < 65536 \<or> 1114112 \<le> cp then None else Some (cp # s))
           }
         | _ \<Rightarrow> None)
      else None)"

text \<open>\<open>read_to_string\<close>, as far as \<open>RiskConfig::load\<close> looks at it.\<close>

definition read_to_string :: "string \<Rightarrow> fs \<Rightarrow> str option" where
  "read_to_string path f = (case fs_node f path of Some (Regular bs) \<Rightarrow> utf8_decode bs | _ \<Rightarrow> None)"

text \<open>The listener that a client connecting to a path reaches.\<close>

definition connects_to :: "string \<Rightarrow> fs \<Rightarrow> nat option" where
  "connects_to path f = (case fs_node f path of Some (Socket l) \<Rightarrow> Some l | _ \<Rightarrow> None)"

section \<open>transport.rs and marketdata::bind\<close>

record uds_transport =
  ut_listener :: nat
  ut_path :: string

text \<open>The result is the outcome with the file system as the call leaves it, also when it fails.\<close>

definition uds_bind :: "(string \<Rightarrow> bool) \<Rightarrow> string \<Rightarrow> fs \<Rightarrow> (io_error + uds_transport) \<times> fs" where
  "uds_bind perm path f =
     (case (if path_exists path f then remove_file perm path f else Inr f) of
        Inl e \<Rightarrow> (Inl e, f)
      | Inr f \<Rightarrow>
          (case listener_bind perm path f of
             Inl e \<Rightarrow> (Inl e, f)
           | Inr (l, f) \<Rightarrow> (Inr \<lparr>ut_listener = l, ut_path = path\<rparr>, f)))"

definition uds_drop :: "(string \<Rightarrow> bool) \<Rightarrow> uds_transport \<Rightarrow> fs \<Rightarrow> fs" where
  "uds_drop perm t f = (case remove_file perm (ut_path t) f of Inl _ \<Rightarrow> f | Inr f \<Rightarrow> f)"

definition marketdata_bind :: "(string \<Rightarrow> bool) \<Rightarrow> string \<Rightarrow> fs \<Rightarrow> (io_error + nat) \<times> fs" where
  "marketdata_bind perm path f =
     (case (if path_exists path f then remove_file perm path f else Inr f) of
        Inl e \<Rightarrow> (Inl e, f)
      | Inr f \<Rightarrow>
          (case listener_bind perm path f of
             Inl e \<Rightarrow> (Inl e, f)
           | Inr (l, f) \<Rightarrow> (Inr l, f)))"

section \<open>lib.rs and main.rs\<close>

text \<open>\<open>std::process::exit(1)\<close> runs no destructor: what was bound stays bound in the file system.\<close>

datatype startup = Exited fs | Running uds_transport nat risk_config system fs

definition run_startup ::
  "(string \<Rightarrow> bool) \<Rightarrow> string \<Rightarrow> string \<Rightarrow> string \<Rightarrow> string option \<Rightarrow> fs \<Rightarrow> startup" where
  "run_startup perm order_entry_path market_data_path risk_config_path record_path f =
     (case uds_bind perm order_entry_path f of
        (Inl _, f) \<Rightarrow> Exited f
      | (Inr transport, f) \<Rightarrow>
          (case marketdata_bind perm market_data_path f of
             (Inl _, f) \<Rightarrow> Exited f
           | (Inr market_data_listener, f) \<Rightarrow>
               (let risk_config = load_config (read_to_string risk_config_path f);
                    risk_state = risk_state_new risk_config
                in case record_path of
                     None \<Rightarrow> Running transport market_data_listener risk_config (system_init risk_state None) f
                   | Some path \<Rightarrow>
                       (case file_create perm path f of
                          Inl _ \<Rightarrow> Exited f
                        | Inr f \<Rightarrow> Running transport market_data_listener risk_config (system_init risk_state (Some [])) f))))"

definition server_main :: "(string \<Rightarrow> bool) \<Rightarrow> string list \<Rightarrow> fs \<Rightarrow> startup" where
  "server_main perm args f =
     (case parse_record_path args of
        Exit_Failure \<Rightarrow> Exited f
      | Parsed record_path \<Rightarrow>
          run_startup perm ORDER_ENTRY_SOCKET MARKET_DATA_SOCKET RISK_CONFIG_PATH record_path f)"

text \<open>
  \<open>pin_to_dedicated_core\<close>: the environment variable, the cores the operating system reports and
  whether it accepts the mask are inputs; every outcome lets the thread run on.
\<close>

datatype pin_outcome = Left_Unpinned | No_Core_Ids | Pinned nat | Pin_Failed nat

definition pin_to_dedicated_core :: "string option \<Rightarrow> nat list option \<Rightarrow> (nat \<Rightarrow> bool) \<Rightarrow> pin_outcome" where
  "pin_to_dedicated_core env core_ids set_for_current =
     (if env = Some ''0'' then Left_Unpinned
      else case core_ids of
        Some (core_id # _) \<Rightarrow> if set_for_current core_id then Pinned core_id else Pin_Failed core_id
      | _ \<Rightarrow> No_Core_Ids)"

section \<open>Socket files\<close>

text \<open>A path that can be bound: the process may write there and it is not a directory.\<close>

definition bindable :: "(string \<Rightarrow> bool) \<Rightarrow> string \<Rightarrow> fs \<Rightarrow> bool" where
  "bindable perm path f \<longleftrightarrow> perm path \<and> fs_node f path \<noteq> Some Directory"

definition bound :: "string \<Rightarrow> fs \<Rightarrow> fs" where
  "bound path f = f\<lparr>fs_node := (fs_node f)(path \<mapsto> Socket (fs_next f)), fs_next := Suc (fs_next f)\<rparr>"

lemma fnode_cases: "fs_node f path \<noteq> Some Directory \<Longrightarrow> (fs_node f path = None \<Longrightarrow> P) \<Longrightarrow>
    (\<And>bs. fs_node f path = Some (Regular bs) \<Longrightarrow> P) \<Longrightarrow> (\<And>l. fs_node f path = Some (Socket l) \<Longrightarrow> P) \<Longrightarrow> P"
  by (metis fnode.exhaust option.exhaust)

lemma uds_bind_bindable:
  assumes "bindable perm path f"
  shows "uds_bind perm path f = (Inr \<lparr>ut_listener = fs_next f, ut_path = path\<rparr>, bound path f)"
  using assms unfolding bindable_def
  by (auto elim!: fnode_cases simp: uds_bind_def path_exists_def remove_file_def listener_bind_def bound_def)

lemma uds_bind_fails:
  assumes "\<not> bindable perm path f"
  shows "\<exists>e. uds_bind perm path f = (Inl e, f)"
  using assms
  by (auto simp: bindable_def uds_bind_def path_exists_def remove_file_def listener_bind_def split: option.splits fnode.splits)

text \<open>The two sockets are bound by the same steps.\<close>

lemma marketdata_bind_uds:
  "marketdata_bind perm path f = (case uds_bind perm path f of (r, f') \<Rightarrow> (map_sum (\<lambda>e. e) ut_listener r, f'))"
  by (auto simp: marketdata_bind_def uds_bind_def split: sum.split prod.split)

lemma connects_bound [simp]:
  "connects_to path (bound path f) = Some (fs_next f)" "path' \<noteq> path \<Longrightarrow> connects_to path' (bound path f) = connects_to path' f"
  by (simp_all add: connects_to_def bound_def)

lemma bindable_bound: "bindable perm path f \<Longrightarrow> perm path' \<Longrightarrow> (path' \<noteq> path \<Longrightarrow> fs_node f path' \<noteq> Some Directory) \<Longrightarrow> bindable perm path' (bound path f)"
  by (auto simp: bindable_def bound_def)

section \<open>Text files\<close>

definition byte :: "nat \<Rightarrow> u8" where
  "byte n = of_nat n"

definition utf8_encode_char :: "nat \<Rightarrow> bytes" where
  "utf8_encode_char cp =
     (if cp < 128 then [byte cp]
      else if cp < 2048 then [byte (192 + cp div 64), byte (128 + cp mod 64)]
      else if cp < 65536 then [byte (224 + cp div 4096), byte (128 + cp div 64 mod 64), byte (128 + cp mod 64)]
      else [byte (240 + cp div 262144), byte (128 + cp div 4096 mod 64), byte (128 + cp div 64 mod 64), byte (128 + cp mod 64)])"

definition utf8_encode :: "str \<Rightarrow> bytes" where
  "utf8_encode s = concat (map utf8_encode_char s)"

definition scalar_value :: "nat \<Rightarrow> bool" where
  "scalar_value cp \<longleftrightarrow> cp < 1114112 \<and> \<not> (55296 \<le> cp \<and> cp < 57344)"

lemma unat_byte [simp]: "n < 256 \<Longrightarrow> unat (byte n) = n"
  by (simp add: byte_def unsigned_of_nat take_bit_nat_eq_self)

lemma continuation_byte [simp]: "n < 64 \<Longrightarrow> continuation (byte (128 + n)) = Some n"
  by (simp add: continuation_def)

lemma base_64:
  "cp div 4096 * 4096 + cp div 64 mod 64 * 64 + cp mod 64 = cp"
  "cp div 262144 * 262144 + cp div 4096 mod 64 * 4096 + cp div 64 mod 64 * 64 + cp mod 64 = cp" for cp :: nat
proof -
  have d: "cp div 64 div 64 = cp div 4096" "cp div 4096 div 64 = cp div 262144" by (simp_all flip: div_mult2_eq)
  show one: "cp div 4096 * 4096 + cp div 64 mod 64 * 64 + cp mod 64 = cp"
    using div_mult_mod_eq [of cp 64] div_mult_mod_eq [of "cp div 64" 64] unfolding d by linarith
  show "cp div 262144 * 262144 + cp div 4096 mod 64 * 4096 + cp div 64 mod 64 * 64 + cp mod 64 = cp"
    using one div_mult_mod_eq [of "cp div 4096" 64] unfolding d by linarith
qed

lemma utf8_decode_char:
  assumes "scalar_value cp"
  shows "utf8_decode (utf8_encode_char cp @ bs) = map_option (Cons cp) (utf8_decode bs)"
proof -
  consider "cp < 128" | "128 \<le> cp" "cp < 2048" | "2048 \<le> cp" "cp < 65536" | "65536 \<le> cp" "cp < 1114112"
    using assms unfolding scalar_value_def by linarith
  then show ?thesis
  proof cases
    case 1
    then show ?thesis by (simp add: utf8_encode_char_def)
  next
    case 2
    have "cp div 64 < 32" "2 \<le> cp div 64" using 2 div_le_mono [of 128 cp 64] by (simp_all add: less_mult_imp_div_less)
    then show ?thesis using 2 by (cases "utf8_decode bs") (simp_all add: utf8_encode_char_def)
  next
    case 3
    have "cp div 4096 < 16" using 3 by (simp add: less_mult_imp_div_less)
    moreover have "cp div 4096 * 4096 + cp div 64 mod 64 * 64 + cp mod 64 = cp" by (rule base_64)
    ultimately show ?thesis using 3 assms
      by (cases "utf8_decode bs") (auto simp: utf8_encode_char_def scalar_value_def)
  next
    case 4
    have "cp div 262144 < 5" using 4 by (simp add: less_mult_imp_div_less)
    moreover have "cp div 262144 * 262144 + cp div 4096 mod 64 * 4096 + cp div 64 mod 64 * 64 + cp mod 64 = cp"
      by (rule base_64)
    ultimately show ?thesis using 4 by (cases "utf8_decode bs") (auto simp: utf8_encode_char_def)
  qed
qed

lemma utf8_roundtrip: "\<forall>cp \<in> set s. scalar_value cp \<Longrightarrow> utf8_decode (utf8_encode s) = Some s"
  by (induction s) (simp_all add: utf8_encode_def utf8_decode_char)

section \<open>Starting and stopping\<close>

text \<open>A recording can be created: the process may write there, and nothing but a file is there.\<close>

definition recordable :: "(string \<Rightarrow> bool) \<Rightarrow> string \<Rightarrow> fs \<Rightarrow> bool" where
  "recordable perm path f \<longleftrightarrow> perm path \<and> (case fs_node f path of None \<Rightarrow> True | Some (Regular _) \<Rightarrow> True | _ \<Rightarrow> False)"

lemma fs_next_bound [simp]: "fs_next (bound path f) = Suc (fs_next f)"
  by (simp add: bound_def)

lemma read_bound [simp]: "path' \<noteq> path \<Longrightarrow> read_to_string path' (bound path f) = read_to_string path' f"
  by (simp add: read_to_string_def bound_def)

lemma file_create_recordable:
  "recordable perm path f \<Longrightarrow> file_create perm path f = Inr (f\<lparr>fs_node := (fs_node f)(path \<mapsto> Regular [])\<rparr>)"
  by (auto simp: recordable_def file_create_def split: option.splits fnode.splits)

lemma bind_both:
  assumes "bindable perm oe f" and "bindable perm md f" and "oe \<noteq> md"
  shows "uds_bind perm oe f = (Inr \<lparr>ut_listener = fs_next f, ut_path = oe\<rparr>, bound oe f)"
    and "marketdata_bind perm md (bound oe f) = (Inr (Suc (fs_next f)), bound md (bound oe f))"
proof -
  show "uds_bind perm oe f = (Inr \<lparr>ut_listener = fs_next f, ut_path = oe\<rparr>, bound oe f)"
    by (rule uds_bind_bindable [OF assms(1)])
  have "bindable perm md (bound oe f)" using assms by (simp add: bindable_def bound_def)
  from uds_bind_bindable [OF this] show "marketdata_bind perm md (bound oe f) = (Inr (Suc (fs_next f)), bound md (bound oe f))"
    by (simp add: marketdata_bind_uds)
qed


text \<open>A machine on which an earlier run left both socket files behind.\<close>

definition stale_fs :: fs where
  "stale_fs = \<lparr>fs_node = [ORDER_ENTRY_SOCKET \<mapsto> Socket 0, MARKET_DATA_SOCKET \<mapsto> Socket 1,
     RISK_CONFIG_PATH \<mapsto> Regular (utf8_encode (str_lit ''price_band_pct = 25''))], fs_next = 2\<rparr>"


text \<open>A failed start leaves a socket file: when the order-entry path can be bound and the market-data
  path cannot, the process exits with the order-entry socket file in place, since exiting runs no
  destructor; clients of the path find a listener that is gone. The next start can still bind it.\<close>

theorem failed_start_leaves_socket:
  assumes "bindable perm oe f" and "\<not> bindable perm md f" and "oe \<noteq> md"
  shows "run_startup perm oe md risk recording f = Exited (bound oe f) \<and> connects_to oe (bound oe f) = Some (fs_next f) \<and>
    bindable perm oe (bound oe f)"
proof -
  have "\<not> bindable perm md (bound oe f)" using assms(2,3) by (simp add: bindable_def bound_def)
  then obtain e where "uds_bind perm md (bound oe f) = (Inl e, bound oe f)" using uds_bind_fails by blast
  then show ?thesis using uds_bind_bindable [OF assms(1)] assms(1)
    by (simp add: run_startup_def marketdata_bind_uds bindable_def) (simp add: bound_def)
qed

theorem failed_start_leaves_socket_witness:
  "run_startup (\<lambda>p. p = ''a'') ''a'' ''b'' ''c'' None stale_fs = Exited (bound ''a'' stale_fs) \<and>
   connects_to ''a'' (bound ''a'' stale_fs) = Some (fs_next stale_fs) \<and> bindable (\<lambda>p. p = ''a'') ''a'' (bound ''a'' stale_fs)"
  by (rule failed_start_leaves_socket)
    (simp_all add: bindable_def stale_fs_def ORDER_ENTRY_SOCKET_def MARKET_DATA_SOCKET_def RISK_CONFIG_PATH_def)



end
