(* ===== verification/Sample.thy ===== *)
theory Sample
  imports Replay
begin

text \<open>
  The recording the repository ships (\<open>recordings/sample.bin\<close>) and the program that wrote it
  (\<open>bin/examples/generate_sample_recording.rs\<close>).
\<close>

definition sample_new_order :: "u64 \<Rightarrow> u64 \<Rightarrow> side \<Rightarrow> u64 \<Rightarrow> u64 \<Rightarrow> tif \<Rightarrow> command" where
  "sample_new_order account order side price qty tif = NewOrder account order side price qty Limit tif 0"

definition sample_commands :: "command list" where
  "sample_commands =
    [sample_new_order 1 1 Sell 100 5 Gtc,
     sample_new_order 2 1 Sell 101 3 Gtc,
     sample_new_order 3 1 Buy 100 5 Gtc,
     MassCancel 2,
     KillSwitch True,
     sample_new_order 4 1 Buy 100 1 Gtc,
     KillSwitch False,
     sample_new_order 4 2 Buy 90 2 Gtc,
     Snapshot]"

fun write_commands :: "bytes \<Rightarrow> command list \<Rightarrow> bytes option" where
  "write_commands bs [] = Some bs"
| "write_commands bs (cmd # cmds) = do {
     (buf, len) \<leftarrow> encode_command cmd (replicate MAX_MESSAGE_LEN 0);
     write_commands (bs @ take len buf) cmds
   }"

text \<open>The bytes of the file, one message per line.\<close>

definition sample_bin :: bytes where
  "sample_bin =
    [1, 1, 0, 0, 0, 0, 0, 0, 0, 1, 0, 0, 0, 0, 0, 0, 0, 1, 100, 0, 0, 0, 0, 0, 0, 0, 5, 0, 0, 0, 0, 0, 0, 0, 0, 0, 0, 0, 0, 0, 0, 0, 0, 0,
     1, 1, 0, 0, 0, 0, 0, 0, 0, 2, 0, 0, 0, 0, 0, 0, 0, 1, 101, 0, 0, 0, 0, 0, 0, 0, 3, 0, 0, 0, 0, 0, 0, 0, 0, 0, 0, 0, 0, 0, 0, 0, 0, 0,
     1, 1, 0, 0, 0, 0, 0, 0, 0, 3, 0, 0, 0, 0, 0, 0, 0, 0, 100, 0, 0, 0, 0, 0, 0, 0, 5, 0, 0, 0, 0, 0, 0, 0, 0, 0, 0, 0, 0, 0, 0, 0, 0, 0,
     4, 2, 0, 0, 0, 0, 0, 0, 0,
     5, 1,
     1, 1, 0, 0, 0, 0, 0, 0, 0, 4, 0, 0, 0, 0, 0, 0, 0, 0, 100, 0, 0, 0, 0, 0, 0, 0, 1, 0, 0, 0, 0, 0, 0, 0, 0, 0, 0, 0, 0, 0, 0, 0, 0, 0,
     5, 0,
     1, 2, 0, 0, 0, 0, 0, 0, 0, 4, 0, 0, 0, 0, 0, 0, 0, 0, 90, 0, 0, 0, 0, 0, 0, 0, 2, 0, 0, 0, 0, 0, 0, 0, 0, 0, 0, 0, 0, 0, 0, 0, 0, 0,
     6]"

lemma write_commands_bytes: "write_commands bs cmds = Some (bs @ concat (map command_bytes cmds))"
proof (induction cmds arbitrary: bs)
  case (Cons cmd cmds)
  have "encode_command cmd (replicate MAX_MESSAGE_LEN 0) =
      Some (command_bytes cmd @ drop (length (command_bytes cmd)) (replicate MAX_MESSAGE_LEN 0), length (command_bytes cmd))"
    by (rule encode_command_layout) simp
  then show ?case using Cons by simp
qed simp

text \<open>The shipped recording: the example program writes exactly the bytes of
  \<open>recordings/sample.bin\<close>, and replaying them under the default configuration gives these reports:
  the full cross of the third order, the mass cancel, the rejection while the switch is engaged, the
  order accepted after it, and the snapshot of the book it leaves.\<close>

theorem sample_replays:
  "write_commands [] sample_commands = Some sample_bin \<and>
   replay_file (Some sample_bin) None = Some (Inr
     \<lparr>execution_reports =
        [(1, 1, Accepted 1 1 5), (2, 2, Accepted 2 1 3), (3, 3, Filled 3 1 Buy 100 5 0 State_Filled),
         (4, 3, Filled 1 1 Sell 100 5 0 State_Filled), (5, 3, Accepted 3 1 0), (6, 4, Cancelled 2 1),
         (7, 6, Rejected 4 1 KillSwitchActive), (8, 8, Accepted 4 2 2), (9, 9, SnapshotLevel Buy 90 2 1),
         (10, 9, SnapshotAccount 4 1 180), (11, 9, SnapshotSummary (Some (90, 2)) None (Some 100) 1 1)],
      market_data =
        [(1, BookUpdate None (Some (100, 5))), (2, Trade 100 5 Buy), (3, BookUpdate None (Some (101, 3))),
         (4, BookUpdate None None), (5, BookUpdate (Some (90, 2)) None)],
      last_trade = Some 100\<rparr>)"
proof
  show "write_commands [] sample_commands = Some sample_bin" by code_simp
qed code_simp

end
