(* ===== verification/Conservation.thy ===== *)
theory Conservation
  imports Engine_Spec
begin

text \<open>
  The repository's own property test of the book (\<open>quantity_conservation\<close> in \<open>core/src/book.rs\<close>): a
  ledger that is fed only with the events of each operation, and the equation
  \<open>submitted = 2 * filled + resting + cancelled + discarded\<close> that must hold after every one. The test
  samples short sequences of small orders; \<open>Conservation_Props\<close> proves the equation for all sequences.
  This theory holds the ledger, its link to the book and what the events of one sweep do to it. The
  arithmetic is that of a release build, as everywhere: \<open>u64\<close> sums wrap, and the equation holds in
  that arithmetic without any bound. (In a test build an overflow panics; the operations the test
  draws are far too small for one.)
\<close>

section \<open>The ledger\<close>

datatype op =
    Op_Gtc u64 u64 side u64 u64
  | Op_Ioc u64 u64 side u64 u64
  | Op_Fok u64 u64 side u64 u64
  | Op_PostOnly u64 u64 side u64 u64
  | Op_Market u64 u64 side u64
  | Op_Cancel u64 u64
  | Op_Modify u64 u64 u64 u64
  | Op_MassCancel u64

text \<open>The operations the test draws: few accounts, identifiers, prices and quantities.\<close>

definition op_strategy :: "op \<Rightarrow> bool" where
  "op_strategy op =
     (let account = (\<lambda>a. 1 \<le> a \<and> a \<le> 3); order = (\<lambda>i. 1 \<le> i \<and> i \<le> 5);
          price = (\<lambda>p. 95 \<le> p \<and> p \<le> 105); qty = (\<lambda>q. 1 \<le> q \<and> q \<le> 5)
      in case op of
           Op_Gtc a i s p q \<Rightarrow> account a \<and> order i \<and> price p \<and> qty q
         | Op_Ioc a i s p q \<Rightarrow> account a \<and> order i \<and> price p \<and> qty q
         | Op_Fok a i s p q \<Rightarrow> account a \<and> order i \<and> price p \<and> qty q
         | Op_PostOnly a i s p q \<Rightarrow> account a \<and> order i \<and> price p \<and> qty q
         | Op_Market a i s q \<Rightarrow> account a \<and> order i \<and> qty q
         | Op_Cancel a i \<Rightarrow> account a \<and> order i
         | Op_Modify a i p q \<Rightarrow> account a \<and> order i \<and> price p \<and> qty q
         | Op_MassCancel a \<Rightarrow> account a)"

record conservation_model =
  cm_submitted :: u64
  cm_filled :: u64
  cm_cancelled :: u64
  cm_discarded :: u64
  cm_resting :: "(order_key, u64) hashmap"

definition conservation_model_default :: conservation_model where
  "conservation_model_default = \<lparr>cm_submitted = 0, cm_filled = 0, cm_cancelled = 0, cm_discarded = 0, cm_resting = []\<rparr>"

fun consume_cancelled :: "event list \<Rightarrow> conservation_model \<Rightarrow> conservation_model option" where
  "consume_cancelled [] m = Some m"
| "consume_cancelled (Cancelled account_id order_id # events) m = do {
     qty \<leftarrow> hm_get (cm_resting m) (account_id, order_id);
     consume_cancelled events (m\<lparr>cm_resting := hm_remove (account_id, order_id) (cm_resting m),
       cm_cancelled := cm_cancelled m + qty\<rparr>)
   }"
| "consume_cancelled (_ # events) m = consume_cancelled events m"

text \<open>\<open>*entry -= qty\<close>, and the entry is removed when it is zero.\<close>

definition shrink_entry :: "order_key \<Rightarrow> u64 \<Rightarrow> conservation_model \<Rightarrow> conservation_model option" where
  "shrink_entry k qty m = do {
     entry \<leftarrow> hm_get (cm_resting m) k;
     let resting = hm_insert k (entry - qty) (cm_resting m);
     Some (m\<lparr>cm_resting := if entry - qty = 0 then hm_remove k resting else resting,
       cm_filled := cm_filled m + qty\<rparr>)
   }"

fun consume_filled :: "order_key \<Rightarrow> event list \<Rightarrow> u64 \<Rightarrow> conservation_model \<Rightarrow> (u64 \<times> conservation_model) option" where
  "consume_filled self_id [] self_filled m = Some (self_filled, m)"
| "consume_filled self_id (Filled account_id order_id _ _ qty _ _ # events) self_filled m =
     (if (account_id, order_id) = self_id then consume_filled self_id events (self_filled + qty) m
      else do {
        m \<leftarrow> shrink_entry (account_id, order_id) qty m;
        consume_filled self_id events self_filled m
      })"
| "consume_filled self_id (_ # events) self_filled m = consume_filled self_id events self_filled m"

definition events_rejected :: "event list \<Rightarrow> bool" where
  "events_rejected events = list_ex is_rejected events"

definition record_submit :: "order_key \<Rightarrow> u64 \<Rightarrow> bool \<Rightarrow> event list \<Rightarrow> conservation_model \<Rightarrow> conservation_model option" where
  "record_submit self_id qty rests_if_unfilled events m = do {
     m \<leftarrow> consume_cancelled events m;
     if events_rejected events then Some m
     else do {
       let m = m\<lparr>cm_submitted := cm_submitted m + qty\<rparr>;
       (self_filled, m) \<leftarrow> consume_filled self_id events 0 m;
       let resting_after = qty - self_filled;
       Some (if 0 < resting_after
             then (if rests_if_unfilled
                   then m\<lparr>cm_resting := hm_insert self_id resting_after (cm_resting m)\<rparr>
                   else m\<lparr>cm_discarded := cm_discarded m + resting_after\<rparr>)
             else m)
     }
   }"

definition record_modify :: "order_key \<Rightarrow> event list \<Rightarrow> conservation_model \<Rightarrow> conservation_model option" where
  "record_modify self_id events m =
     (if events_rejected events then Some m
      else case events of
        Replaced _ _ new_qty _ # events' \<Rightarrow> do {
          old_qty \<leftarrow> hm_get (cm_resting m) self_id;
          let m = (if old_qty \<le> new_qty then m\<lparr>cm_submitted := cm_submitted m + (new_qty - old_qty)\<rparr>
                   else m\<lparr>cm_cancelled := cm_cancelled m + (old_qty - new_qty)\<rparr>);
          m \<leftarrow> consume_cancelled events' m;
          (self_filled, m) \<leftarrow> consume_filled self_id events' 0 m;
          let resting_after = new_qty - self_filled;
          Some (if 0 < resting_after
                then m\<lparr>cm_resting := hm_insert self_id resting_after (cm_resting m)\<rparr>
                else m\<lparr>cm_resting := hm_remove self_id (cm_resting m)\<rparr>)
        }
      | _ \<Rightarrow> None)"

definition record_cancel_or_mass_cancel :: "event list \<Rightarrow> conservation_model \<Rightarrow> conservation_model option" where
  "record_cancel_or_mass_cancel events m = (if events_rejected events then Some m else consume_cancelled events m)"

definition assert_conserved :: "conservation_model \<Rightarrow> book \<Rightarrow> unit option" where
  "assert_conserved m b = do {
     let resting_in_book = (\<Sum>x\<leftarrow>book_bids b. level_total_qty (snd x)) + (\<Sum>x\<leftarrow>book_asks b. level_total_qty (snd x));
     let resting_in_model = sum_list (map snd (cm_resting m));
     assert_that (resting_in_book = resting_in_model);
     assert_that (cm_submitted m = 2 * cm_filled m + resting_in_book + cm_cancelled m + cm_discarded m)
   }"

definition apply_op :: "book \<Rightarrow> conservation_model \<Rightarrow> op \<Rightarrow> (book \<times> conservation_model) option" where
  "apply_op b m op =
     (case op of
        Op_Gtc account order side price qty \<Rightarrow> do {
          (b, events) \<leftarrow> submit_gtc b account order side price qty;
          m \<leftarrow> record_submit (account, order) qty True events m;
          Some (b, m)
        }
      | Op_Ioc account order side price qty \<Rightarrow> do {
          (b, events) \<leftarrow> submit_ioc b account order side price qty;
          m \<leftarrow> record_submit (account, order) qty False events m;
          Some (b, m)
        }
      | Op_Fok account order side price qty \<Rightarrow> do {
          (b, events) \<leftarrow> submit_fok b account order side price qty;
          m \<leftarrow> record_submit (account, order) qty False events m;
          Some (b, m)
        }
      | Op_PostOnly account order side price qty \<Rightarrow> do {
          (b, events) \<leftarrow> submit_postonly b account order side price qty;
          m \<leftarrow> record_submit (account, order) qty True events m;
          Some (b, m)
        }
      | Op_Market account order side qty \<Rightarrow> do {
          (b, events) \<leftarrow> submit_market b account order side qty;
          m \<leftarrow> record_submit (account, order) qty False events m;
          Some (b, m)
        }
      | Op_Cancel account order \<Rightarrow> do {
          (b, events) \<leftarrow> cancel b account order;
          m \<leftarrow> record_cancel_or_mass_cancel events m;
          Some (b, m)
        }
      | Op_Modify account order price qty \<Rightarrow> do {
          (b, events) \<leftarrow> modify b account order price qty;
          m \<leftarrow> record_modify (account, order) events m;
          Some (b, m)
        }
      | Op_MassCancel account \<Rightarrow> do {
          (b, events) \<leftarrow> mass_cancel b account;
          m \<leftarrow> record_cancel_or_mass_cancel events m;
          Some (b, m)
        })"

text \<open>The body of the test: every operation, then both checks.\<close>

fun quantity_conservation :: "book \<Rightarrow> conservation_model \<Rightarrow> op list \<Rightarrow> (book \<times> conservation_model) option" where
  "quantity_conservation b m [] = Some (b, m)"
| "quantity_conservation b m (op # ops) = do {
     (b, m) \<leftarrow> apply_op b m op;
     assert_invariants b;
     assert_conserved m b;
     quantity_conservation b m ops
   }"

section \<open>Sums over the table\<close>

definition hm_sum :: "('k, u64) hashmap \<Rightarrow> u64" where
  "hm_sum h = sum_list (map snd h)"

definition at_key :: "('k, u64) hashmap \<Rightarrow> 'k \<Rightarrow> u64" where
  "at_key h k = (case hm_get h k of None \<Rightarrow> 0 | Some v \<Rightarrow> v)"

lemma at_key_simps [simp]: "hm_get h k = None \<Longrightarrow> at_key h k = 0" "hm_get h k = Some v \<Longrightarrow> at_key h k = v"
  by (simp_all add: at_key_def)

lemma hm_sum_insert: "hm_ok h \<Longrightarrow> hm_sum (hm_insert k v h) = hm_sum h - at_key h k + v"
  by (induction k v h rule: hm_insert.induct) (auto simp: hm_sum_def hm_ok_def at_key_def hm_get_def)

lemma hm_sum_remove: "hm_ok h \<Longrightarrow> hm_sum (hm_remove k h) = hm_sum h - at_key h k"
proof (induction h)
  case (Cons x h)
  obtain k' v where x: "x = (k', v)" by fastforce
  have ok: "hm_ok h" "hm_get h k' = None" using Cons.prems x by (auto simp: hm_ok_def hm_get_def map_of_eq_None_iff)
  show ?case
  proof (cases "k' = k")
    case True
    then have "hm_remove k (x # h) = hm_remove k h" using x by (simp add: hm_remove_def)
    then show ?thesis using True ok hm_remove_absent [of h k] x by (simp add: hm_sum_def at_key_def hm_get_def)
  next
    case False
    then have "hm_remove k (x # h) = x # hm_remove k h" "at_key (x # h) k = at_key h k"
      using x by (simp_all add: hm_remove_def at_key_def hm_get_def)
    then show ?thesis using Cons.IH [OF ok(1)] by (simp add: hm_sum_def)
  qed
qed (simp add: hm_sum_def hm_remove_def at_key_def hm_get_def)

section \<open>The balance\<close>

text \<open>What is submitted and not accounted for.\<close>

definition gap :: "conservation_model \<Rightarrow> u64" where
  "gap m = cm_submitted m - (2 * cm_filled m + hm_sum (cm_resting m) + cm_cancelled m + cm_discarded m)"

lemma consume_cancelled_Cons:
  "consume_cancelled (ev # evs) m = (case ev of
     Cancelled a oid \<Rightarrow> do {
       qty \<leftarrow> hm_get (cm_resting m) (a, oid);
       consume_cancelled evs (m\<lparr>cm_resting := hm_remove (a, oid) (cm_resting m), cm_cancelled := cm_cancelled m + qty\<rparr>)
     }
   | _ \<Rightarrow> consume_cancelled evs m)"
  by (cases ev) simp_all

lemma consume_cancelled_append:
  "consume_cancelled (xs @ ys) m = Option.bind (consume_cancelled xs m) (consume_cancelled ys)"
proof (induction xs arbitrary: m)
  case (Cons ev xs)
  then show ?case by (cases ev) (simp_all add: bind_assoc)
qed simp

lemma consume_filled_append:
  "consume_filled self (xs @ ys) s m = Option.bind (consume_filled self xs s m) (\<lambda>(s, m). consume_filled self ys s m)"
proof (induction xs arbitrary: s m)
  case (Cons ev xs)
  have "consume_filled self (xs @ ys) s = (\<lambda>m. Option.bind (consume_filled self xs s m) (\<lambda>(s, m). consume_filled self ys s m))" for s
    using Cons by blast
  then show ?case by (cases ev) (simp_all add: bind_assoc)
qed simp

text \<open>Cancelling: the table loses the keys, and nothing is unaccounted for.\<close>

lemma consume_cancelled_gap:
  "consume_cancelled evs m = Some m' \<Longrightarrow> hm_ok (cm_resting m) \<Longrightarrow> hm_ok (cm_resting m') \<and> gap m' = gap m"
proof (induction evs arbitrary: m)
  case (Cons ev evs)
  show ?case
  proof (cases "\<exists>a oid. ev = Cancelled a oid")
    case True
    then obtain a oid q where ev: "ev = Cancelled a oid" "hm_get (cm_resting m) (a, oid) = Some q"
      "consume_cancelled evs (m\<lparr>cm_resting := hm_remove (a, oid) (cm_resting m), cm_cancelled := cm_cancelled m + q\<rparr>) = Some m'"
      using Cons.prems(1) by (auto simp: bind_eq_Some_iff)
    then show ?thesis using Cons.IH [OF ev(3)] Cons.prems(2)
      by (simp add: hm_ok_remove gap_def hm_sum_remove algebra_simps)
  next
    case False
    then have "consume_cancelled evs m = Some m'" using Cons.prems(1) by (cases ev) auto
    then show ?thesis using Cons.IH Cons.prems(2) by blast
  qed
qed simp

lemma consume_filled_gap:
  "consume_filled self evs s m = Some (s', m') \<Longrightarrow> hm_ok (cm_resting m) \<Longrightarrow>
     hm_ok (cm_resting m') \<and> gap m' = gap m - (cm_filled m' - cm_filled m)"
proof (induction evs arbitrary: s m)
  case (Cons ev evs)
  show ?case
  proof (cases "\<exists>a oid sd p q l st. ev = Filled a oid sd p q l st \<and> (a, oid) \<noteq> self")
    case True
    then obtain a oid sd p q l st m1 where ev: "ev = Filled a oid sd p q l st" "(a, oid) \<noteq> self"
      "shrink_entry (a, oid) q m = Some m1" "consume_filled self evs s m1 = Some (s', m')"
      using Cons.prems(1) by (auto simp: bind_eq_Some_iff)
    obtain v where v: "hm_get (cm_resting m) (a, oid) = Some v" using ev(3) by (auto simp: shrink_entry_def bind_eq_Some_iff)
    let ?h = "hm_insert (a, oid) (v - q) (cm_resting m)"
    have ok: "hm_ok ?h" using Cons.prems(2) by (rule hm_ok_insert)
    have "hm_get ?h (a, oid) = Some (v - q)" by (simp add: hm_get_insert)
    then have "hm_sum (if v - q = 0 then hm_remove (a, oid) ?h else ?h) = hm_sum (cm_resting m) - q"
      using hm_sum_remove [OF ok, of "(a, oid)"] hm_sum_insert [OF Cons.prems(2), of "(a, oid)" "v - q"] v by (cases "v = q") simp_all
    then have m1: "hm_ok (cm_resting m1)" "gap m1 = gap m - q" "cm_filled m1 = cm_filled m + q"
      using ev(3) v ok by (auto simp: shrink_entry_def gap_def hm_ok_remove Let_def algebra_simps)
    from Cons.IH [OF ev(4) m1(1)] m1(2,3) show ?thesis by (simp add: algebra_simps)
  next
    case False
    then obtain s1 where "consume_filled self evs s1 m = Some (s', m')" using Cons.prems(1) by (cases ev) auto
    then show ?thesis using Cons.IH Cons.prems(2) by blast
  qed
qed simp

section \<open>The table and the book\<close>

text \<open>The table holds exactly the resting orders with their quantities.\<close>

definition table_of :: "abook \<Rightarrow> (order_key, u64) hashmap \<Rightarrow> bool" where
  "table_of ab h \<longleftrightarrow> hm_ok h \<and> (\<forall>sd. \<forall>r \<in> set (a_orders ab sd). hm_get h (rkey r) = Some (r_qty r)) \<and>
     (\<forall>k. hm_get h k \<noteq> None \<longrightarrow> a_present ab k)"

lemma table_ofD:
  assumes "table_of ab h"
  shows "hm_ok h" and "r \<in> set (a_orders ab sd) \<Longrightarrow> hm_get h (rkey r) = Some (r_qty r)"
    and "\<not> a_present ab k \<Longrightarrow> hm_get h k = None"
  using assms unfolding table_of_def by blast+

definition book_total :: "abook \<Rightarrow> u64" where
  "book_total ab = (\<Sum>r\<leftarrow>a_orders ab Buy @ a_orders ab Sell. r_qty r)"

lemma table_total:
  assumes t: "table_of ab h" and ks: "keys_ok ab"
  shows "hm_sum h = book_total ab"
proof -
  let ?rs = "a_orders ab Buy @ a_orders ab Sell"
  let ?entry = "\<lambda>r. (rkey r, r_qty r)"
  have d: "distinct (map rkey ?rs)"
    using ks unfolding keys_ok_def by (metis distinct_append map_append opposite.simps(1) set_map)
  have eq: "set h = set (map ?entry ?rs)"
  proof (rule set_eqI)
    fix x :: "order_key \<times> u64"
    obtain k v where x: "x = (k, v)" by fastforce
    have "x \<in> set h \<longleftrightarrow> hm_get h k = Some v"
      using table_ofD(1) [OF t] x by (simp add: hm_ok_def hm_get_def)
    also have "\<dots> \<longleftrightarrow> (\<exists>r \<in> set ?rs. rkey r = k \<and> r_qty r = v)"
    proof
      assume a: "hm_get h k = Some v"
      then have "a_present ab k" using table_ofD(3) [OF t, of k] by fastforce
      then obtain r where r: "r \<in> set ?rs" "rkey r = k" by (auto simp: a_present_def)
      then have "hm_get h (rkey r) = Some (r_qty r)" using table_ofD(2) [OF t] by auto
      then show "\<exists>r \<in> set ?rs. rkey r = k \<and> r_qty r = v" using a r by auto
    next
      assume "\<exists>r \<in> set ?rs. rkey r = k \<and> r_qty r = v"
      then show "hm_get h k = Some v" using table_ofD(2) [OF t] by auto
    qed
    finally show "x \<in> set h \<longleftrightarrow> x \<in> set (map ?entry ?rs)" using x by auto
  qed
  have dh: "distinct h" using table_ofD(1) [OF t] by (simp add: hm_ok_def distinct_map)
  have de: "distinct (map ?entry ?rs)"
  proof -
    have "distinct (map fst (map ?entry ?rs))" using d by (simp add: comp_def)
    then show ?thesis by (simp only: distinct_map [of fst])
  qed
  have "mset h = mset (map ?entry ?rs)" by (rule iffD1 [OF set_eq_iff_mset_eq_distinct [OF dh de] eq])
  then have "mset (map snd h) = mset (map snd (map ?entry ?rs))" by (simp only: mset_map [of snd])
  then have "sum_list (map snd h) = sum_list (map snd (map ?entry ?rs))" by (simp only: sum_mset_sum_list [symmetric])
  then show ?thesis by (simp add: hm_sum_def book_total_def comp_def)
qed

text \<open>The book's own totals per level add up to the same sum.\<close>

lemma filter_concat_sum:
  fixes f :: "'a \<Rightarrow> u64"
  assumes "distinct ps" and "\<forall>r \<in> set rs. g r \<in> set ps"
  shows "(\<Sum>p\<leftarrow>ps. \<Sum>r\<leftarrow>filter (\<lambda>r. g r = p) rs. f r) = (\<Sum>r\<leftarrow>rs. f r)"
  using assms(2)
proof (induction rs)
  case (Cons r rs)
  have "(\<Sum>p\<leftarrow>ps. if g r = p then f r else 0) = f r"
    using assms(1) Cons.prems by (simp add: sum_list_distinct_conv_sum_set)
  then have "(\<Sum>p\<leftarrow>ps. (if g r = p then f r else 0) + (\<Sum>r\<leftarrow>filter (\<lambda>r. g r = p) rs. f r)) = f r + (\<Sum>r\<leftarrow>rs. f r)"
    using Cons by (simp add: sum_list_addf)
  moreover have "(\<Sum>r\<leftarrow>filter (\<lambda>r. g r = p) (r # rs). f r) = (if g r = p then f r else 0) + (\<Sum>r\<leftarrow>filter (\<lambda>r. g r = p) rs. f r)" for p
    by simp
  ultimately show ?case by simp
qed simp

lemma level_sum:
  assumes inv: "book_inv b"
  shows "(\<Sum>x\<leftarrow>side_map b sd. level_total_qty (snd x)) = (\<Sum>r\<leftarrow>resting b sd. r_qty r)"
proof -
  have rep: "book_rep b (queue_of b)" using inv by (simp add: book_inv_def)
  have bt: "bt_ok (side_map b sd)" by (rule levels_okD(1) [OF book_repD(3) [OF rep]])
  have "level_total_qty (snd x) = level_qty (resting b sd) (fst x)" if "x \<in> set (side_map b sd)" for x
    using level_totals(1) [OF rep, of sd "fst x" "snd x"] bt_get_Some_iff [OF bt] that by simp
  then have "(\<Sum>x\<leftarrow>side_map b sd. level_total_qty (snd x)) = (\<Sum>p\<leftarrow>map fst (side_map b sd). level_qty (resting b sd) p)"
    unfolding map_map comp_def by (intro arg_cong [of _ _ sum_list] map_cong refl)
  also have "\<dots> = (\<Sum>r\<leftarrow>resting b sd. r_qty r)"
    unfolding level_qty_def
  proof (rule filter_concat_sum)
    show "distinct (map fst (side_map b sd))" by (rule bt_ok_distinct [OF bt])
    show "\<forall>r \<in> set (resting b sd). r_price r \<in> set (map fst (side_map b sd))"
    proof
      fix r assume "r \<in> set (resting b sd)"
      then obtain s n where n: "heap_of b s = Some n" "node_side n = sd" "r = order_of n" using resting_memE [OF rep] by blast
      then have "s \<in> set (queue_of b sd (node_price n))" using queues_okD(1) [OF book_repD(2) [OF rep]] by blast
      then have "node_price n \<in> set (prio_prices b sd)" using prio_prices_queue [OF rep, of "node_price n" sd] by auto
      then show "r_price r \<in> set (map fst (side_map b sd))" using n(3) prio_prices_set [of b sd] by (simp add: order_of_def)
    qed
  qed
  finally show ?thesis .
qed

lemma assert_conserved_pass:
  assumes inv: "book_inv b" and t: "table_of (abs_book b) (cm_resting m)" and g: "gap m = 0"
  shows "assert_conserved m b = Some ()"
proof -
  have "(\<Sum>x\<leftarrow>book_bids b. level_total_qty (snd x)) + (\<Sum>x\<leftarrow>book_asks b. level_total_qty (snd x)) = hm_sum (cm_resting m)"
    using table_total [OF t keys_ok_abs [OF inv]] level_sum [OF inv, of Buy] level_sum [OF inv, of Sell]
    by (simp add: book_total_def)
  then show ?thesis using g by (simp add: assert_conserved_def hm_sum_def gap_def Let_def)
qed

section \<open>A sweep in the ledger\<close>

text \<open>The cancellations of a sweep take the aggressor's own orders out of the table.\<close>

lemma sweep_cancels:
  assumes "a_sweep a oid side limit rs lt rem = ((rs', lt', rem'), out)" and "distinct (map rkey rs)"
    and "\<forall>r \<in> set rs. hm_get (cm_resting m) (rkey r) = Some (r_qty r)"
  shows "\<exists>m'. consume_cancelled out m = Some m' \<and>
    (\<forall>k. hm_get (cm_resting m') k =
       (if k \<in> rkey ` set rs \<and> k \<notin> rkey ` set rs' \<and> fst k = a then None else hm_get (cm_resting m) k))"
  using assms
proof (induction arbitrary: m rule: a_sweep_induct)
  case (own r rs lt rem rs' lt' rem' out)
  have r: "rkey r \<notin> rkey ` set rs" "distinct (map rkey rs)" "hm_get (cm_resting m) (rkey r) = Some (r_qty r)"
    "\<And>x. x \<in> set rs \<Longrightarrow> hm_get (cm_resting m) (rkey x) = Some (r_qty x)" using own.prems by auto
  have key: "(a, r_id r) = rkey r" "fst (rkey r) = a" using own.hyps(3) by (simp_all add: rkey_def)
  let ?m = "m\<lparr>cm_resting := hm_remove (rkey r) (cm_resting m), cm_cancelled := cm_cancelled m + r_qty r\<rparr>"
  have ne: "rkey x \<noteq> rkey r" if "x \<in> set rs" for x using r(1) that by (metis image_eqI)
  have "\<forall>x \<in> set rs. hm_get (cm_resting ?m) (rkey x) = Some (r_qty x)" using r(4) ne by (simp add: hm_get_remove)
  from own.IH [OF r(2) this] obtain m' where m': "consume_cancelled out ?m = Some m'"
    "\<And>k. hm_get (cm_resting m') k =
       (if k \<in> rkey ` set rs \<and> k \<notin> rkey ` set rs' \<and> fst k = a then None else hm_get (cm_resting ?m) k)" by blast
  have sub: "rkey ` set rs' \<subseteq> rkey ` set rs" using in_priority_keys [OF a_sweep_priority [OF own.hyps(4)]] .
  have "hm_get (cm_resting m') k =
      (if k \<in> rkey ` set (r # rs) \<and> k \<notin> rkey ` set rs' \<and> fst k = a then None else hm_get (cm_resting m) k)" for k
    unfolding m'(2) using sub r(1) key(2) by (auto simp: hm_get_remove)
  then show ?case using m'(1) key r(3) by (intro exI [of _ m']) simp
next
  case (full r rs lt rem rs' lt' rem' out)
  have "fst (rkey r) \<noteq> a" using full.hyps(3) by (simp add: rkey_def)
  then have iff: "k \<in> rkey ` set (r # rs) \<and> k \<notin> rkey ` set rs' \<and> fst k = a \<longleftrightarrow> k \<in> rkey ` set rs \<and> k \<notin> rkey ` set rs' \<and> fst k = a" for k
    by auto
  show ?case unfolding iff using full.IH [of m] full.prems by (simp add: fill_events_def)
next
  case (part r rs lt rem)
  have "rkey ` set (r\<lparr>r_qty := r_qty r - rem\<rparr> # rs) = rkey ` set (r # rs)" by (simp add: rkey_def)
  then show ?case by (intro exI [of _ m]) (auto simp: fill_events_def)
qed simp

text \<open>One fill: the aggressor's part is added up, the maker's entry shrinks.\<close>

lemma shrink_entry_full:
  assumes "hm_get (cm_resting m) k = Some q" and "hm_ok (cm_resting m)"
  obtains m' where "shrink_entry k q m = Some m'" and "cm_filled m' = cm_filled m + q" and "hm_ok (cm_resting m')"
    and "\<And>k'. hm_get (cm_resting m') k' = (if k' = k then None else hm_get (cm_resting m) k')"
  using assms by (simp add: shrink_entry_def Let_def hm_ok_insert hm_ok_remove hm_get_insert hm_get_remove)

lemma shrink_entry_part:
  assumes "hm_get (cm_resting m) k = Some v" and "q \<noteq> v" and "hm_ok (cm_resting m)"
  obtains m' where "shrink_entry k q m = Some m'" and "cm_filled m' = cm_filled m + q" and "hm_ok (cm_resting m')"
    and "\<And>k'. hm_get (cm_resting m') k' = (if k' = k then Some (v - q) else hm_get (cm_resting m) k')"
  using assms by (simp add: shrink_entry_def Let_def hm_ok_insert hm_get_insert)

lemma consume_fill_events:
  assumes "mk \<noteq> a"
  shows "consume_filled (a, oid) (fill_events a oid side mk mid p f rem left @ out) s m = do {
    m \<leftarrow> shrink_entry (mk, mid) f m;
    consume_filled (a, oid) out (s + f) m
  }"
  using assms by (cases "shrink_entry (mk, mid) f m") (simp_all add: fill_events_def)

abbreviation entries :: "rorder list \<Rightarrow> (order_key \<times> u64) list" where
  "entries rs \<equiv> map (\<lambda>r. (rkey r, r_qty r)) rs"

lemma entries_None: "map_of (entries rs) k = None \<longleftrightarrow> k \<notin> rkey ` set rs"
  by (force simp: map_of_eq_None_iff)

text \<open>The entry of \<open>k\<close> after the fills of a sweep of \<open>rs\<close> by account \<open>a\<close> that leaves \<open>rs'\<close>.\<close>

definition swept_entry :: "account_id \<Rightarrow> rorder list \<Rightarrow> rorder list \<Rightarrow> conservation_model \<Rightarrow> order_key \<Rightarrow> u64 option" where
  "swept_entry a rs rs' m k = (if fst k \<noteq> a \<and> k \<in> rkey ` set rs then map_of (entries rs') k else hm_get (cm_resting m) k)"

lemma swept_entry_same:
  assumes "\<forall>k \<in> rkey ` set rs. fst k \<noteq> a \<longrightarrow> hm_get (cm_resting m) k = map_of (entries rs) k"
  shows "swept_entry a rs rs m k = hm_get (cm_resting m) k"
  unfolding swept_entry_def using bspec [OF assms, of k] by simp

lemma entries_tail:
  assumes "distinct (map rkey (r # rs))"
    and "\<forall>k \<in> rkey ` set (r # rs). fst k \<noteq> a \<longrightarrow> hm_get (cm_resting m) k = map_of (entries (r # rs)) k"
  shows "\<forall>k \<in> rkey ` set rs. fst k \<noteq> a \<longrightarrow> hm_get (cm_resting m) k = map_of (entries rs) k"
proof (intro ballI impI)
  fix k assume k: "k \<in> rkey ` set rs" "fst k \<noteq> a"
  moreover have "rkey r \<notin> rkey ` set rs" using assms(1) by simp
  ultimately have "k \<noteq> rkey r" by blast
  then show "hm_get (cm_resting m) k = map_of (entries rs) k" using bspec [OF assms(2), of k] k by simp
qed

lemma swept_entry_full:
  assumes "fst (rkey r) \<noteq> a" and "rkey r \<notin> rkey ` set rs'" and "rkey r \<notin> rkey ` set rs"
    and "\<And>k. hm_get (cm_resting m1) k = (if k = rkey r then None else hm_get (cm_resting m) k)"
  shows "swept_entry a rs rs' m1 k = swept_entry a (r # rs) rs' m k"
  using assms(1,3) entries_None [THEN iffD2, OF assms(2)]
  by (cases "k = rkey r") (simp_all add: swept_entry_def assms(4))

lemma swept_entry_part:
  assumes "fst (rkey r) \<noteq> a" and "distinct (map rkey (r # rs))"
    and "\<forall>k \<in> rkey ` set (r # rs). fst k \<noteq> a \<longrightarrow> hm_get (cm_resting m) k = map_of (entries (r # rs)) k"
    and "\<And>k. hm_get (cm_resting m1) k = (if k = rkey r then Some v else hm_get (cm_resting m) k)"
  shows "hm_get (cm_resting m1) k = swept_entry a (r # rs) (r\<lparr>r_qty := v\<rparr> # rs) m k"
proof -
  have "rkey (r\<lparr>r_qty := v\<rparr>) = rkey r" by (simp add: rkey_def)
  then show ?thesis using assms(1) bspec [OF entries_tail [OF assms(2,3)], of k]
    by (cases "k = rkey r") (simp_all add: swept_entry_def assms(4))
qed

text \<open>The fills of a sweep: the makers lose what the aggressor gets.\<close>

lemma sweep_fills:
  assumes "a_sweep a oid side limit rs lt rem = ((rs', lt', rem'), out)" and "distinct (map rkey rs)"
    and "\<forall>k \<in> rkey ` set rs. fst k \<noteq> a \<longrightarrow> hm_get (cm_resting m) k = map_of (entries rs) k"
    and "hm_ok (cm_resting m)"
  shows "\<exists>m'. consume_filled (a, oid) out s m = Some (s + (rem - rem'), m') \<and> cm_filled m' = cm_filled m + (rem - rem') \<and>
    (\<forall>k. hm_get (cm_resting m') k = swept_entry a rs rs' m k)"
  using assms
proof (induction arbitrary: m s rule: a_sweep_induct)
  case (stop rs lt rem)
  show ?case by (intro exI [of _ m] conjI allI swept_entry_same [symmetric] stop.prems(2)) simp_all
next
  case (own r rs lt rem rs' lt' rem' out)
  have "fst (rkey r) = a" using own.hyps(3) by (simp add: rkey_def)
  then have "swept_entry a (r # rs) rs' m k = swept_entry a rs rs' m k" for k by (auto simp: swept_entry_def)
  then show ?case using own.IH [OF _ entries_tail [OF own.prems(1,2)] own.prems(3), of s] own.prems(1) by simp
next
  case (full r rs lt rem rs' lt' rem' out)
  have f: "fst (rkey r) \<noteq> a" "(r_account r, r_id r) = rkey r" using full.hyps(3) by (simp_all add: rkey_def)
  have new: "rkey r \<notin> rkey ` set rs" "distinct (map rkey rs)" using full.prems(1) by auto
  have "hm_get (cm_resting m) (rkey r) = Some (r_qty r)" using full.prems(2) f(1) by simp
  from this full.prems(3) obtain m1 where m1: "shrink_entry (rkey r) (r_qty r) m = Some m1"
    "cm_filled m1 = cm_filled m + r_qty r" "hm_ok (cm_resting m1)"
    "\<And>k. hm_get (cm_resting m1) k = (if k = rkey r then None else hm_get (cm_resting m) k)"
    by (rule shrink_entry_full) (rule that)
  have "\<forall>k \<in> rkey ` set rs. fst k \<noteq> a \<longrightarrow> hm_get (cm_resting m1) k = map_of (entries rs) k"
  proof (intro ballI impI)
    fix k assume k: "k \<in> rkey ` set rs" "fst k \<noteq> a"
    then have "k \<noteq> rkey r" using new(1) by blast
    then show "hm_get (cm_resting m1) k = map_of (entries rs) k"
      using bspec [OF entries_tail [OF full.prems(1,2)] k(1)] k(2) by (simp add: m1(4))
  qed
  from full.IH [OF new(2) this m1(3), of "s + r_qty r"] obtain m' where
    m': "consume_filled (a, oid) out (s + r_qty r) m1 = Some (s + r_qty r + (rem - r_qty r - rem'), m')"
    "cm_filled m' = cm_filled m1 + (rem - r_qty r - rem')" "\<And>k. hm_get (cm_resting m') k = swept_entry a rs rs' m1 k" by blast
  have sub: "rkey ` set rs' \<subseteq> rkey ` set rs" using in_priority_keys [OF a_sweep_priority [OF full.hyps(5)]] .
  have "hm_get (cm_resting m') k = swept_entry a (r # rs) rs' m k" for k
    unfolding m'(3) by (rule swept_entry_full [OF f(1) contra_subsetD [OF sub new(1)] new(1) m1(4)])
  moreover have "consume_filled (a, oid) (fill_events a oid side (r_account r) (r_id r) (r_price r) (r_qty r) (rem - r_qty r) 0 @ out) s m =
      Some (s + (rem - rem'), m')"
    unfolding consume_fill_events [OF full.hyps(3)] f(2) using m1(1) m'(1) by (simp add: algebra_simps)
  moreover have "cm_filled m' = cm_filled m + (rem - rem')" using m'(2) m1(2) by simp
  ultimately show ?case by blast
next
  case (part r rs lt rem)
  have f: "fst (rkey r) \<noteq> a" "(r_account r, r_id r) = rkey r" using part.hyps(3) by (simp_all add: rkey_def)
  then have "hm_get (cm_resting m) (rkey r) = Some (r_qty r)" using part.prems(2) by simp
  moreover have "rem \<noteq> r_qty r" using part.hyps(4) by simp
  ultimately obtain m1 where m1: "shrink_entry (rkey r) rem m = Some m1" "cm_filled m1 = cm_filled m + rem"
    "\<And>k. hm_get (cm_resting m1) k = (if k = rkey r then Some (r_qty r - rem) else hm_get (cm_resting m) k)"
    using part.prems(3) by (rule shrink_entry_part) (rule that)
  have "consume_filled (a, oid) (fill_events a oid side (r_account r) (r_id r) (r_price r) rem 0 (r_qty r - rem)) s m = Some (s + rem, m1)"
    using consume_fill_events [OF part.hyps(3), of oid side "r_id r" "r_price r" rem 0 "r_qty r - rem" "[]" s m] m1(1) f(2) by simp
  moreover have "hm_get (cm_resting m1) k = swept_entry a (r # rs) (r\<lparr>r_qty := r_qty r - rem\<rparr> # rs) m k" for k
    by (rule swept_entry_part [OF f(1) part.prems(1,2) m1(3)])
  ultimately show ?case using m1(2) by auto
qed

end
