(* ===== verification/Conservation_Props.thy ===== *)
theory Conservation_Props
  imports Conservation
begin

text \<open>
  The ledger of the conservation test after each kind of operation, and the test itself for all
  sequences of operations. An order that matches goes through both passes of the ledger
  (\<open>match_ledger\<close>), after which the table lacks only the order itself; the passes for submits, amends
  and cancels then differ only in what they do with the rest of it.
\<close>

section \<open>The ledger after one operation\<close>

text \<open>The table agrees with the book, except that it may still hold an entry for one more key.\<close>

definition table_but :: "order_key \<Rightarrow> abook \<Rightarrow> (order_key, u64) hashmap \<Rightarrow> bool" where
  "table_but self ab h \<longleftrightarrow> hm_ok h \<and> (\<forall>sd. \<forall>r \<in> set (a_orders ab sd). hm_get h (rkey r) = Some (r_qty r)) \<and>
     (\<forall>k. k \<noteq> self \<longrightarrow> \<not> a_present ab k \<longrightarrow> hm_get h k = None)"

lemma table_butD:
  assumes "table_but self ab h"
  shows "hm_ok h" and "r \<in> set (a_orders ab sd) \<Longrightarrow> hm_get h (rkey r) = Some (r_qty r)"
    and "k \<noteq> self \<Longrightarrow> \<not> a_present ab k \<Longrightarrow> hm_get h k = None"
  using assms unfolding table_but_def by blast+

lemma table_but_of: "table_of ab h \<Longrightarrow> table_but self ab h"
  unfolding table_of_def table_but_def by blast

lemma table_of_but: "table_but self ab h \<Longrightarrow> hm_get h self = None \<Longrightarrow> table_of ab h"
  unfolding table_of_def table_but_def by (metis option.distinct(1))

lemma table_but_remove:
  assumes t: "table_but self ab h" and new: "\<not> a_present ab self"
  shows "table_of ab (hm_remove self h)"
proof (rule table_of_but)
  show "table_but self ab (hm_remove self h)"
    unfolding table_but_def hm_get_remove using table_butD [OF t] a_presentI [of _ ab] new by (auto simp: hm_ok_remove)
qed (simp add: hm_get_remove)

lemma table_but_insert:
  assumes t: "table_but (rkey r) ab h" and new: "\<not> a_present ab (rkey r)"
  shows "table_of (a_add side r ab) (hm_insert (rkey r) (r_qty r) h)"
proof -
  have "hm_get (hm_insert (rkey r) (r_qty r) h) (rkey x) = Some (r_qty x)" if "x \<in> set (a_orders (a_add side r ab) sd)" for x sd
  proof (cases "x = r")
    case False
    then have "x \<in> set (a_orders ab sd)" using that by (auto simp: a_add_def split: if_splits)
    then show ?thesis unfolding hm_get_insert using table_butD(2) [OF t] a_presentI [of x ab sd] new by auto
  qed (simp add: hm_get_insert)
  moreover have "hm_get (hm_insert (rkey r) (r_qty r) h) k = None" if "\<not> a_present (a_add side r ab) k" for k
    using table_butD(3) [OF t, of k] that unfolding a_present_add hm_get_insert by simp
  ultimately show ?thesis unfolding table_of_def using hm_ok_insert [OF table_butD(1) [OF t]] by metis
qed

lemma table_but_drop:
  assumes "table_of ab h"
  shows "table_but k (a_drop k ab) h"
  unfolding table_but_def a_present_drop using table_ofD [OF assms] by (auto simp: a_drop_def drop_key_def)

lemma in_priority_own:
  assumes "in_priority a side limit rs rs' rem' fs" and "r \<in> set rs'" and "r_account r = a"
  shows "r \<in> set rs"
  using assms by (auto simp: in_priority_def)

lemma in_priority_distinct:
  assumes "in_priority a side limit rs rs' rem' fs" and "distinct (map rkey rs)"
  shows "distinct (map rkey rs')"
proof -
  have "rkey (r\<lparr>r_qty := q\<rparr>) = rkey r" for r q by (simp add: rkey_def)
  then show ?thesis using assms by (auto simp: in_priority_def)
qed

lemma entries_get: "distinct (map rkey rs) \<Longrightarrow> r \<in> set rs \<Longrightarrow> map_of (entries rs) (rkey r) = Some (r_qty r)"
  by (intro map_of_is_SomeI) (auto simp: comp_def)

text \<open>Both passes over the events of a match: what is left of the opposite list is what the table holds.\<close>

lemma sweep_ledger:
  assumes sw: "a_sweep a oid side limit rs lt q = ((rs', lt', rem), out)" and d: "distinct (map rkey rs)"
    and tab: "\<forall>r \<in> set rs. hm_get (cm_resting m) (rkey r) = Some (r_qty r)" and ok: "hm_ok (cm_resting m)"
  obtains m1 where "consume_cancelled out m = Some m1" and "hm_ok (cm_resting m1)" and "gap m1 = gap m"
    and "\<And>m2. cm_resting m2 = cm_resting m1 \<Longrightarrow> \<exists>m'. consume_filled (a, oid) out 0 m2 = Some (q - rem, m') \<and>
      hm_ok (cm_resting m') \<and> gap m' = gap m2 - (q - rem) \<and>
      (\<forall>k. hm_get (cm_resting m') k = (if k \<in> rkey ` set rs then map_of (entries rs') k else hm_get (cm_resting m) k))"
proof -
  note pri = a_sweep_priority [OF sw]
  obtain m1 where m1: "consume_cancelled out m = Some m1"
    "\<And>k. hm_get (cm_resting m1) k = (if k \<in> rkey ` set rs \<and> k \<notin> rkey ` set rs' \<and> fst k = a then None else hm_get (cm_resting m) k)"
    using sweep_cancels [OF sw d tab] by blast
  have g: "hm_ok (cm_resting m1)" "gap m1 = gap m" using consume_cancelled_gap [OF m1(1) ok] by simp_all
  have old: "hm_get (cm_resting m) k = map_of (entries rs) k" if k: "k \<in> rkey ` set rs" for k
  proof -
    obtain r where "r \<in> set rs" "k = rkey r" using k by blast
    then show ?thesis using tab entries_get [OF d] by simp
  qed
  have kept: "map_of (entries rs) k = map_of (entries rs') k" if k: "k \<in> rkey ` set rs'" "fst k = a" for k
  proof -
    obtain r where r: "r \<in> set rs'" "k = rkey r" using k(1) by blast
    moreover have "r \<in> set rs" using in_priority_own [OF pri r(1)] k(2) r(2) by (simp add: rkey_def)
    ultimately show ?thesis using entries_get [OF d] entries_get [OF in_priority_distinct [OF pri d]] by simp
  qed
  have "\<exists>m'. consume_filled (a, oid) out 0 m2 = Some (q - rem, m') \<and> hm_ok (cm_resting m') \<and> gap m' = gap m2 - (q - rem) \<and>
      (\<forall>k. hm_get (cm_resting m') k = (if k \<in> rkey ` set rs then map_of (entries rs') k else hm_get (cm_resting m) k))"
    if m2: "cm_resting m2 = cm_resting m1" for m2
  proof -
    have f: "\<forall>k \<in> rkey ` set rs. fst k \<noteq> a \<longrightarrow> hm_get (cm_resting m2) k = map_of (entries rs) k" and ok2: "hm_ok (cm_resting m2)"
      using old g(1) by (simp_all add: m2 m1(2))
    obtain m' where m': "consume_filled (a, oid) out 0 m2 = Some (0 + (q - rem), m')" "cm_filled m' = cm_filled m2 + (q - rem)"
      "\<And>k. hm_get (cm_resting m') k = swept_entry a rs rs' m2 k"
      using sweep_fills [OF sw d f ok2] by blast
    have "hm_get (cm_resting m') k = (if k \<in> rkey ` set rs then map_of (entries rs') k else hm_get (cm_resting m) k)" for k
      using old [of k] kept [of k] entries_None [of rs' k]
      by (cases "fst k = a"; cases "k \<in> rkey ` set rs'") (simp_all add: m'(3) swept_entry_def m2 m1(2))
    then show ?thesis using m'(1,2) consume_filled_gap [OF m'(1) ok2] by auto
  qed
  then show ?thesis using that m1(1) g by blast
qed

lemma match_ledger:
  assumes mt: "a_match ab a oid side p q = ((ab', rem), out)" and ks: "keys_ok ab" and new: "\<not> a_present ab (a, oid)"
    and t: "table_but (a, oid) ab (cm_resting m)"
  obtains m1 where "consume_cancelled out m = Some m1" and "gap m1 = gap m"
    and "\<And>m2. cm_resting m2 = cm_resting m1 \<Longrightarrow> \<exists>m'. consume_filled (a, oid) out 0 m2 = Some (q - rem, m') \<and>
      gap m' = gap m2 - (q - rem) \<and> table_but (a, oid) ab' (cm_resting m') \<and>
      hm_get (cm_resting m') (a, oid) = hm_get (cm_resting m) (a, oid)"
    and "\<not> a_present ab' (a, oid)"
proof -
  let ?rs = "a_orders ab (opposite side)"
  obtain rs lt where sw: "a_sweep a oid side p ?rs (a_last ab) q = ((rs, lt, rem), out)"
    and ab': "a_orders ab' = (a_orders ab)(opposite side := rs)"
    using mt by (auto simp: a_match_def split: prod.splits)
  note pri = a_sweep_priority [OF sw]
  have d: "distinct (map rkey ?rs)" and dis: "rkey ` set (a_orders ab side) \<inter> rkey ` set ?rs = {}"
    using ks unfolding keys_ok_def by blast+
  have sub: "rkey ` set rs \<subseteq> rkey ` set ?rs" by (rule in_priority_keys [OF pri])
  have tab: "\<forall>r \<in> set ?rs. hm_get (cm_resting m) (rkey r) = Some (r_qty r)" using table_butD(2) [OF t] by blast
  obtain m1 where m1: "consume_cancelled out m = Some m1" "gap m1 = gap m"
    "\<And>m2. cm_resting m2 = cm_resting m1 \<Longrightarrow> \<exists>m'. consume_filled (a, oid) out 0 m2 = Some (q - rem, m') \<and>
      hm_ok (cm_resting m') \<and> gap m' = gap m2 - (q - rem) \<and>
      (\<forall>k. hm_get (cm_resting m') k = (if k \<in> rkey ` set ?rs then map_of (entries rs) k else hm_get (cm_resting m) k))"
    using sw d tab table_butD(1) [OF t] by (rule sweep_ledger) (rule that)
  have pres: "a_present ab' k \<longleftrightarrow> k \<in> rkey ` set (a_orders ab side) \<or> k \<in> rkey ` set rs" for k
    unfolding a_present_side [of _ _ side] ab' by (cases side) auto
  have "table_but (a, oid) ab' h" if ok: "hm_ok h"
    and h: "\<And>k. hm_get h k = (if k \<in> rkey ` set ?rs then map_of (entries rs) k else hm_get (cm_resting m) k)" for h
  proof -
    have "hm_get h (rkey r) = Some (r_qty r)" if r: "r \<in> set (a_orders ab' sd)" for r sd
    proof (cases "sd = opposite side")
      case True
      then have "r \<in> set rs" using r ab' by simp
      then show ?thesis using sub entries_get [OF in_priority_distinct [OF pri d]] by (auto simp: h)
    next
      case False
      then have "r \<in> set (a_orders ab side)" using r ab' by (cases sd; cases side) auto
      then have "rkey r \<notin> rkey ` set ?rs" "hm_get (cm_resting m) (rkey r) = Some (r_qty r)" using dis table_butD(2) [OF t] by blast+
      then show ?thesis by (simp add: h)
    qed
    moreover have "hm_get h k = None" if k: "k \<noteq> (a, oid)" "\<not> a_present ab' k" for k
      using k table_butD(3) [OF t k(1)] entries_None [of rs k] unfolding h pres a_present_side [of ab k side] by auto
    ultimately show ?thesis unfolding table_but_def using ok by blast
  qed
  moreover have "\<not> a_present ab' (a, oid)" "(a, oid) \<notin> rkey ` set ?rs"
    using new sub unfolding pres a_present_side [of ab _ side] by blast+
  ultimately show ?thesis using that [OF m1(1,2)] m1(3) by (metis (no_types, lifting))
qed

definition balanced :: "abook \<Rightarrow> conservation_model \<Rightarrow> bool" where
  "balanced ab m \<longleftrightarrow> table_of ab (cm_resting m) \<and> gap m = 0"

lemma gap_update [simp]:
  "gap (m\<lparr>cm_submitted := x\<rparr>) = gap m - cm_submitted m + x"
  "gap (m\<lparr>cm_cancelled := x\<rparr>) = gap m + cm_cancelled m - x"
  "gap (m\<lparr>cm_discarded := x\<rparr>) = gap m + cm_discarded m - x"
  "gap (m\<lparr>cm_resting := h\<rparr>) = gap m + hm_sum (cm_resting m) - hm_sum h"
  by (simp_all add: gap_def algebra_simps)

lemma events_rejected_refused: "events_rejected out = refused out"
  by (simp add: events_rejected_def refused_def)

text \<open>What is left of an order rests in place of whatever the table still held for its key.\<close>

lemma balanced_rest:
  assumes t: "table_but (a, oid) ab (cm_resting m)" and new: "\<not> a_present ab (a, oid)"
    and g: "gap m = rem - at_key (cm_resting m) (a, oid)"
  shows "balanced (a_add side (order_for a oid p rem) ab) (m\<lparr>cm_resting := hm_insert (a, oid) rem (cm_resting m)\<rparr>)"
proof -
  have k: "rkey (order_for a oid p rem) = (a, oid)" "r_qty (order_for a oid p rem) = rem" by (rule rkey_order_for, simp add: order_for_def)
  show ?thesis unfolding balanced_def
    using table_but_insert [of "order_for a oid p rem" ab "cm_resting m" side, unfolded k, OF t new] g
      hm_sum_insert [OF table_butD(1) [OF t], of "(a, oid)" rem] by simp
qed

lemma balanced_gone:
  assumes t: "table_but (a, oid) ab (cm_resting m)" and new: "\<not> a_present ab (a, oid)"
    and g: "gap m = - at_key (cm_resting m) (a, oid)"
  shows "balanced ab (m\<lparr>cm_resting := hm_remove (a, oid) (cm_resting m)\<rparr>)"
  unfolding balanced_def using table_but_remove [OF t new] g hm_sum_remove [OF table_butD(1) [OF t], of "(a, oid)"] by simp

lemma record_match:
  assumes mt: "a_match ab a oid side p q = ((ab', rem), out)" and ks: "keys_ok ab" and new: "\<not> a_present ab (a, oid)"
    and bal: "balanced ab m"
  shows "\<exists>m'. record_submit (a, oid) q rests (out @ [Accepted a oid x]) m = Some m' \<and>
    balanced (if rests \<and> rem \<noteq> 0 then a_add side (order_for a oid p rem) ab' else ab') m'"
proof -
  have t: "table_of ab (cm_resting m)" and g: "gap m = 0" using bal by (simp_all add: balanced_def)
  have self: "hm_get (cm_resting m) (a, oid) = None" by (rule table_ofD(3) [OF t new])
  obtain m1 where m1: "consume_cancelled out m = Some m1" "gap m1 = gap m"
    "\<And>m2. cm_resting m2 = cm_resting m1 \<Longrightarrow> \<exists>m'. consume_filled (a, oid) out 0 m2 = Some (q - rem, m') \<and>
      gap m' = gap m2 - (q - rem) \<and> table_but (a, oid) ab' (cm_resting m') \<and>
      hm_get (cm_resting m') (a, oid) = hm_get (cm_resting m) (a, oid)" "\<not> a_present ab' (a, oid)"
    using mt ks new table_but_of [OF t] by (rule match_ledger) (rule that)
  let ?m2 = "m1\<lparr>cm_submitted := cm_submitted m1 + q\<rparr>"
  obtain m' where m': "consume_filled (a, oid) out 0 ?m2 = Some (q - rem, m')" "gap m' = gap ?m2 - (q - rem)"
    "table_but (a, oid) ab' (cm_resting m')" "hm_get (cm_resting m') (a, oid) = None"
    using m1(3) [of ?m2] self by auto
  have gap': "gap m' = rem - at_key (cm_resting m') (a, oid)" using m'(2,4) m1(2) g by simp
  have run: "record_submit (a, oid) q rests (out @ [Accepted a oid x]) m = Some (if 0 < rem
      then (if rests then m'\<lparr>cm_resting := hm_insert (a, oid) rem (cm_resting m')\<rparr>
            else m'\<lparr>cm_discarded := cm_discarded m' + rem\<rparr>) else m')"
    using match_not_refused [OF mt] m1(1) m'(1)
    by (simp add: record_submit_def events_rejected_refused consume_cancelled_append consume_filled_append Let_def)
  show ?thesis
    unfolding run using balanced_rest [OF m'(3) m1(4) gap', of side p] table_of_but [OF m'(3,4)] gap' m'(4)
    by (auto simp: balanced_def word_gt_0)
qed

lemma record_rejected [simp]: "record_submit self q rests [Rejected a oid why] m = Some m"
  by (simp add: record_submit_def events_rejected_def)

lemma record_submits:
  assumes "keys_ok ab" and "balanced ab m"
  shows "\<exists>m'. record_submit (a, oid) q True (snd (a_submit_gtc ab a oid side p q)) m = Some m' \<and>
      balanced (fst (a_submit_gtc ab a oid side p q)) m'"
    and "\<exists>m'. record_submit (a, oid) q False (snd (a_submit_ioc ab a oid side p q)) m = Some m' \<and>
      balanced (fst (a_submit_ioc ab a oid side p q)) m'"
    and "\<exists>m'. record_submit (a, oid) q False (snd (a_submit_fok ab a oid side p q)) m = Some m' \<and>
      balanced (fst (a_submit_fok ab a oid side p q)) m'"
proof -
  obtain ab' rem out where mt: "a_match ab a oid side p q = ((ab', rem), out)" by (metis prod.exhaust)
  note m = record_match [OF mt assms(1) _ assms(2)]
  show "\<exists>m'. record_submit (a, oid) q True (snd (a_submit_gtc ab a oid side p q)) m = Some m' \<and>
      balanced (fst (a_submit_gtc ab a oid side p q)) m'"
    using m [where rests = True] mt assms(2) by (cases "rem = 0") (simp_all add: a_submit_gtc_def)
  show "\<exists>m'. record_submit (a, oid) q False (snd (a_submit_ioc ab a oid side p q)) m = Some m' \<and>
      balanced (fst (a_submit_ioc ab a oid side p q)) m'"
    using m [where rests = False] mt assms(2) by (simp add: a_submit_ioc_def)
  show "\<exists>m'. record_submit (a, oid) q False (snd (a_submit_fok ab a oid side p q)) m = Some m' \<and>
      balanced (fst (a_submit_fok ab a oid side p q)) m'"
    using m [where rests = False] mt assms(2) by (simp add: a_submit_fok_def)
qed

text \<open>A list of cancellations of resting orders: the table loses their keys, the book their orders.\<close>

abbreviation cancels :: "order_key list \<Rightarrow> event list" where
  "cancels ks \<equiv> map (\<lambda>k. Cancelled (fst k) (snd k)) ks"

lemma consume_cancels:
  assumes "distinct ks" and "\<forall>k \<in> set ks. hm_get (cm_resting m) k \<noteq> None"
  shows "\<exists>m'. consume_cancelled (cancels ks) m = Some m' \<and>
    (\<forall>k. hm_get (cm_resting m') k = (if k \<in> set ks then None else hm_get (cm_resting m) k))"
  using assms
proof (induction ks arbitrary: m)
  case (Cons k ks)
  obtain v where v: "hm_get (cm_resting m) k = Some v" using Cons.prems(2) by auto
  let ?m = "m\<lparr>cm_resting := hm_remove k (cm_resting m), cm_cancelled := cm_cancelled m + v\<rparr>"
  have "\<forall>x \<in> set ks. hm_get (cm_resting ?m) x \<noteq> None" using Cons.prems by (auto simp: hm_get_remove)
  from Cons.IH [OF _ this] Cons.prems(1) obtain m' where m': "consume_cancelled (cancels ks) ?m = Some m'"
    "\<And>x. hm_get (cm_resting m') x = (if x \<in> set ks then None else hm_get (cm_resting ?m) x)" by auto
  have "hm_get (cm_resting m') x = (if x \<in> set (k # ks) then None else hm_get (cm_resting m) x)" for x
    unfolding m'(2) by (simp add: hm_get_remove)
  moreover have "consume_cancelled (cancels (k # ks)) m = Some m'" using v m'(1) by simp
  ultimately show ?case by blast
qed simp

lemma consume_filled_cancels [simp]: "consume_filled self (cancels ks @ out) s m = consume_filled self out s m"
  by (induction ks) simp_all

lemma balanced_cancels:
  assumes bal: "balanced ab m" and d: "distinct ks" and pres: "\<forall>k \<in> set ks. a_present ab k"
    and ab': "\<And>sd. a_orders ab' sd = filter (\<lambda>r. rkey r \<notin> set ks) (a_orders ab sd)"
  shows "\<exists>m'. consume_cancelled (cancels ks) m = Some m' \<and> balanced ab' m'"
proof -
  have t: "table_of ab (cm_resting m)" and g: "gap m = 0" using bal by (simp_all add: balanced_def)
  have "hm_get (cm_resting m) k \<noteq> None" if "a_present ab k" for k
    using that table_ofD(2) [OF t] unfolding a_present_side [of _ _ Buy] by auto
  then obtain m' where m': "consume_cancelled (cancels ks) m = Some m'"
    "\<And>k. hm_get (cm_resting m') k = (if k \<in> set ks then None else hm_get (cm_resting m) k)"
    using consume_cancels [OF d, of m] pres by blast
  have ok: "hm_ok (cm_resting m')" "gap m' = gap m" using consume_cancelled_gap [OF m'(1) table_ofD(1) [OF t]] by simp_all
  have pres': "a_present ab' k \<longleftrightarrow> k \<notin> set ks \<and> a_present ab k" for k
    unfolding a_present_side [of _ _ Buy] ab' by auto
  have "hm_get (cm_resting m') k = None" if "\<not> a_present ab' k" for k
    unfolding m'(2) using that pres' [of k] table_ofD(3) [OF t, of k] by auto
  moreover have "hm_get (cm_resting m') (rkey r) = Some (r_qty r)" if "r \<in> set (a_orders ab' sd)" for r sd
    unfolding m'(2) using that table_ofD(2) [OF t, of r sd] by (auto simp: ab')
  ultimately have "table_of ab' (cm_resting m')" unfolding table_of_def using ok(1) by metis
  then show ?thesis using m'(1) ok(2) g by (auto simp: balanced_def)
qed

lemma record_cancel:
  assumes "balanced ab m"
  shows "\<exists>m'. record_cancel_or_mass_cancel (snd (a_cancel ab a oid)) m = Some m' \<and> balanced (fst (a_cancel ab a oid)) m'"
proof (cases "a_present ab (a, oid)")
  case True
  then show ?thesis using balanced_cancels [OF assms, of "[(a, oid)]" "a_drop (a, oid) ab"]
    by (simp add: a_cancel_def record_cancel_or_mass_cancel_def events_rejected_def a_drop_def drop_key_def)
qed (simp add: a_cancel_def record_cancel_or_mass_cancel_def events_rejected_def assms)

lemma record_mass_cancel:
  assumes inv: "book_inv b" and bal: "balanced (abs_book b) m" and mc: "mass_cancel b a = Some (b', out)"
  shows "\<exists>m'. record_cancel_or_mass_cancel out m = Some m' \<and> balanced (abs_book b') m'"
proof -
  obtain ids where out: "out = map (Cancelled a) ids" and ids: "mset ids = mset (map r_id (orders_of b a))"
    and b': "resting b' = (\<lambda>sd. filter (\<lambda>r. r_account r \<noteq> a) (resting b sd))"
    using mass_cancel_spec [OF inv, of a] mc by auto
  let ?ks = "map (Pair a) ids"
  have "map (Pair a) (map r_id (orders_of b a)) = map rkey (orders_of b a)" by (auto simp: orders_of_def rkey_def)
  then have ks: "mset ?ks = mset (map rkey (orders_of b a))" using ids by (metis mset_map)
  have d: "distinct (map rkey (resting b Buy @ resting b Sell))"
    using keys_ok_abs [OF inv] unfolding keys_ok_def by (metis abs_book_simps(1) distinct_append map_append opposite.simps(1) set_map)
  then have "distinct (map rkey (orders_of b a))" unfolding orders_of_def by (rule distinct_map_filter)
  then have dk: "distinct ?ks" using ks by (metis mset_eq_imp_distinct_iff)
  have mem: "set ?ks = rkey ` set (orders_of b a)" using mset_eq_setD [OF ks] by simp
  have "rkey r \<notin> set ?ks \<longleftrightarrow> r_account r \<noteq> a" if "r \<in> set (resting b sd)" for r sd
    unfolding mem using that by (cases sd) (auto simp: orders_of_def rkey_def)
  then have eq: "a_orders (abs_book b') sd = filter (\<lambda>r. rkey r \<notin> set ?ks) (a_orders (abs_book b) sd)" for sd
    by (simp add: b' cong: filter_cong)
  have "\<forall>k \<in> set ?ks. a_present (abs_book b) k" unfolding mem by (auto simp: orders_of_def a_present_def)
  then obtain m' where "consume_cancelled (cancels ?ks) m = Some m'" "balanced (abs_book b') m'"
    using balanced_cancels [OF bal dk _ eq] by blast
  moreover have "cancels ?ks = out" "\<not> events_rejected out" using out by (auto simp: comp_def events_rejected_def list_ex_iff)
  ultimately show ?thesis by (simp add: record_cancel_or_mass_cancel_def)
qed

lemma record_postonly:
  assumes ks: "keys_ok ab" and bal: "balanced ab m" and q: "q \<noteq> 0"
  shows "\<exists>m'. record_submit (a, oid) q True (snd (a_submit_postonly ab a oid side p q)) m = Some m' \<and>
    balanced (fst (a_submit_postonly ab a oid side p q)) m'"
proof (cases "a_present ab (a, oid)")
  case True
  then show ?thesis using bal by (simp add: a_submit_postonly_def)
next
  case new: False
  obtain rs cross out where st: "a_stp a side p (a_orders ab (opposite side)) = ((rs, cross), out)" by (metis prod.exhaust)
  from a_stp_shrinks [OF st] obtain own where own: "a_orders ab (opposite side) = own @ rs"
    "\<forall>r \<in> set own. r_account r = a" "out = map (\<lambda>r. Cancelled a (r_id r)) own" by blast
  let ?ab = "ab\<lparr>a_orders := (a_orders ab)(opposite side := rs)\<rparr>" and ?ks = "map rkey own"
  have d: "distinct (map rkey (own @ rs))" and dis: "rkey ` set (a_orders ab side) \<inter> rkey ` set (own @ rs) = {}"
    using ks own(1) unfolding keys_ok_def by metis+
  have out: "out = cancels ?ks" using own(2,3) by (auto simp: rkey_def)
  have "filter (\<lambda>r. rkey r \<notin> set ?ks) (own @ rs) = rs" "filter (\<lambda>r. rkey r \<notin> set ?ks) (a_orders ab side) = a_orders ab side"
    using d dis by (auto simp: filter_id_conv filter_empty_conv)
  then have eq: "a_orders ?ab sd = filter (\<lambda>r. rkey r \<notin> set ?ks) (a_orders ab sd)" for sd
    using own(1) by (cases sd; cases side) simp_all
  have "\<forall>k \<in> set ?ks. a_present ab k" unfolding a_present_side [of _ _ side] own(1) by auto
  moreover have "distinct ?ks" using d by simp
  ultimately obtain m1 where m1: "consume_cancelled (cancels ?ks) m = Some m1" "balanced ?ab m1"
    using balanced_cancels [OF bal _ _ eq] by blast
  have t: "table_of ?ab (cm_resting m1)" "gap m1 = 0" using m1(2) by (simp_all add: balanced_def)
  have new': "\<not> a_present ?ab (a, oid)" using new unfolding a_present_side [of _ _ side] own(1) by (cases side) auto
  let ?m = "m1\<lparr>cm_submitted := cm_submitted m1 + q\<rparr>"
  have "balanced (a_add side (order_for a oid p q) ?ab) (?m\<lparr>cm_resting := hm_insert (a, oid) q (cm_resting ?m)\<rparr>)"
    by (rule balanced_rest [OF _ new']) (use t table_but_of [OF t(1)] table_ofD(3) [OF t(1) new'] in simp_all)
  moreover have "consume_filled (a, oid) (cancels ?ks @ [Accepted a oid q]) 0 ?m = Some (0, ?m)"
    by (simp only: consume_filled_cancels) simp
  ultimately show ?thesis using m1 new st q
    by (auto simp: a_submit_postonly_def Let_def out record_submit_def events_rejected_def list_ex_iff consume_cancelled_append word_gt_0)
qed

lemma set_qty_keys: "rkey ` set (set_qty k q rs) = rkey ` set rs"
proof -
  have "map rkey (set_qty k q rs) = map rkey rs" by (simp add: set_qty_def rkey_def)
  then show ?thesis by (metis set_map)
qed

text \<open>An amend: the change of size is submitted or cancelled, then the order is as if resubmitted.\<close>

lemma record_replaced:
  assumes old: "hm_get (cm_resting m) (a, oid) = Some v" and g: "gap m = 0" and t: "table_but (a, oid) ab (cm_resting m)"
    and ks: "keys_ok ab" and new: "\<not> a_present ab (a, oid)" and mt: "a_match ab a oid side p q = ((ab', rem), out)"
  shows "\<exists>m'. record_modify (a, oid) (Replaced a oid q x # out) m = Some m' \<and>
    balanced (if rem = 0 then ab' else a_add side (order_for a oid p rem) ab') m'"
proof -
  let ?m = "if v \<le> q then m\<lparr>cm_submitted := cm_submitted m + (q - v)\<rparr> else m\<lparr>cm_cancelled := cm_cancelled m + (v - q)\<rparr>"
  have m: "cm_resting ?m = cm_resting m" "gap ?m = q - v" using g by simp_all
  obtain m1 where m1: "consume_cancelled out ?m = Some m1" "gap m1 = gap ?m"
    "\<And>m2. cm_resting m2 = cm_resting m1 \<Longrightarrow> \<exists>m'. consume_filled (a, oid) out 0 m2 = Some (q - rem, m') \<and>
      gap m' = gap m2 - (q - rem) \<and> table_but (a, oid) ab' (cm_resting m') \<and>
      hm_get (cm_resting m') (a, oid) = hm_get (cm_resting ?m) (a, oid)" "\<not> a_present ab' (a, oid)"
    using mt ks new t [folded m(1)] by (rule match_ledger) (rule that)
  obtain m' where m': "consume_filled (a, oid) out 0 m1 = Some (q - rem, m')" "gap m' = gap m1 - (q - rem)"
    "table_but (a, oid) ab' (cm_resting m')" "hm_get (cm_resting m') (a, oid) = Some v"
    using m1(3) [of m1] old unfolding m(1) by auto
  have gap': "gap m' = rem - at_key (cm_resting m') (a, oid)" using m'(2,4) m1(2) m(2) by simp
  have run: "record_modify (a, oid) (Replaced a oid q x # out) m = Some (if 0 < rem
      then m'\<lparr>cm_resting := hm_insert (a, oid) rem (cm_resting m')\<rparr>
      else m'\<lparr>cm_resting := hm_remove (a, oid) (cm_resting m')\<rparr>)"
    using match_not_refused [OF mt] m1(1) m'(1) old
    by (simp add: record_modify_def events_rejected_refused Let_def)
  show ?thesis
    unfolding run using balanced_rest [OF m'(3) m1(4) gap', of side p] balanced_gone [OF m'(3) m1(4)] gap'
    by (auto simp: word_gt_0)
qed

lemma record_amend:
  assumes ks: "keys_ok ab" and bal: "balanced ab m"
  shows "\<exists>m'. record_modify (a, oid) (snd (a_modify ab a oid p q)) m = Some m' \<and> balanced (fst (a_modify ab a oid p q)) m'"
proof (cases "q = 0 \<or> a_find ab (a, oid) = None")
  case True
  then show ?thesis using bal by (auto simp: a_modify_def record_modify_def events_rejected_def)
next
  case False
  then obtain side r where f: "q \<noteq> 0" "a_find ab (a, oid) = Some (side, r)" by fastforce
  have t: "table_of ab (cm_resting m)" and g: "gap m = 0" using bal by (simp_all add: balanced_def)
  have mem: "r \<in> set (a_orders ab side)" and key: "rkey r = (a, oid)" using a_find_mem [OF f(2)] by simp_all
  have old: "hm_get (cm_resting m) (a, oid) = Some (r_qty r)"
    using table_ofD(2) [OF t mem] key by simp
  show ?thesis
  proof (cases "p = r_price r \<and> q \<le> r_qty r")
    case True
    let ?ab = "ab\<lparr>a_orders := \<lambda>sd. set_qty (a, oid) q (a_orders ab sd)\<rparr>"
    let ?h = "hm_insert (a, oid) q (cm_resting m)"
    have "hm_get ?h (rkey x) = Some (r_qty x)" if "x \<in> set (a_orders ?ab sd)" for x sd
      using that table_ofD(2) [OF t, of _ sd] by (auto simp: set_qty_def hm_get_insert rkey_def split: if_splits)
    moreover have keys: "a_present ?ab k \<longleftrightarrow> a_present ab k" for k
      by (simp add: a_present_def image_Un set_qty_keys)
    moreover have "a_present ab (a, oid)" using a_presentI [OF mem] key by simp
    then have "hm_get ?h k = None" if "\<not> a_present ab k" for k
      using that table_ofD(3) [OF t that] by (auto simp: hm_get_insert)
    ultimately have "table_of ?ab ?h" unfolding table_of_def keys using hm_ok_insert [OF table_ofD(1) [OF t]] by metis
    moreover have "hm_sum ?h = hm_sum (cm_resting m) - r_qty r + q"
      using hm_sum_insert [OF table_ofD(1) [OF t], of "(a, oid)" q] old by simp
    ultimately show ?thesis using True f old g
      by (auto simp: a_modify_def record_modify_def events_rejected_def balanced_def Let_def word_gt_0)
  next
    case False
    obtain ab' rem out where mt: "a_match (a_drop (a, oid) ab) a oid side p q = ((ab', rem), out)" by (metis prod.exhaust)
    show ?thesis using record_replaced [OF old g table_but_drop [OF t] keys_ok_drop [OF ks] _ mt] False f mt
      by (auto simp: a_modify_def a_present_drop)
  qed
qed

section \<open>All sequences of operations\<close>

text \<open>Each operation of the test is a command of the engine.\<close>

definition op_command :: "op \<Rightarrow> command" where
  "op_command op = (case op of
       Op_Gtc a i s p q \<Rightarrow> NewOrder a i s p q Limit Gtc 0
     | Op_Ioc a i s p q \<Rightarrow> NewOrder a i s p q Limit Ioc 0
     | Op_Fok a i s p q \<Rightarrow> NewOrder a i s p q Limit Fok 0
     | Op_PostOnly a i s p q \<Rightarrow> NewOrder a i s p q Limit PostOnly 0
     | Op_Market a i s q \<Rightarrow> NewOrder a i s 0 q Market Ioc 0
     | Op_Cancel a i \<Rightarrow> CancelOrder a i
     | Op_Modify a i p q \<Rightarrow> CancelReplace a i p q
     | Op_MassCancel a \<Rightarrow> MassCancel a)"

definition record_op :: "op \<Rightarrow> event list \<Rightarrow> conservation_model \<Rightarrow> conservation_model option" where
  "record_op op events m = (case op of
       Op_Gtc a i s p q \<Rightarrow> record_submit (a, i) q True events m
     | Op_Ioc a i s p q \<Rightarrow> record_submit (a, i) q False events m
     | Op_Fok a i s p q \<Rightarrow> record_submit (a, i) q False events m
     | Op_PostOnly a i s p q \<Rightarrow> record_submit (a, i) q True events m
     | Op_Market a i s q \<Rightarrow> record_submit (a, i) q False events m
     | Op_Modify a i p q \<Rightarrow> record_modify (a, i) events m
     | _ \<Rightarrow> record_cancel_or_mass_cancel events m)"

lemma apply_op_dispatch:
  "apply_op b m op = do { (b, events) \<leftarrow> dispatch b (op_command op); m \<leftarrow> record_op op events m; Some (b, m) }"
  by (cases op) (simp_all add: apply_op_def op_command_def record_op_def dispatch_def)

text \<open>The operations the test draws are among the ones the property is about.\<close>

lemma op_strategy_ok: "op_strategy op \<Longrightarrow> command_ok (op_command op)"
  by (cases op) (auto simp: op_strategy_def op_command_def command_ok_def)

lemma record_op_balanced:
  assumes inv: "book_inv b" and room: "book_room b" and ok: "command_ok (op_command op)" and bal: "balanced (abs_book b) m"
    and d: "dispatch b (op_command op) = Some (b', out)"
  shows "\<exists>m'. record_op op out m = Some m' \<and> balanced (abs_book b') m'"
proof (cases "command_self_id (op_command op)")
  case (Some k)
  note ks = keys_ok_abs [OF inv]
  have r: "out = snd (a_dispatch (abs_book b) (op_command op))" "abs_book b' = fst (a_dispatch (abs_book b) (op_command op))"
    using refines_abs [OF dispatch_refines [OF inv room ok Some] d] by simp_all
  have "command_self_id (op_command op) \<noteq> None" using Some by simp
  then show ?thesis
    using record_submits [OF ks bal] record_postonly [OF ks bal] record_cancel [OF bal] record_amend [OF ks bal] ok
    unfolding r by (cases op) (simp_all add: op_command_def record_op_def a_dispatch_def command_ok_def command_self_id_def)
next
  case None
  then obtain a where "op = Op_MassCancel a" by (cases op) (simp_all add: op_command_def command_self_id_def)
  then show ?thesis using record_mass_cancel [OF inv bal] d by (simp add: op_command_def record_op_def dispatch_def)
qed

lemma quantity_conservation_from:
  assumes "engine_inv e" and "balanced (abs_book (engine_book e)) m" and "\<forall>op \<in> set ops. command_ok (op_command op)"
    and "slot_count (engine_book e) + length ops \<le> 2 ^ 32 - 1"
  shows "\<exists>b' m'. quantity_conservation (engine_book e) m ops = Some (b', m') \<and> balanced (abs_book b') m'"
  using assms
proof (induction ops arbitrary: e m)
  case (Cons op ops)
  have bi: "book_inv (engine_book e)" using Cons.prems(1) by (simp add: engine_inv_def)
  have ok: "command_ok (op_command op)" and room: "book_room (engine_book e)"
    using Cons.prems(3,4) by (simp_all add: book_room_slots)
  obtain b1 out where b1: "dispatch (engine_book e) (op_command op) = Some (b1, out)" "engine_inv (e\<lparr>engine_book := b1\<rparr>)"
    "slot_count b1 \<le> Suc (slot_count (engine_book e))" using dispatch_inv [OF Cons.prems(1) ok room] by blast
  obtain m1 where m1: "record_op op out m = Some m1" "balanced (abs_book b1) m1"
    using record_op_balanced [OF bi room ok Cons.prems(2) b1(1)] by blast
  have "assert_invariants b1 = Some ()" "assert_conserved m1 b1 = Some ()"
    using assert_invariants_pass [of b1] assert_conserved_pass [of b1 m1] b1(2) m1(2) by (simp_all add: engine_inv_def balanced_def)
  moreover have "\<exists>b' m'. quantity_conservation b1 m1 ops = Some (b', m') \<and> balanced (abs_book b') m'"
    using Cons.IH [OF b1(2), of m1] m1(2) Cons.prems(3,4) b1(3) by simp
  ultimately show ?case using b1(1) m1(1) by (simp add: apply_op_dispatch)
qed simp

text \<open>C13. The property test \<open>quantity_conservation\<close> passes for every sequence of operations, not only for
  the ones it draws: after each operation the book passes \<open>assert_invariants\<close>, no ledger lookup fails,
  the ledger's resting orders add up to the book's, and
  \<open>submitted = 2 * filled + resting + cancelled + discarded\<close>. The quantities and prices are those the
  gateway lets through (not zero) and the arena's 32-bit slots are not exhausted. The final ledger
  holds exactly the book's orders.\<close>

theorem quantity_conserved:
  assumes "\<forall>op \<in> set ops. command_ok (op_command op)" and "length ops < 2 ^ 32"
  shows "\<exists>b m. quantity_conservation book_new conservation_model_default ops = Some (b, m) \<and>
    (\<forall>k. hm_get (cm_resting m) k = map_option (\<lambda>(sd, r). r_qty r) (a_find (abs_book b) k))"
proof -
  have "balanced (abs_book book_new) conservation_model_default"
    by (simp add: balanced_def table_of_def conservation_model_default_def gap_def hm_sum_def hm_ok_def hm_get_def)
  then obtain b m where bm: "quantity_conservation book_new conservation_model_default ops = Some (b, m)" "balanced (abs_book b) m"
    using quantity_conservation_from [OF engine_inv_new, of conservation_model_default ops] assms
    by (auto simp: engine_new_def book_new_def arena_new_def)
  have t: "table_of (abs_book b) (cm_resting m)" using bm(2) by (simp add: balanced_def)
  have "hm_get (cm_resting m) k = map_option (\<lambda>(sd, r). r_qty r) (a_find (abs_book b) k)" for k
  proof (cases "a_find (abs_book b) k")
    case None
    then have "\<not> a_present (abs_book b) k" by (auto simp: a_find_def a_present_def find_None_iff split: option.splits)
    then show ?thesis using None table_ofD(3) [OF t] by simp
  next
    case (Some x)
    then show ?thesis using table_ofD(2) [OF t] a_find_mem [of "abs_book b" k "fst x" "snd x"] by (cases x) auto
  qed
  then show ?thesis using bm(1) by blast
qed

theorem quantity_conserved_witness:
  "\<exists>b m. quantity_conservation book_new conservation_model_default
      [Op_Gtc 1 1 Sell 100 5, Op_Gtc 2 1 Buy 100 3, Op_Gtc 1 2 Buy 99 4, Op_Modify 1 1 98 1, Op_Market 3 1 Sell 5,
       Op_PostOnly 2 2 Buy 97 4, Op_MassCancel 2] = Some (b, m) \<and>
    (\<forall>k. hm_get (cm_resting m) k = map_option (\<lambda>(sd, r). r_qty r) (a_find (abs_book b) k))"
  by (rule quantity_conserved) (simp_all add: command_ok_def op_command_def)

end
