(* ===== verification/Micro_Bench.thy ===== *)
theory Micro_Bench
  imports Engine_Spec
begin

text \<open>
  The micro-benchmarks of \<open>core/benches/matching_engine.rs\<close>: the pre-warmed book and the operation each
  benchmark times on it. The lemmas show the shape of the warm book and that every benchmark exercises
  the path its comment names.
\<close>

section \<open>The warm book\<close>

definition LEVELS_PER_SIDE :: u64 where "LEVELS_PER_SIDE = 10"
definition ORDERS_PER_LEVEL :: u64 where "ORDERS_PER_LEVEL = 20"
definition MICRO_ACCOUNT_POOL :: u64 where "MICRO_ACCOUNT_POOL = 20"
definition WARM_ORDER_QTY :: u64 where "WARM_ORDER_QTY = 5"

definition bid_level :: "u64 \<Rightarrow> u64" where "bid_level i = 9990 - i * 10"
definition ask_level :: "u64 \<Rightarrow> u64" where "ask_level i = 10010 + i * 10"

text \<open>The variables of \<open>warm_book\<close>.\<close>

record warm =
  wm_book :: book
  wm_resting :: "(account_id \<times> order_id \<times> price \<times> side) list"
  wm_next_order_id :: "u64 list"
  wm_index :: u64

text \<open>A \<open>for\<close> loop whose body may panic.\<close>

fun for_in :: "'a list \<Rightarrow> ('a \<Rightarrow> 's \<Rightarrow> 's option) \<Rightarrow> 's \<Rightarrow> 's option" where
  "for_in [] body st = Some st"
| "for_in (x # xs) body st = Option.bind (body x st) (for_in xs body)"

definition warm_order :: "side \<Rightarrow> price \<Rightarrow> warm \<Rightarrow> warm option" where
  "warm_order side price st = do {
     let account = wm_index st mod MICRO_ACCOUNT_POOL + 1;
     n \<leftarrow> vec_get (wm_next_order_id st) (unat account);
     let order_id = n + 1;
     (b, _) \<leftarrow> submit_gtc (wm_book st) account order_id side price WARM_ORDER_QTY;
     Some \<lparr>wm_book = b, wm_resting = wm_resting st @ [(account, order_id, price, side)],
       wm_next_order_id = (wm_next_order_id st)[unat account := order_id], wm_index = wm_index st + 1\<rparr>
   }"

definition level_price :: "side \<Rightarrow> u64 \<Rightarrow> price" where
  "level_price side level = (case side of Buy \<Rightarrow> bid_level level | Sell \<Rightarrow> ask_level level)"

definition warm_init :: warm where
  "warm_init = \<lparr>wm_book = book_new, wm_resting = [], wm_next_order_id = replicate (unat (MICRO_ACCOUNT_POOL + 1)) 0,
     wm_index = 0\<rparr>"

definition warm_book :: "(book \<times> (account_id \<times> order_id \<times> price \<times> side) list) option" where
  "warm_book = do {
     st \<leftarrow> for_in [Buy, Sell] (\<lambda>side.
       for_in [0..<unat LEVELS_PER_SIDE] (\<lambda>level.
         for_in [0..<unat ORDERS_PER_LEVEL] (\<lambda>_. warm_order side (level_price side (of_nat level))))) warm_init;
     Some (wm_book st, wm_resting st)
   }"

definition micro_fresh_order_id :: "u64 \<Rightarrow> order_id" where
  "micro_fresh_order_id account_id = 1000000 + account_id"

section \<open>The operations timed\<close>

definition bench_submit :: "side \<Rightarrow> price \<Rightarrow> qty \<Rightarrow> book \<Rightarrow> book emitting" where
  "bench_submit side price qty b = submit_gtc b 999 (micro_fresh_order_id 999) side price qty"

definition bench_submit_no_match :: "book \<Rightarrow> book emitting" where
  "bench_submit_no_match = bench_submit Buy (bid_level 0) 1"

definition bench_submit_new_level :: "book \<Rightarrow> book emitting" where
  "bench_submit_new_level = bench_submit Buy 9985 1"

definition bench_submit_cross_one :: "book \<Rightarrow> book emitting" where
  "bench_submit_cross_one = bench_submit Sell (bid_level 0) WARM_ORDER_QTY"

definition bench_submit_sweep_n :: "book \<Rightarrow> book emitting" where
  "bench_submit_sweep_n = bench_submit Sell (bid_level (LEVELS_PER_SIDE - 1)) 250"

definition bench_cancel_random :: "book \<times> (account_id \<times> order_id \<times> price \<times> side) list \<Rightarrow> book emitting" where
  "bench_cancel_random wb = do {
     (account_id, order_id, _, _) \<leftarrow> vec_get (snd wb) 10;
     cancel (fst wb) account_id order_id
   }"

definition bench_modify :: "qty \<Rightarrow> book \<times> (account_id \<times> order_id \<times> price \<times> side) list \<Rightarrow> book emitting" where
  "bench_modify qty wb = do {
     (account_id, order_id, price, _) \<leftarrow> vec_get (snd wb) 210;
     modify (fst wb) account_id order_id price qty
   }"

definition bench_modify_decrease :: "book \<times> (account_id \<times> order_id \<times> price \<times> side) list \<Rightarrow> book emitting" where
  "bench_modify_decrease = bench_modify 2"

definition bench_modify_increase :: "book \<times> (account_id \<times> order_id \<times> price \<times> side) list \<Rightarrow> book emitting" where
  "bench_modify_increase = bench_modify 10"

definition bench_mass_cancel :: "book \<Rightarrow> book emitting" where
  "bench_mass_cancel b = mass_cancel b 1"

section \<open>The shape of the warm book\<close>

text \<open>The \<open>i\<close>-th order placed.\<close>

definition warm_side :: "nat \<Rightarrow> side" where
  "warm_side i = (if i < 200 then Buy else Sell)"

definition warm_price :: "nat \<Rightarrow> price" where
  "warm_price i = level_price (warm_side i) (of_nat (i mod 200 div 20))"

definition warm_rorder :: "nat \<Rightarrow> rorder" where
  "warm_rorder i = order_for (of_nat (i mod 20 + 1)) (of_nat (i div 20 + 1)) (warm_price i) 5"

definition warm_entry :: "nat \<Rightarrow> account_id \<times> order_id \<times> price \<times> side" where
  "warm_entry i = (of_nat (i mod 20 + 1), of_nat (i div 20 + 1), warm_price i, warm_side i)"

lemma for_in_append: "for_in (xs @ ys) body st = Option.bind (for_in xs body st) (for_in ys body)"
  by (induction xs arbitrary: st) (simp_all split: Option.bind_split)

text \<open>Nested loops are one loop over the pairs.\<close>

lemma for_in_nested:
  "for_in xs (\<lambda>x. for_in (ys x) (body x)) st = for_in (concat (map (\<lambda>x. map (Pair x) (ys x)) xs)) (\<lambda>(x, y). body x y) st"
proof (induction xs arbitrary: st)
  case (Cons x xs)
  have "for_in (map (Pair x) zs) (\<lambda>(x, y). body x y) st = for_in zs (body x) st" for zs st
    by (induction zs arbitrary: st) (simp_all split: Option.bind_split)
  then show ?case using Cons by (simp add: for_in_append split: Option.bind_split)
qed simp

lemma for_in_map: "for_in (map f xs) body st = for_in xs (\<lambda>x. body (f x)) st"
  by (induction xs arbitrary: st) (simp_all split: Option.bind_split)

lemma warm_plan:
  "concat (map (\<lambda>p. map (Pair p) [0..<20]) (concat (map (\<lambda>side. map (Pair side) [0..<10]) [Buy, Sell]))) =
     map (\<lambda>i. ((warm_side i, i mod 200 div 20), i mod 20)) [0..<400]"
  by (simp add: warm_side_def upt_rec [of 0] upt_rec [of 1] flip: One_nat_def)

declare upt_rec_numeral [simp del]

text \<open>The loop after \<open>k\<close> orders.\<close>

definition warm_upto :: "nat \<Rightarrow> side \<Rightarrow> rorder list" where
  "warm_upto k side = map warm_rorder (case side of Buy \<Rightarrow> [0..<min k 200] | Sell \<Rightarrow> [200..<k])"

definition ids_given :: "nat \<Rightarrow> u64 list" where
  "ids_given k = map (\<lambda>a. if a = 0 then 0 else of_nat ((k + 20 - a) div 20)) [0..<21]"

definition warm_inv :: "nat \<Rightarrow> warm \<Rightarrow> bool" where
  "warm_inv k st \<longleftrightarrow> book_inv (wm_book st) \<and> slot_count (wm_book st) \<le> k \<and>
     abs_book (wm_book st) = \<lparr>a_orders = warm_upto k, a_last = None\<rparr> \<and>
     wm_resting st = map warm_entry [0..<k] \<and> wm_next_order_id st = ids_given k \<and> wm_index st = of_nat k"

lemma warm_inv_init: "warm_inv 0 warm_init"
proof -
  have "warm_upto 0 = resting book_new" by (rule ext) (simp add: warm_upto_def split: side.splits)
  moreover have "slot_count book_new = 0" "book_last_trade book_new = None" by (simp_all add: book_new_def arena_new_def)
  moreover have "replicate 21 0 = ids_given 0" by code_simp
  ultimately show ?thesis by (simp add: warm_inv_def warm_init_def abs_book_def MICRO_ACCOUNT_POOL_def)
qed

lemma small_of_nat: "i < 400 \<Longrightarrow> j < 400 \<Longrightarrow> (of_nat i :: u64) = of_nat j \<longleftrightarrow> i = j"
  by (simp add: word_unat_eq_iff unsigned_of_nat take_bit_nat_eq_self)

lemma warm_account:
  assumes "k < 400"
  shows "(of_nat k :: u64) mod MICRO_ACCOUNT_POOL + 1 = of_nat (k mod 20 + 1)" and "unat (of_nat (k mod 20 + 1) :: u64) = k mod 20 + 1"
proof -
  have m: "k mod 20 < 20" by simp
  have "unat (of_nat k mod 20 :: u64) = unat (of_nat (k mod 20) :: u64)"
    using assms m by (simp add: unat_mod_distrib unsigned_of_nat take_bit_nat_eq_self)
  then show "(of_nat k :: u64) mod MICRO_ACCOUNT_POOL + 1 = of_nat (k mod 20 + 1)" by (simp add: MICRO_ACCOUNT_POOL_def)
  show "unat (of_nat (k mod 20 + 1) :: u64) = k mod 20 + 1" using m by (simp only: unsigned_of_nat) (simp add: take_bit_nat_eq_self)
qed

lemma ids_given_next:
  "ids_given k ! (k mod 20 + 1) + 1 = of_nat (k div 20 + 1)"
  "(ids_given k)[k mod 20 + 1 := of_nat (k div 20 + 1)] = ids_given (Suc k)"
proof -
  have m: "k mod 20 < 20" by simp
  have k: "k = 20 * (k div 20) + k mod 20" by simp
  have "k + 20 - (k mod 20 + 1) = 20 * (k div 20) + 19" "Suc k + 20 - (k mod 20 + 1) = 20 * (k div 20) + 20" using k m by linarith+
  then have eq: "(k + 20 - (k mod 20 + 1)) div 20 = k div 20" "(Suc k + 20 - (k mod 20 + 1)) div 20 = k div 20 + 1" by simp_all
  show "ids_given k ! (k mod 20 + 1) + 1 = of_nat (k div 20 + 1)"
    unfolding ids_given_def using m eq(1) by (simp del: One_nat_def)
  have other: "(k + 20 - a) div 20 = (Suc k + 20 - a) div 20" if "a \<le> 20" "a \<noteq> 0" "a \<noteq> k mod 20 + 1" for a
  proof -
    let ?x = "k mod 20 + 20 - a"
    have "k + 20 - a = 20 * (k div 20) + ?x" "Suc k + 20 - a = 20 * (k div 20) + Suc ?x" using k that(1) by linarith+
    moreover have "(20 * q + y) div 20 = q + y div 20" for q y :: nat by simp
    ultimately have "(k + 20 - a) div 20 = k div 20 + ?x div 20" "(Suc k + 20 - a) div 20 = k div 20 + Suc ?x div 20" by metis+
    moreover have "?x < 40" "?x \<noteq> 19" "?x \<noteq> 39" using m that by linarith+
    then have "?x div 20 = Suc ?x div 20" by (simp add: div_if)
    ultimately show ?thesis by simp
  qed
  show "(ids_given k)[k mod 20 + 1 := of_nat (k div 20 + 1)] = ids_given (Suc k)"
  proof (rule nth_equalityI)
    fix a assume "a < length ((ids_given k)[k mod 20 + 1 := of_nat (k div 20 + 1)])"
    then have a: "a \<le> 20" by (simp add: ids_given_def)
    then show "(ids_given k)[k mod 20 + 1 := of_nat (k div 20 + 1)] ! a = ids_given (Suc k) ! a"
      using m eq(2) other [of a] unfolding ids_given_def by (cases "a = k mod 20 + 1") (simp_all del: One_nat_def)
  qed (simp add: ids_given_def)
qed

lemma warm_key: "rkey (warm_rorder i) = (of_nat (i mod 20 + 1), of_nat (i div 20 + 1))" and warm_r_price: "r_price (warm_rorder i) = warm_price i"
  by (simp_all add: warm_rorder_def order_for_def rkey_def)

lemma warm_key_inj:
  assumes "i < 400" and "k < 400" and "rkey (warm_rorder i) = rkey (warm_rorder k)"
  shows "i = k"
proof -
  have "i mod 20 + 1 = k mod 20 + 1" "i div 20 + 1 = k div 20 + 1"
    using assms unfolding warm_key prod.inject by (simp_all only: small_of_nat less_mult_imp_div_less)
  then show ?thesis by (metis add_right_imp_eq div_mult_mod_eq)
qed

lemma level_price_nat:
  assumes "j < 10"
  shows "unat (level_price Buy (of_nat j)) = 9990 - 10 * j" and "unat (level_price Sell (of_nat j)) = 10010 + 10 * j"
proof -
  have "j = 0 \<or> j = 1 \<or> j = 2 \<or> j = 3 \<or> j = 4 \<or> j = 5 \<or> j = 6 \<or> j = 7 \<or> j = 8 \<or> j = 9" using assms by presburger
  then show "unat (level_price Buy (of_nat j)) = 9990 - 10 * j" "unat (level_price Sell (of_nat j)) = 10010 + 10 * j"
    by (auto simp: level_price_def bid_level_def ask_level_def)
qed

lemma warm_prices: "i < 400 \<Longrightarrow> unat (warm_price i) = (if i < 200 then 9990 - 10 * (i div 20) else 10010 + 10 * ((i - 200) div 20))"
proof (cases "i < 200")
  case True
  then show ?thesis using level_price_nat(1) [of "i div 20"] by (simp add: warm_price_def warm_side_def less_mult_imp_div_less)
next
  case False
  assume "i < 400"
  then have "i mod 200 = i - 200" "(i - 200) div 20 < 10" using False by (simp_all add: mod_if less_mult_imp_div_less)
  then show ?thesis using False level_price_nat(2) [of "(i - 200) div 20"] by (simp add: warm_price_def warm_side_def)
qed

lemma warm_price_order:
  "i \<le> j \<Longrightarrow> j < 200 \<Longrightarrow> warm_price j \<le> warm_price i"
  "200 \<le> i \<Longrightarrow> i \<le> j \<Longrightarrow> j < 400 \<Longrightarrow> warm_price i \<le> warm_price j"
  "i < 200 \<Longrightarrow> 200 \<le> j \<Longrightarrow> j < 400 \<Longrightarrow> warm_price i < warm_price j"
  by (simp_all add: word_le_nat_alt word_less_nat_alt warm_prices div_le_mono diff_le_mono diff_le_mono2)

lemma upto_mem:
  assumes "r \<in> set (warm_upto k side)"
  shows "\<exists>i < k. r = warm_rorder i \<and> (warm_side i = side)"
proof (cases side)
  case Buy
  then have "r \<in> warm_rorder ` {0..<min k 200}" using assms by (simp add: warm_upto_def)
  then obtain i where "r = warm_rorder i" "i < k" "i < 200" by (elim imageE) simp
  then show ?thesis using Buy by (auto simp: warm_side_def)
next
  case Sell
  then have "r \<in> warm_rorder ` {200..<k}" using assms by (simp add: warm_upto_def)
  then obtain i where "r = warm_rorder i" "i < k" "\<not> i < 200" by (elim imageE) simp
  then show ?thesis using Sell by (auto simp: warm_side_def)
qed

lemma warm_step:
  assumes inv: "warm_inv k st" and k: "k < 400"
  shows "\<exists>st'. warm_order (warm_side k) (warm_price k) st = Some st' \<and> warm_inv (Suc k) st'"
proof -
  let ?a = "of_nat (k mod 20 + 1) :: u64" and ?oid = "of_nat (k div 20 + 1) :: u64" and ?ab = "\<lparr>a_orders = warm_upto k, a_last = None\<rparr>"
  have i: "book_inv (wm_book st)" "slot_count (wm_book st) \<le> k" "abs_book (wm_book st) = ?ab"
    "wm_resting st = map warm_entry [0..<k]" "wm_next_order_id st = ids_given k" "wm_index st = of_nat k"
    using inv by (simp_all add: warm_inv_def)
  have room: "book_room (wm_book st)" using i(2) k by (intro book_room_slots) simp
  note mem = upto_mem [where k = k]
  have new: "\<not> a_present ?ab (?a, ?oid)"
  proof
    assume "a_present ?ab (?a, ?oid)"
    then obtain i where "i < k" "rkey (warm_rorder i) = rkey (warm_rorder k)"
      unfolding a_present_side [of _ _ Buy] warm_key [of k, symmetric] by (auto dest!: mem)
    then show False using warm_key_inj [of i k] k by simp
  qed
  have far: "\<not> crosses (warm_side k) (warm_price k) (r_price r)" if r: "r \<in> set (a_orders ?ab (opposite (warm_side k)))" for r
  proof -
    obtain i where "i < k" "r = warm_rorder i" "warm_side i = opposite (warm_side k)" using mem r by auto
    then show ?thesis using warm_price_order(3) [of i k] k by (auto simp: warm_r_price crosses_def warm_side_def split: if_splits)
  qed
  have behind: "ahead (warm_side k) (r_price r) (warm_price k)" if r: "r \<in> set (a_orders ?ab (warm_side k))" for r
  proof -
    obtain i where "i < k" "r = warm_rorder i" "warm_side i = warm_side k" using mem r by auto
    then show ?thesis using warm_price_order(1,2) [of i k] k by (auto simp: warm_r_price warm_side_def split: if_splits)
  qed
  have "warm_upto (Suc k) = (warm_upto k)(warm_side k := warm_upto k (warm_side k) @ [warm_rorder k])"
  proof (rule ext)
    fix side show "warm_upto (Suc k) side = ((warm_upto k)(warm_side k := warm_upto k (warm_side k) @ [warm_rorder k])) side"
      by (cases "k < 200"; cases side) (simp_all add: warm_upto_def warm_side_def min_def)
  qed
  then have sub: "a_submit_gtc ?ab ?a ?oid (warm_side k) (warm_price k) WARM_ORDER_QTY =
      (\<lparr>a_orders = warm_upto (Suc k), a_last = None\<rparr>, [Accepted ?a ?oid WARM_ORDER_QTY])"
    using a_submit_behind [OF new far behind, of WARM_ORDER_QTY] by (simp add: WARM_ORDER_QTY_def warm_rorder_def)
  obtain b' where b': "submit_gtc (wm_book st) ?a ?oid (warm_side k) (warm_price k) WARM_ORDER_QTY = Some (b', [Accepted ?a ?oid WARM_ORDER_QTY])"
    "book_inv b'" "abs_book b' = \<lparr>a_orders = warm_upto (Suc k), a_last = None\<rparr>" "slot_count b' \<le> Suc (slot_count (wm_book st))"
    using submit_gtc_refines [OF i(1) room, of ?a ?oid "warm_side k" "warm_price k" WARM_ORDER_QTY] sub
    by (auto simp: refines_def i(3))
  have get: "vec_get (wm_next_order_id st) (k mod 20 + 1) = Some (ids_given k ! (k mod 20 + 1))" by (simp add: i(5) ids_given_def)
  have "warm_order (warm_side k) (warm_price k) st =
      Some \<lparr>wm_book = b', wm_resting = map warm_entry [0..<k] @ [(?a, ?oid, warm_price k, warm_side k)],
        wm_next_order_id = ids_given (Suc k), wm_index = of_nat k + 1\<rparr>"
    unfolding warm_order_def i(6) Let_def warm_account [OF k] get bind.bind_lunit ids_given_next(1) b'(1)
    unfolding i(4,5) ids_given_next(2) by simp
  moreover have "map warm_entry [0..<k] @ [(?a, ?oid, warm_price k, warm_side k)] = map warm_entry [0..<Suc k]" by (simp add: warm_entry_def)
  ultimately show ?thesis using b'(2-4) i(2) by (simp add: warm_inv_def)
qed

lemma warm_run: "k \<le> 400 \<Longrightarrow> \<exists>st. for_in [0..<k] (\<lambda>i. warm_order (warm_side i) (warm_price i)) warm_init = Some st \<and> warm_inv k st"
proof (induction k)
  case (Suc k)
  then obtain st where "for_in [0..<k] (\<lambda>i. warm_order (warm_side i) (warm_price i)) warm_init = Some st" "warm_inv k st" by auto
  then show ?case using warm_step [of k st] Suc.prems by (auto simp: for_in_append)
qed (simp add: warm_inv_init)

theorem warm_book_shape:
  "\<exists>b. warm_book = Some (b, map warm_entry [0..<400]) \<and> book_inv b \<and> slot_count b \<le> 400 \<and>
     abs_book b = \<lparr>a_orders = (\<lambda>side. map warm_rorder (case side of Buy \<Rightarrow> [0..<200] | Sell \<Rightarrow> [200..<400])), a_last = None\<rparr>"
proof -
  let ?body = "\<lambda>i. warm_order (warm_side i) (warm_price i)"
  have "for_in [Buy, Sell] (\<lambda>side. for_in [0..<10] (\<lambda>level. for_in [0..<20] (\<lambda>_. warm_order side (level_price side (of_nat level))))) warm_init =
      for_in [0..<400] ?body warm_init"
    unfolding for_in_nested [of _ "\<lambda>_. [0..<10]"] case_prod_unfold
    unfolding for_in_nested [of _ "\<lambda>_. [0..<20]"] case_prod_unfold warm_plan for_in_map by (simp only: warm_price_def fst_conv snd_conv)
  moreover obtain st where "for_in [0..<400] ?body warm_init = Some st" "warm_inv 400 st" using warm_run [of 400] by blast
  moreover have "warm_upto 400 = (\<lambda>side. map warm_rorder (case side of Buy \<Rightarrow> [0..<200] | Sell \<Rightarrow> [200..<400]))"
    by (rule ext) (simp add: warm_upto_def split: side.splits)
  ultimately show ?thesis by (simp add: warm_book_def LEVELS_PER_SIDE_def ORDERS_PER_LEVEL_def warm_inv_def)
qed

section \<open>What the benchmarks exercise\<close>

definition warm_abs :: abook where
  "warm_abs = \<lparr>a_orders = (\<lambda>side. map warm_rorder (case side of Buy \<Rightarrow> [0..<200] | Sell \<Rightarrow> [200..<400])), a_last = None\<rparr>"

lemma warm_abs_upto: "warm_abs = \<lparr>a_orders = warm_upto 400, a_last = None\<rparr>"
proof -
  have "warm_upto 400 = (\<lambda>side. map warm_rorder (case side of Buy \<Rightarrow> [0..<200] | Sell \<Rightarrow> [200..<400]))"
    by (rule ext) (simp add: warm_upto_def split: side.splits)
  then show ?thesis by (simp add: warm_abs_def)
qed

lemma warm_sides: "a_orders warm_abs Buy = map warm_rorder [0..<200]" "a_orders warm_abs Sell = map warm_rorder [200..<400]"
    "a_last warm_abs = None"
  by (simp_all add: warm_abs_def)

lemma warm_mem:
  assumes "r \<in> set (a_orders warm_abs side)"
  obtains i where "i < 400" and "r = warm_rorder i" and "warm_side i = side"
  using upto_mem [of r 400 side] assms by (auto simp: warm_abs_upto)

lemma warm_fields: "r_account (warm_rorder i) = of_nat (i mod 20 + 1)" "r_id (warm_rorder i) = of_nat (i div 20 + 1)" "r_qty (warm_rorder i) = 5"
  by (simp_all add: warm_rorder_def order_for_def)

lemma warm_foreign: "r_account (warm_rorder i) \<noteq> 999"
proof -
  have "i mod 20 + 1 < 400" "(999 :: u64) = of_nat 999" by (simp_all add: less_imp_le_nat less_le_trans [OF mod_less_divisor])
  then show ?thesis unfolding warm_fields by (simp only: word_unat_eq_iff unsigned_of_nat) (simp add: take_bit_nat_eq_self)
qed

lemma warm_fresh: "\<not> a_present warm_abs (999, oid)"
proof
  assume "a_present warm_abs (999, oid)"
  then obtain r side where "r \<in> set (a_orders warm_abs side)" "rkey r = (999, oid)" unfolding a_present_side [of _ _ Buy] by auto
  then show False using warm_foreign by (auto simp: rkey_def elim: warm_mem)
qed

text \<open>A sweep that consumes whole orders of one size.\<close>

lemma a_sweep_whole:
  assumes "\<forall>r \<in> set pre. crosses side p (r_price r) \<and> r_account r \<noteq> a \<and> r_qty r = w" and "w \<noteq> 0" and "length pre * unat w < 2 ^ 64"
  shows "\<exists>lt' out. a_sweep a oid side p (pre @ post) lt (of_nat (length pre) * w) = ((post, lt', 0), out) \<and>
    fills_on (opposite side) out = map full_fill pre"
  using assms
proof (induction pre arbitrary: lt)
  case Nil
  then show ?case by (cases post) simp_all
next
  case (Cons r pre)
  let ?q = "of_nat (length (r # pre)) * w" and ?q' = "of_nat (length pre) * w"
  have q': "?q - w = ?q'" by (simp add: algebra_simps)
  have "unat (of_nat (length (r # pre) * unat w) :: u64) = length (r # pre) * unat w"
    using Cons.prems(3) by (simp only: unsigned_of_nat) (simp add: take_bit_nat_eq_self)
  moreover have "?q = of_nat (length (r # pre) * unat w)" by (simp add: algebra_simps)
  ultimately have le: "w \<le> ?q" by (simp add: word_le_nat_alt)
  then have ne: "?q \<noteq> 0" using Cons.prems(2) by auto
  obtain lt' out where "a_sweep a oid side p (pre @ post) (Some (r_price r)) ?q' = ((post, lt', 0), out)"
    "fills_on (opposite side) out = map full_fill pre"
    using Cons.IH [of "Some (r_price r)"] Cons.prems by auto
  moreover have "crosses side p (r_price r)" "r_account r \<noteq> a" "r_qty r = w" "min ?q w = w" using Cons.prems(1) le by (simp_all add: min_absorb2)
  ultimately show ?case using ne q' by (simp add: Let_def full_fill_def rkey_def del: of_nat_Suc)
qed

lemma warm_sweep:
  assumes n: "n \<le> 200" "length [0..<n] * 5 < 2 ^ 64" and q: "q = of_nat n * 5"
    and p: "\<And>i. i < n \<Longrightarrow> p \<le> warm_price i"
  shows "\<exists>lt out. a_submit_gtc warm_abs 999 oid Sell p q =
      (\<lparr>a_orders = (a_orders warm_abs)(Buy := map warm_rorder [n..<200]), a_last = lt\<rparr>, out @ [Accepted 999 oid 0]) \<and>
    fills_on Buy out = map (full_fill \<circ> warm_rorder) [0..<n]"
proof -
  have split: "a_orders warm_abs Buy = map warm_rorder [0..<n] @ map warm_rorder [n..<200]"
    using n upt_add_eq_append [of 0 n "200 - n"] by (simp add: warm_sides flip: map_append)
  have pre: "\<forall>r \<in> set (map warm_rorder [0..<n]). crosses Sell p (r_price r) \<and> r_account r \<noteq> 999 \<and> r_qty r = 5"
    using p by (auto simp: crosses_def warm_r_price warm_foreign warm_fields(3))
  obtain lt out where "a_sweep 999 oid Sell p (a_orders warm_abs Buy) None q = ((map warm_rorder [n..<200], lt, 0), out)"
    "fills_on Buy out = map full_fill (map warm_rorder [0..<n])"
    using a_sweep_whole [OF pre, of oid "map warm_rorder [n..<200]" None] n(2) by (auto simp: split q)
  then show ?thesis using warm_fresh by (simp add: a_submit_gtc_def a_match_def warm_sides(3))
qed

lemma warm_no_cross:
  assumes "p < 10010"
  shows "a_submit_gtc warm_abs 999 oid Buy p 1 = (a_add Buy (order_for 999 oid p 1) warm_abs, [Accepted 999 oid 1])"
proof -
  have "\<not> crosses Buy p (r_price r)" if r: "r \<in> set (a_orders warm_abs Sell)" for r
  proof -
    obtain i where i: "i < 400" "r = warm_rorder i" "200 \<le> i" using r by (elim warm_mem) (auto simp: warm_side_def split: if_splits)
    have "unat p < 10010" using assms by (simp add: word_less_nat_alt)
    then show ?thesis using i warm_prices [OF i(1)] by (simp add: crosses_def warm_r_price word_le_nat_alt)
  qed
  moreover have eq: "\<lparr>a_orders = a_orders warm_abs, a_last = None\<rparr> = warm_abs" by (simp add: warm_abs_def)
  ultimately show ?thesis using warm_fresh [of oid] a_sweep_uncrossing [of "a_orders warm_abs Sell" Buy p 999 oid None 1]
    by (simp add: a_submit_gtc_def a_match_def warm_sides(3) eq)
qed

lemma warm_find: "a_find warm_abs (11, 11) = Some (Sell, warm_rorder 210)"
proof -
  have key: "rkey (warm_rorder 210) = (11, 11)" by (simp add: warm_key)
  have d: "distinct (map rkey (a_orders warm_abs Sell))"
    unfolding warm_sides map_map distinct_map by (auto intro!: inj_onI warm_key_inj)
  have "warm_rorder 210 \<in> set (a_orders warm_abs Sell)" by (simp add: warm_sides)
  with find_key [OF d this] have "find (\<lambda>r. rkey r = (11, 11)) (a_orders warm_abs Sell) = Some (warm_rorder 210)" by (simp add: key)
  moreover have "find (\<lambda>r. rkey r = (11, 11)) (a_orders warm_abs Buy) = None"
  proof (rule find_None_iff [THEN iffD2], clarify)
    fix r assume "r \<in> set (a_orders warm_abs Buy)" "rkey r = (11, 11)"
    then obtain i where "i < 400" "warm_side i = Buy" "rkey (warm_rorder i) = rkey (warm_rorder 210)" using key by (auto elim: warm_mem)
    then show False using warm_key_inj [of i 210] by (simp add: warm_side_def)
  qed
  ultimately show ?thesis by (simp add: a_find_def)
qed

lemma warm_amend:
  assumes "q \<noteq> 0"
  shows "snd (a_modify warm_abs 11 11 (warm_price 210) q) = [Replaced 11 11 q (q \<le> 5)]"
proof (cases "q \<le> 5")
  case False
  let ?ab = "a_drop (11, 11) warm_abs"
  have "\<not> crosses Sell (warm_price 210) (r_price r)" if r: "r \<in> set (a_orders ?ab Buy)" for r
  proof -
    have "r \<in> set (a_orders warm_abs Buy)" using r by (auto simp: a_drop_def drop_key_def)
    then obtain i where "r = warm_rorder i" "i < 200" by (elim warm_mem) (auto simp: warm_side_def split: if_splits)
    then show ?thesis using warm_price_order(3) [of i 210] by (simp add: crosses_def warm_r_price)
  qed
  then have "a_sweep 11 11 Sell (warm_price 210) (a_orders ?ab Buy) (a_last ?ab) q = ((a_orders ?ab Buy, a_last ?ab, q), [])"
    by (rule a_sweep_uncrossing)
  then show ?thesis using False assms by (simp add: a_modify_def warm_find warm_fields warm_r_price a_match_def)
qed (use assms in \<open>simp add: a_modify_def warm_find warm_fields warm_r_price\<close>)

lemma warm_account_one:
  "filter (\<lambda>r. r_account r = 1) (map warm_rorder [0..<400]) = map warm_rorder (map ((*) 20) [0..<20])"
proof -
  have "r_account (warm_rorder i) = 1 \<longleftrightarrow> i mod 20 = 0" for i
  proof -
    have "of_nat (i mod 20 + 1) = (of_nat 1 :: u64) \<longleftrightarrow> i mod 20 + 1 = 1"
      by (rule small_of_nat) (simp_all add: less_le_trans [OF mod_less_divisor])
    then show ?thesis unfolding warm_fields by simp
  qed
  moreover have "filter (\<lambda>i. i mod 20 = 0) [0..<400] = map ((*) 20) [0..<20 :: nat]"
    by (simp add: upt_rec [of 0] upt_rec [of 1] upt_rec_numeral flip: One_nat_def)
  ultimately show ?thesis by (simp add: filter_map comp_def)
qed

text \<open>The same on a concrete book.\<close>

lemma warm_submit:
  assumes "book_inv b" and "book_room b" and "abs_book b = warm_abs"
    and "a_submit_gtc warm_abs 999 1000999 side p q = (ab, out)"
  shows "\<exists>b'. bench_submit side p q b = Some (b', out) \<and> abs_book b' = ab"
  using submit_gtc_refines [OF assms(1,2), of 999 1000999 side p q] assms(3,4)
  by (auto simp: bench_submit_def micro_fresh_order_id_def refines_def)

lemma warm_sweep_n:
  assumes b: "book_inv b" "book_room b" "abs_book b = warm_abs" and n: "n \<le> 200" and p: "\<And>i. i < n \<Longrightarrow> p \<le> warm_price i"
  shows "\<exists>b' out. bench_submit Sell p (of_nat n * 5) b = Some (b', out) \<and> fills_on Buy out = map (full_fill \<circ> warm_rorder) [0..<n] \<and>
    resting b' = (a_orders warm_abs)(Buy := map warm_rorder [n..<200])"
proof -
  have "length [0..<n] * 5 < 2 ^ 64" using n by simp
  from warm_sweep [OF n this refl p, of 1000999] obtain lt out where
    s: "a_submit_gtc warm_abs 999 1000999 Sell p (of_nat n * 5) =
        (\<lparr>a_orders = (a_orders warm_abs)(Buy := map warm_rorder [n..<200]), a_last = lt\<rparr>, out @ [Accepted 999 1000999 0])"
      "fills_on Buy out = map (full_fill \<circ> warm_rorder) [0..<n]" by blast
  from warm_submit [OF b s(1)] obtain b' where "bench_submit Sell p (of_nat n * 5) b = Some (b', out @ [Accepted 999 1000999 0])"
    "resting b' = (a_orders warm_abs)(Buy := map warm_rorder [n..<200])" by (auto simp: abs_book_def)
  then show ?thesis using s(2) by (intro exI [of _ b'] exI [of _ "out @ [Accepted 999 1000999 0]"]) simp
qed

text \<open>Every micro-benchmark times the path its comment names, on the book of 200 bids and 200 offers:
  appending to a level, opening a level, filling exactly one order, sweeping the first fifty, a cancel
  inside a level, an amend that keeps its place and one that loses it, a mass cancel of one order
  on each of the twenty levels.\<close>

theorem micro_benchmarks:
  "\<exists>b. warm_book = Some (b, map warm_entry [0..<400]) \<and>
     (\<exists>b'. bench_submit_no_match b = Some (b', [Accepted 999 1000999 1]) \<and> abs_book b' = a_add Buy (order_for 999 1000999 9990 1) warm_abs) \<and>
     (\<exists>b'. bench_submit_new_level b = Some (b', [Accepted 999 1000999 1]) \<and> abs_book b' = a_add Buy (order_for 999 1000999 9985 1) warm_abs) \<and>
     (\<exists>b' out. bench_submit_cross_one b = Some (b', out) \<and> fills_on Buy out = [full_fill (warm_rorder 0)] \<and>
        resting b' = (a_orders warm_abs)(Buy := map warm_rorder [1..<200])) \<and>
     (\<exists>b' out. bench_submit_sweep_n b = Some (b', out) \<and> fills_on Buy out = map (full_fill \<circ> warm_rorder) [0..<50] \<and>
        resting b' = (a_orders warm_abs)(Buy := map warm_rorder [50..<200])) \<and>
     (\<exists>b'. bench_cancel_random (b, map warm_entry [0..<400]) = Some (b', [Cancelled 11 1])) \<and>
     (\<exists>b'. bench_modify_decrease (b, map warm_entry [0..<400]) = Some (b', [Replaced 11 11 2 True])) \<and>
     (\<exists>b'. bench_modify_increase (b, map warm_entry [0..<400]) = Some (b', [Replaced 11 11 10 False])) \<and>
     (\<exists>b' ids. bench_mass_cancel b = Some (b', map (Cancelled 1) ids) \<and> length ids = 20)"
proof -
  obtain b where b: "warm_book = Some (b, map warm_entry [0..<400])" "book_inv b" "slot_count b \<le> 400" "abs_book b = warm_abs"
    using warm_book_shape unfolding warm_abs_def by blast
  have room: "book_room b" using b(3) by (intro book_room_slots) simp
  note submit = warm_submit [OF b(2) room b(4)]
  have "\<exists>b'. bench_submit_no_match b = Some (b', [Accepted 999 1000999 1]) \<and> abs_book b' = a_add Buy (order_for 999 1000999 9990 1) warm_abs"
    "\<exists>b'. bench_submit_new_level b = Some (b', [Accepted 999 1000999 1]) \<and> abs_book b' = a_add Buy (order_for 999 1000999 9985 1) warm_abs"
    unfolding bench_submit_no_match_def bench_submit_new_level_def bid_level_def
    by (rule submit, simp add: warm_no_cross)+
  moreover note sweep = warm_sweep_n [OF b(2) room b(4)]
  have "\<exists>b' out. bench_submit_cross_one b = Some (b', out) \<and> fills_on Buy out = [full_fill (warm_rorder 0)] \<and>
      resting b' = (a_orders warm_abs)(Buy := map warm_rorder [1..<200])"
    using sweep [of 1 9990] warm_prices [of 0]
    by (simp add: bench_submit_cross_one_def bid_level_def WARM_ORDER_QTY_def word_le_nat_alt)
  moreover have "\<exists>b' out. bench_submit_sweep_n b = Some (b', out) \<and> fills_on Buy out = map (full_fill \<circ> warm_rorder) [0..<50] \<and>
      resting b' = (a_orders warm_abs)(Buy := map warm_rorder [50..<200])"
    using sweep [of 50 9900] warm_prices by (simp add: bench_submit_sweep_n_def bid_level_def LEVELS_PER_SIDE_def word_le_nat_alt less_mult_imp_div_less)
  moreover have "a_present warm_abs (11, 1)" using a_presentI [of "warm_rorder 10" warm_abs Buy] by (simp add: warm_sides warm_key)
  then have "\<exists>b'. bench_cancel_random (b, map warm_entry [0..<400]) = Some (b', [Cancelled 11 1])"
    using cancel_refines [OF b(2), of 11 1] by (auto simp: bench_cancel_random_def warm_entry_def vec_get_def refines_def b(4) a_cancel_def)
  moreover have amend: "\<exists>b'. bench_modify q (b, map warm_entry [0..<400]) = Some (b', [Replaced 11 11 q (q \<le> 5)])" if "q \<noteq> 0" for q
    using modify_refines [OF b(2), of 11 11 "warm_price 210" q] warm_amend [OF that]
    by (auto simp: bench_modify_def warm_entry_def vec_get_def refines_def b(4))
  have "\<exists>b'. bench_modify_decrease (b, map warm_entry [0..<400]) = Some (b', [Replaced 11 11 2 True])"
    "\<exists>b'. bench_modify_increase (b, map warm_entry [0..<400]) = Some (b', [Replaced 11 11 10 False])"
    using amend [of 2] amend [of 10] by (simp_all add: bench_modify_decrease_def bench_modify_increase_def)
  moreover have "\<exists>b' ids. bench_mass_cancel b = Some (b', map (Cancelled 1) ids) \<and> length ids = 20"
  proof -
    have "resting b Buy @ resting b Sell = map warm_rorder [0..<400]"
      using b(4) upt_add_eq_append [of 0 200 200] by (simp add: abs_book_def warm_abs_def)
    then have "length (orders_of b 1) = 20" unfolding orders_of_def using warm_account_one by simp
    moreover obtain b' ids where "mass_cancel b 1 = Some (b', map (Cancelled 1) ids)" "mset ids = mset (map r_id (orders_of b 1))"
      using mass_cancel_spec [OF b(2), of 1] by blast
    ultimately show ?thesis using mset_eq_length by (fastforce simp: bench_mass_cancel_def)
  qed
  ultimately show ?thesis using b(1) by blast
qed

end
