(* ===== verification/Check_Exact.thy ===== *)
theory Check_Exact
  imports Book_Check
begin

text \<open>
  The converse of \<open>Book_Check.assert_invariants_pass\<close>: a book whose walks all succeed
  satisfies the representation invariant. What the walks cannot see is stated as the
  well-formedness of the containers themselves: the free list of the arena, the key order of
  the two side maps and the distinct keys of the two hash maps.
\<close>

section \<open>What a successful walk has seen\<close>

definition chain_ok :: "book \<Rightarrow> side \<Rightarrow> price \<Rightarrow> u32 \<Rightarrow> u32 list \<Rightarrow> bool" where
  "chain_ok b sd p pv q \<longleftrightarrow> linked (links (heap_of b)) pv q NULL \<and>
     (\<forall>s \<in> set q. \<exists>n. heap_of b s = Some n \<and> node_side n = sd \<and> node_price n = p \<and>
        node_qty n \<noteq> 0 \<and> p \<noteq> 0)"

lemma chain_ok_simps [simp]:
  "chain_ok b sd p pv []"
  "chain_ok b sd p pv (s # q) \<longleftrightarrow> (\<exists>n. heap_of b s = Some n \<and> node_prev n = pv \<and>
     node_next n = hd_or q NULL \<and> node_side n = sd \<and> node_price n = p \<and> node_qty n \<noteq> 0 \<and> p \<noteq> 0) \<and>
     chain_ok b sd p s q"
  by (auto simp: chain_ok_def links_def)

definition walk_result ::
    "book \<Rightarrow> side \<Rightarrow> price \<Rightarrow> u32 \<Rightarrow> u32 \<Rightarrow> u32 list \<Rightarrow> u64 \<Rightarrow> u32 list \<times> u64 \<times> u32 \<Rightarrow> bool" where
  "walk_result b sd p cur pv slots tot r \<longleftrightarrow>
     (\<exists>q. r = (slots @ q, tot + (\<Sum>s\<leftarrow>q. qty_at (heap_of b) s), last_or q pv) \<and>
        hd_or q NULL = cur \<and> chain_ok b sd p pv q)"

lemma walk_result_step:
  assumes "heap_of b cur = Some n" and "node_prev n = pv" and "node_price n = p"
    and "node_side n = sd" and "node_qty n \<noteq> 0" and "p \<noteq> 0"
    and "walk_result b sd p (node_next n) cur (slots @ [cur]) (tot + node_qty n) r"
  shows "walk_result b sd p cur pv slots tot r"
proof -
  obtain q where
    "r = ((slots @ [cur]) @ q, tot + node_qty n + (\<Sum>s\<leftarrow>q. qty_at (heap_of b) s), last_or q cur)"
    "hd_or q NULL = node_next n" "chain_ok b sd p cur q"
    using assms(7) unfolding walk_result_def by blast
  then show ?thesis unfolding walk_result_def using assms(1-6)
    by (intro exI [of _ "cur # q"]) (auto simp: qty_at_def [of _ cur] add.assoc)
qed

lemma walk_chainD:
  "walk_chain b sd p cur pv slots tot = Some r \<Longrightarrow> walk_result b sd p cur pv slots tot r"
proof (erule walk_chain.raw_induct [where P = walk_result, rotated])
  fix walk b side price cursor prev_slot slots tot y
  assume IH: "\<And>b side price cursor prev_slot slots tot y.
      walk b side price cursor prev_slot slots tot = Some y \<Longrightarrow>
      walk_result b side price cursor prev_slot slots tot y"
    and body: "(if cursor = NULL then Some (slots, tot, prev_slot)
      else do {
        node \<leftarrow> heap_of b cursor;
        assert_that (node_prev node = prev_slot);
        assert_that (node_price node = price);
        assert_that (node_side node = side);
        assert_that (node_qty node \<noteq> 0);
        assert_that (node_price node \<noteq> 0);
        walk b side price (node_next node) cursor (slots @ [cursor]) (tot + node_qty node)
      }) = Some y"
  show "walk_result b side price cursor prev_slot slots tot y"
  proof (cases "cursor = NULL")
    case True
    then show ?thesis using body by (auto simp: walk_result_def intro: exI [of _ "[]"])
  next
    case False
    then obtain n where n: "heap_of b cursor = Some n" "node_prev n = prev_slot"
      "node_price n = price" "node_side n = side" "node_qty n \<noteq> 0" "price \<noteq> 0"
      and rec: "walk b side price (node_next n) cursor (slots @ [cursor]) (tot + node_qty n) = Some y"
      using body by (auto simp: bind_eq_Some_iff)
    show ?thesis by (rule walk_result_step [OF n IH [OF rec]])
  qed
qed

lemma walk_levelD:
  assumes "walk_level b sd p l = Some q" and "\<not> level_is_empty l"
  shows "q \<noteq> []" and "level_view (heap_of b) q = Some l" and "chain_ok b sd p NULL q"
proof -
  obtain tot lst where w: "walk_chain b sd p (level_head l) NULL [] 0 = Some (q, tot, lst)"
    and l: "lst = level_tail l" "of_nat (length q) = level_count l" "tot = level_total_qty l"
    using assms(1) by (auto simp: walk_level_def bind_eq_Some_iff)
  show ne: "q \<noteq> []" using l(2) assms(2) by (auto simp: level_is_empty_def)
  then show "level_view (heap_of b) q = Some l" and "chain_ok b sd p NULL q"
    using walk_chainD [OF w] l
    by (cases q; cases l; auto simp: walk_result_def level_view_def last_or_def)+
qed

lemma insert_foundD:
  "insert_found slots found = Some r \<Longrightarrow> distinct found \<Longrightarrow> r = found @ slots \<and> distinct r"
proof (induction slots arbitrary: found)
  case (Cons s slots)
  then have "s \<notin> set found" "insert_found slots (found @ [s]) = Some r"
    by (auto simp: bind_eq_Some_iff)
  then have "r = (found @ [s]) @ slots" "distinct r" using Cons.IH [of "found @ [s]"] Cons.prems(2) by auto
  then show ?case by simp
qed simp

abbreviation walked_slots :: "book \<Rightarrow> side \<Rightarrow> price \<times> level \<Rightarrow> u32 list" where
  "walked_slots b sd e \<equiv> the (walk_level b sd (fst e) (snd e))"

lemma collect_levelsD:
  assumes "collect_levels b sd levels found = Some r" and "distinct found"
  shows "r = found @ concat (map (walked_slots b sd) levels) \<and> distinct r \<and>
    (\<forall>(p, l) \<in> set levels. walk_level b sd p l \<noteq> None)"
  using assms
proof (induction levels arbitrary: found)
  case (Cons e levels)
  obtain p l where e: "e = (p, l)" by fastforce
  obtain q f where q: "walk_level b sd p l = Some q" and f: "insert_found q found = Some f"
    and r: "collect_levels b sd levels f = Some r"
    using Cons.prems(1) e by (auto simp: bind_eq_Some_iff)
  note f' = insert_foundD [OF f Cons.prems(2)]
  have "r = f @ concat (map (walked_slots b sd) levels)" "distinct r"
      "\<forall>(p, l) \<in> set levels. walk_level b sd p l \<noteq> None"
    using Cons.IH [OF r] f' by blast+
  then show ?case using f' q e by simp
qed auto

lemma walk_accountD:
  assumes "walk_account b a idx slots w = Some r"
  shows "(\<forall>i < length slots. \<exists>n. heap_of b (slots ! i) = Some n \<and> node_account n = a \<and>
      unat (node_acct_idx n) = idx + i) \<and> r = w + (\<Sum>s\<leftarrow>slots. notional_at (heap_of b) s)"
  using assms
proof (induction slots arbitrary: idx w)
  case (Cons s slots)
  obtain n where n: "heap_of b s = Some n" "node_account n = a" "unat (node_acct_idx n) = idx"
    and rec: "walk_account b a (Suc idx) slots (w + notional_of (node_price n) (node_qty n)) = Some r"
    using Cons.prems by (auto simp: bind_eq_Some_iff)
  show ?case using Cons.IH [OF rec] n by (auto simp: notional_at_def add.assoc nth_Cons split: nat.split)
qed simp

section \<open>From the walks to the invariant\<close>

text \<open>Container well-formedness, which no walk can test.\<close>

definition containers_ok :: "book \<Rightarrow> bool" where
  "containers_ok b \<longleftrightarrow> arena_wf (book_arena b) \<and> bt_ok (book_bids b) \<and> bt_ok (book_asks b) \<and>
     hm_ok (book_order_index b) \<and> hm_ok (book_accounts b)"

lemma containers_ok_side: "containers_ok b \<Longrightarrow> bt_ok (side_map b sd)"
  by (cases sd) (simp_all add: containers_ok_def)

text \<open>The queues the walks return.\<close>

definition walked_queue :: "book \<Rightarrow> queues" where
  "walked_queue b sd p = (case bt_get (side_map b sd) p of None \<Rightarrow> []
     | Some l \<Rightarrow> the (walk_level b sd p l))"

definition levels_walked :: "book \<Rightarrow> side \<Rightarrow> bool" where
  "levels_walked b sd \<longleftrightarrow> (\<forall>(p, l) \<in> set (side_map b sd).
     \<not> level_is_empty l \<and> walk_level b sd p l \<noteq> None)"

lemma walked_queue_level:
  assumes "containers_ok b" and "levels_walked b sd"
  shows "bt_get (side_map b sd) p = level_view (heap_of b) (walked_queue b sd p)"
    and "chain_ok b sd p NULL (walked_queue b sd p)"
proof -
  have "bt_get (side_map b sd) p = level_view (heap_of b) (walked_queue b sd p) \<and>
      chain_ok b sd p NULL (walked_queue b sd p)"
  proof (cases "bt_get (side_map b sd) p")
    case None
    then show ?thesis by (simp add: walked_queue_def level_view_def)
  next
    case (Some l)
    then have "(p, l) \<in> set (side_map b sd)"
      using containers_ok_side [OF assms(1)] by (simp add: bt_get_Some_iff)
    then obtain q where "walk_level b sd p l = Some q" "\<not> level_is_empty l"
      using assms(2) by (auto simp: levels_walked_def)
    then show ?thesis using walk_levelD [of b sd p l q] Some by (simp add: walked_queue_def)
  qed
  then show "bt_get (side_map b sd) p = level_view (heap_of b) (walked_queue b sd p)"
    and "chain_ok b sd p NULL (walked_queue b sd p)" by simp_all
qed

lemma walked_slots_queue:
  assumes "containers_ok b"
  shows "concat (map (walked_slots b sd) (side_map b sd)) =
    concat (map (walked_queue b sd) (map fst (side_map b sd)))"
proof -
  have "walked_slots b sd e = walked_queue b sd (fst e)" if "e \<in> set (side_map b sd)" for e
  proof -
    have "bt_get (side_map b sd) (fst e) = Some (snd e)"
      using that containers_ok_side [OF assms] by (simp add: bt_get_Some_iff)
    then show ?thesis by (simp add: walked_queue_def)
  qed
  then show ?thesis by (simp add: comp_def cong: map_cong)
qed

lemma index_from_loops:
  assumes "hm_ok oi" and live: "F = {s. h s \<noteq> None}"
    and "\<forall>(k, s) \<in> set oi. s \<in> F \<and> (\<exists>n. h s = Some n \<and> k = (node_account n, node_id n))"
    and "\<forall>s \<in> F. \<exists>n. h s = Some n \<and> hm_get oi (node_account n, node_id n) = Some s"
  shows "index_ok h oi"
proof -
  have "\<exists>n. h s = Some n \<and> k = (node_account n, node_id n)" if "hm_get oi k = Some s" for k s
    using that assms(3) by (auto simp: hm_get_def dest: map_of_SomeD)
  then show ?thesis using assms(1,4) unfolding index_ok_def live by fastforce
qed

lemma accounts_from_loops:
  assumes "hm_ok (book_accounts b)"
    and "\<forall>s. heap_of b s \<noteq> None \<longrightarrow> (\<exists>n. heap_of b s = Some n \<and>
      (\<exists>e. hm_get (book_accounts b) (node_account n) = Some e \<and>
        unat (node_acct_idx n) < length (entry_slots e) \<and> entry_slots e ! unat (node_acct_idx n) = s))"
    and walks: "\<forall>(a, e) \<in> set (book_accounts b). walk_account b a 0 (entry_slots e) 0 = Some (entry_notional e)"
  shows "accounts_ok (heap_of b) (book_accounts b)"
proof (rule accounts_okI [OF assms(1)])
  show "\<exists>e. hm_get (book_accounts b) (node_account n) = Some e \<and>
      unat (node_acct_idx n) < length (entry_slots e) \<and> entry_slots e ! unat (node_acct_idx n) = s"
    if "heap_of b s = Some n" for s n using assms(2) that by fastforce
  show "(\<forall>i < length (entry_slots e). \<exists>n. heap_of b (entry_slots e ! i) = Some n \<and>
         node_account n = a \<and> unat (node_acct_idx n) = i) \<and>
      entry_notional e = (\<Sum>s\<leftarrow>entry_slots e. notional_at (heap_of b) s)"
    if "hm_get (book_accounts b) a = Some e" for a e
  proof -
    have "walk_account b a 0 (entry_slots e) 0 = Some (entry_notional e)"
      using walks that by (auto simp: hm_get_def dest: map_of_SomeD)
    from walk_accountD [OF this] show ?thesis by simp
  qed
qed

lemma bind_unit_Some:
  fixes m :: "unit option"
  shows "Option.bind m f = Some y \<longleftrightarrow> m = Some () \<and> f () = Some y"
  by (auto simp: bind_eq_Some_iff)

text \<open>What each loop of the check establishes.\<close>

lemma nonempty_loop:
  "for_each (\<lambda>(price, level). assert_that (\<not> level_is_empty level)) m = Some () \<longleftrightarrow>
     (\<forall>(p, l) \<in> set m. \<not> level_is_empty l)"
  unfolding for_each_Some by auto

lemma index_loop:
  "for_each (\<lambda>((account, order_id), slot). do {
       assert_that (slot \<in> set found);
       node \<leftarrow> arena_get (book_arena b) slot;
       assert_that (node_id node = order_id);
       assert_that (node_account node = account)
     }) oi = Some () \<longleftrightarrow>
   (\<forall>(k, s) \<in> set oi. s \<in> set found \<and> (\<exists>n. heap_of b s = Some n \<and> k = (node_account n, node_id n)))"
  unfolding for_each_Some by (intro ball_cong refl) (auto simp: bind_eq_Some_iff split: prod.splits)

lemma found_loop:
  "for_each (\<lambda>slot. do {
       node \<leftarrow> arena_get (book_arena b) slot;
       assert_that (hm_get (book_order_index b) (node_account node, node_id node) = Some slot)
     }) found = Some () \<longleftrightarrow>
   (\<forall>s \<in> set found. \<exists>n. heap_of b s = Some n \<and>
      hm_get (book_order_index b) (node_account n, node_id n) = Some s)"
  unfolding for_each_Some by (simp add: bind_eq_Some_iff)

lemma account_slot_loop:
  "for_each (\<lambda>slot. do {
       node \<leftarrow> arena_get (book_arena b) slot;
       entry \<leftarrow> hm_get (book_accounts b) (node_account node);
       assert_that (vec_get (entry_slots entry) (unat (node_acct_idx node)) = Some slot)
     }) found = Some () \<longleftrightarrow>
   (\<forall>s \<in> set found. \<exists>n. heap_of b s = Some n \<and> (\<exists>e. hm_get (book_accounts b) (node_account n) = Some e \<and>
      unat (node_acct_idx n) < length (entry_slots e) \<and> entry_slots e ! unat (node_acct_idx n) = s))"
  unfolding for_each_Some by (simp add: bind_eq_Some_iff)

lemma account_walk_loop:
  "for_each (\<lambda>(account, entry). do {
       walked \<leftarrow> walk_account b account 0 (entry_slots entry) 0;
       assert_that (walked = entry_notional entry)
     }) acc = Some () \<longleftrightarrow>
   (\<forall>(a, e) \<in> set acc. walk_account b a 0 (entry_slots e) 0 = Some (entry_notional e))"
  unfolding for_each_Some by (intro ball_cong refl) (auto simp: bind_eq_Some_iff split: prod.splits)

lemma touch_check:
  "(case (bb, ba) of (Some bid, Some ask) \<Rightarrow> assert_that (bid < ask) | _ \<Rightarrow> Some ()) = Some () \<longleftrightarrow>
     (\<forall>bid ask. bb = Some bid \<longrightarrow> ba = Some ask \<longrightarrow> bid < ask)"
  by (simp split: option.splits)

lemmas check_loops = nonempty_loop index_loop found_loop account_slot_loop account_walk_loop touch_check

lemma assert_invariantsD:
  assumes "assert_invariants b = Some ()"
  obtains found where "levels_walked b Buy" "levels_walked b Sell"
    and "distinct found"
    and "found = concat (map (walked_slots b Buy) (book_bids b)) @
      concat (map (walked_slots b Sell) (book_asks b))"
    and "arena_len (book_arena b) = length found"
    and "\<forall>(k, s) \<in> set (book_order_index b). s \<in> set found \<and>
      (\<exists>n. heap_of b s = Some n \<and> k = (node_account n, node_id n))"
    and "\<forall>s \<in> set found. \<exists>n. heap_of b s = Some n \<and>
      hm_get (book_order_index b) (node_account n, node_id n) = Some s"
    and "\<forall>s \<in> set found. \<exists>n. heap_of b s = Some n \<and>
      (\<exists>e. hm_get (book_accounts b) (node_account n) = Some e \<and>
        unat (node_acct_idx n) < length (entry_slots e) \<and> entry_slots e ! unat (node_acct_idx n) = s)"
    and "\<forall>(a, e) \<in> set (book_accounts b). walk_account b a 0 (entry_slots e) 0 = Some (entry_notional e)"
    and "\<forall>bid ask. best_bid b = Some bid \<longrightarrow> best_ask b = Some ask \<longrightarrow> bid < ask"
proof -
  obtain f found where ne: "\<forall>(p, l) \<in> set (book_bids b). \<not> level_is_empty l"
      "\<forall>(p, l) \<in> set (book_asks b). \<not> level_is_empty l"
    and f: "collect_levels b Buy (book_bids b) [] = Some f"
    and found: "collect_levels b Sell (book_asks b) f = Some found"
    and rest: "arena_len (book_arena b) = length found"
      "\<forall>(k, s) \<in> set (book_order_index b). s \<in> set found \<and>
        (\<exists>n. heap_of b s = Some n \<and> k = (node_account n, node_id n))"
      "\<forall>s \<in> set found. \<exists>n. heap_of b s = Some n \<and>
        hm_get (book_order_index b) (node_account n, node_id n) = Some s"
      "\<forall>s \<in> set found. \<exists>n. heap_of b s = Some n \<and>
        (\<exists>e. hm_get (book_accounts b) (node_account n) = Some e \<and>
          unat (node_acct_idx n) < length (entry_slots e) \<and> entry_slots e ! unat (node_acct_idx n) = s)"
      "\<forall>(a, e) \<in> set (book_accounts b). walk_account b a 0 (entry_slots e) 0 = Some (entry_notional e)"
      "\<forall>bid ask. best_bid b = Some bid \<longrightarrow> best_ask b = Some ask \<longrightarrow> bid < ask"
    using assms unfolding assert_invariants_def bind_unit_Some bind_eq_Some_iff assert_that_Some check_loops
    by (elim exE conjE) (rule that; assumption)
  have bids: "f = concat (map (walked_slots b Buy) (book_bids b))" "distinct f"
      "\<forall>(p, l) \<in> set (book_bids b). walk_level b Buy p l \<noteq> None"
    using collect_levelsD [OF f] by auto
  have asks: "found = f @ concat (map (walked_slots b Sell) (book_asks b))" "distinct found"
      "\<forall>(p, l) \<in> set (book_asks b). walk_level b Sell p l \<noteq> None"
    using collect_levelsD [OF found bids(2)] by blast+
  have "levels_walked b Buy" "levels_walked b Sell"
    using ne bids(3) asks(3) by (auto simp: levels_walked_def)
  moreover have "found = concat (map (walked_slots b Buy) (book_bids b)) @
      concat (map (walked_slots b Sell) (book_asks b))"
    using bids(1) asks(1) by simp
  ultimately show thesis using asks(2) rest that by blast
qed

lemma found_queue:
  assumes ok: "containers_ok b" and found: "found = concat (map (walked_slots b Buy) (book_bids b)) @
      concat (map (walked_slots b Sell) (book_asks b))"
  shows "s \<in> set found \<longleftrightarrow> (\<exists>sd p. s \<in> set (walked_queue b sd p))"
    and "distinct found \<Longrightarrow> distinct (walked_queue b sd p)"
proof -
  have key: "p \<in> fst ` set (side_map b sd)" if "walked_queue b sd p \<noteq> []" for sd p
    using that bt_get_None_iff [of "side_map b sd" p]
    by (cases "bt_get (side_map b sd) p") (auto simp: walked_queue_def)
  have side: "set (concat (map (walked_slots b sd) (side_map b sd))) =
      (\<Union>p. set (walked_queue b sd p))" for sd
  proof -
    have "p \<in> set (map fst (side_map b sd))" if "x \<in> set (walked_queue b sd p)" for x p
      using key [of sd p] that by (cases "walked_queue b sd p") simp_all
    then show ?thesis unfolding walked_slots_queue [OF ok] set_concat set_map [of "walked_queue b sd"]
      by blast
  qed
  show "s \<in> set found \<longleftrightarrow> (\<exists>sd p. s \<in> set (walked_queue b sd p))"
    using side [of Buy] side [of Sell] by (auto simp: found) (metis side.exhaust)
  assume "distinct found"
  then have "distinct (concat (map (walked_slots b sd) (side_map b sd)))"
    by (cases sd) (simp_all add: found)
  then show "distinct (walked_queue b sd p)"
    unfolding walked_slots_queue [OF ok] using key [of sd p]
    by (cases "walked_queue b sd p = []") (auto simp: distinct_concat_iff)
qed

lemma live_found:
  assumes ok: "containers_ok b" and walked: "levels_walked b Buy" "levels_walked b Sell"
    and found: "found = concat (map (walked_slots b Buy) (book_bids b)) @
      concat (map (walked_slots b Sell) (book_asks b))"
    and dist: "distinct found" and len: "arena_len (book_arena b) = length found"
  shows "set found = {s. heap_of b s \<noteq> None}"
proof (rule card_subset_eq)
  have "levels_walked b sd" for sd using walked by (cases sd) simp_all
  then show "set found \<subseteq> {s. heap_of b s \<noteq> None}"
    using walked_queue_level(2) [OF ok] by (fastforce simp: found_queue(1) [OF ok found] chain_ok_def)
  show "card (set found) = card {s. heap_of b s \<noteq> None}"
    using arena_len_card ok len distinct_card [OF dist] by (simp add: containers_ok_def)
qed simp

lemma walked_queues_ok:
  assumes ok: "containers_ok b" and walked: "levels_walked b Buy" "levels_walked b Sell"
    and found: "found = concat (map (walked_slots b Buy) (book_bids b)) @
      concat (map (walked_slots b Sell) (book_asks b))"
    and dist: "distinct found" and live: "set found = {s. heap_of b s \<noteq> None}"
  shows "queues_ok (heap_of b) (walked_queue b)" and "levels_ok (heap_of b) (walked_queue b) b"
    and "qtys_ok (heap_of b)"
proof -
  let ?Q = "walked_queue b"
  have walked': "levels_walked b sd" for sd using walked by (cases sd) simp_all
  note view = walked_queue_level [OF ok walked']
  have mem: "\<exists>n. heap_of b s = Some n \<and> node_side n = sd \<and> node_price n = p \<and> node_qty n \<noteq> 0"
    if "s \<in> set (?Q sd p)" for s sd p
    using view(2) [where sd = sd and p = p] that by (auto simp: chain_ok_def)
  have lives: "s \<in> set (?Q (node_side n) (node_price n)) \<and> node_qty n \<noteq> 0"
    if "heap_of b s = Some n" for s n
  proof -
    have "s \<in> set found" using that by (simp add: live)
    then obtain sd p where "s \<in> set (?Q sd p)" using found_queue(1) [OF ok found] by blast
    then show ?thesis using mem that by fastforce
  qed
  show "queues_ok (heap_of b) ?Q"
    unfolding queues_ok_def using mem lives found_queue(2) [OF ok found dist] view(2)
    by (fastforce simp: chain_ok_def)
  show "levels_ok (heap_of b) ?Q b"
    unfolding levels_ok_def using containers_ok_side [OF ok] view(1) by blast
  show "qtys_ok (heap_of b)" using lives by (auto simp: qtys_ok_def)
qed

theorem assert_invariants_inv:
  assumes ok: "containers_ok b" and pass: "assert_invariants b = Some ()"
  shows "book_rep b (walked_queue b)"
proof (rule assert_invariantsD [OF pass])
  fix found
  assume walked: "levels_walked b Buy" "levels_walked b Sell" and dist: "distinct found"
    and found: "found = concat (map (walked_slots b Buy) (book_bids b)) @
      concat (map (walked_slots b Sell) (book_asks b))"
    and len: "arena_len (book_arena b) = length found"
    and loops: "\<forall>(k, s) \<in> set (book_order_index b). s \<in> set found \<and>
        (\<exists>n. heap_of b s = Some n \<and> k = (node_account n, node_id n))"
      "\<forall>s \<in> set found. \<exists>n. heap_of b s = Some n \<and>
        hm_get (book_order_index b) (node_account n, node_id n) = Some s"
      "\<forall>s \<in> set found. \<exists>n. heap_of b s = Some n \<and>
        (\<exists>e. hm_get (book_accounts b) (node_account n) = Some e \<and>
          unat (node_acct_idx n) < length (entry_slots e) \<and> entry_slots e ! unat (node_acct_idx n) = s)"
      "\<forall>(a, e) \<in> set (book_accounts b). walk_account b a 0 (entry_slots e) 0 = Some (entry_notional e)"
  note live = live_found [OF ok walked found dist len]
  have maps: "hm_ok (book_order_index b)" "hm_ok (book_accounts b)"
    using ok by (simp_all add: containers_ok_def)
  have "index_ok (heap_of b) (book_order_index b)"
    by (rule index_from_loops [OF maps(1) live loops(1,2)])
  moreover have "accounts_ok (heap_of b) (book_accounts b)"
    by (rule accounts_from_loops [OF maps(2) _ loops(4)]) (use loops(3) in \<open>simp add: live\<close>)
  ultimately show ?thesis
    using ok walked_queues_ok [OF ok walked found dist live] by (simp add: book_rep_def containers_ok_def)
qed

section \<open>Exactness\<close>

lemma assert_invariants_prices:
  assumes ok: "containers_ok b" and pass: "assert_invariants b = Some ()"
  shows "prices_ok b"
proof -
  note rep = assert_invariants_inv [OF assms]
  have "levels_walked b sd" for sd by (rule assert_invariantsD [OF pass]) (cases sd; simp)
  note view = walked_queue_level(2) [OF ok this]
  have "node_price n \<noteq> 0" if "heap_of b s = Some n" for s n
  proof -
    have "s \<in> set (walked_queue b (node_side n) (node_price n))"
      using that queues_okD(1) [OF book_repD(2) [OF rep]] by blast
    then show ?thesis
      using view [where sd = "node_side n" and p = "node_price n"] by (auto simp: chain_ok_def)
  qed
  then show ?thesis unfolding prices_ok_def by (metis resting_memE [OF rep] order_of_simps(3))
qed

lemma assert_invariants_uncrossed:
  assumes ok: "containers_ok b" and pass: "assert_invariants b = Some ()"
  shows "a_uncrossed (abs_book b)"
proof -
  note rep = assert_invariants_inv [OF assms]
  have best: "bid < ask" if "best_bid b = Some bid" "best_ask b = Some ask" for bid ask
    by (rule assert_invariantsD [OF pass]) (use that in blast)
  have "r_price x < r_price y" if xy: "x \<in> set (resting b Buy)" "y \<in> set (resting b Sell)" for x y
  proof -
    obtain x0 xs y0 ys where rs: "resting b Buy = x0 # xs" "resting b Sell = y0 # ys"
      using xy by (cases "resting b Buy"; cases "resting b Sell") auto
    have "r_price x \<le> r_price x0" "r_price y0 \<le> r_price y"
      using xy rs resting_sorted [OF rep, of Buy] resting_sorted [OF rep, of Sell]
      by (auto simp: prio_sorted_def)
    moreover have "r_price x0 < r_price y0" using best rs best_prices [OF rep] by simp
    ultimately show ?thesis by simp
  qed
  then show ?thesis by (simp add: a_uncrossed_def abs_book_def)
qed

text \<open>C3. The program's own invariant check is exact. For a book of well-formed containers
  (free list, sorted side maps, distinct hash keys), \<open>assert_invariants\<close> returns without a
  panic if and only if the book satisfies the representation invariant, rests no order at price
  zero and is not crossed: no corruption of links, level totals, order index, account index or
  notionals passes it, and no sound book fails it.\<close>

theorem assert_invariants_exact:
  "containers_ok b \<and> assert_invariants b = Some () \<longleftrightarrow>
     book_inv b \<and> prices_ok b \<and> a_uncrossed (abs_book b)"
proof
  assume "containers_ok b \<and> assert_invariants b = Some ()"
  then show "book_inv b \<and> prices_ok b \<and> a_uncrossed (abs_book b)"
    using book_invI [OF assert_invariants_inv] assert_invariants_prices assert_invariants_uncrossed by blast
next
  assume inv: "book_inv b \<and> prices_ok b \<and> a_uncrossed (abs_book b)"
  then have rep: "book_rep b (queue_of b)" by (simp add: book_inv_def)
  have "containers_ok b"
    using book_repD(1,4,5) [OF rep] levels_okD(1) [OF book_repD(3) [OF rep], of Buy]
      levels_okD(1) [OF book_repD(3) [OF rep], of Sell]
    by (simp add: containers_ok_def index_ok_def accounts_ok_def)
  then show "containers_ok b \<and> assert_invariants b = Some ()" using inv assert_invariants_pass by blast
qed

end
