(* ===== verification/Book_Tests.thy ===== *)
theory Book_Tests
  imports Book_Check
begin

text \<open>
  The unit tests of \<open>core/src/book.rs\<close>, transcribed: each test is a program over the book's
  operations that returns \<open>Some ()\<close> when every assertion holds and \<open>None\<close> when one
  panics. The theorems run them, which validates the definitions of the book against the
  behaviour its authors wrote down; a \<open>should_panic\<close> test must return \<open>None\<close>.
\<close>

section \<open>assert_invariants catches corruption\<close>

definition book_with_one_resting_order :: book where
  "book_with_one_resting_order =
     (let slot = 0;
          node = \<lparr>node_id = 1, node_account = 1, node_price = 100, node_qty = 5, node_side = Buy,
            node_prev = NULL, node_next = NULL, node_acct_idx = 0\<rparr>;
          level = \<lparr>level_head = slot, level_tail = slot, level_total_qty = 5, level_count = 1\<rparr>;
          entry = \<lparr>entry_slots = [slot], entry_notional = 100 * 5\<rparr>
      in book_new\<lparr>book_arena := (book_arena book_new)\<lparr>arena_slots := [Some node]\<rparr>,
           book_bids := bt_insert 100 level [], book_order_index := hm_insert (1, 1) slot [],
           book_accounts := hm_insert 1 entry []\<rparr>)"

definition empty_book_satisfies_invariants :: "unit option" where
  "empty_book_satisfies_invariants = assert_invariants book_new"

definition single_resting_order_satisfies_invariants :: "unit option" where
  "single_resting_order_satisfies_invariants = assert_invariants book_with_one_resting_order"

definition empty_level_left_in_map_is_caught :: "unit option" where
  "empty_level_left_in_map_is_caught =
     assert_invariants (book_new\<lparr>book_bids := bt_insert 100 level_default []\<rparr>)"

definition wrong_cached_count_is_caught :: "unit option" where
  "wrong_cached_count_is_caught = do {
     let book = book_with_one_resting_order;
     level \<leftarrow> bt_get (book_bids book) 100;
     assert_invariants (book\<lparr>book_bids := bt_insert 100 (level\<lparr>level_count := 2\<rparr>) (book_bids book)\<rparr>)
   }"

definition wrong_cached_total_qty_is_caught :: "unit option" where
  "wrong_cached_total_qty_is_caught = do {
     let book = book_with_one_resting_order;
     level \<leftarrow> bt_get (book_bids book) 100;
     assert_invariants
       (book\<lparr>book_bids := bt_insert 100 (level\<lparr>level_total_qty := 999\<rparr>) (book_bids book)\<rparr>)
   }"

definition push_node :: "node \<Rightarrow> book \<Rightarrow> book" where
  "push_node node book = book\<lparr>book_arena := (book_arena book)
     \<lparr>arena_slots := arena_slots (book_arena book) @ [Some node]\<rparr>\<rparr>"

definition orphan_arena_node_is_caught :: "unit option" where
  "orphan_arena_node_is_caught = assert_invariants (push_node
     \<lparr>node_id = 2, node_account = 1, node_price = 100, node_qty = 1, node_side = Buy,
      node_prev = NULL, node_next = NULL, node_acct_idx = 1\<rparr> book_with_one_resting_order)"

definition missing_order_index_entry_is_caught :: "unit option" where
  "missing_order_index_entry_is_caught =
     assert_invariants (book_with_one_resting_order\<lparr>book_order_index := []\<rparr>)"

definition wrong_acct_idx_is_caught :: "unit option" where
  "wrong_acct_idx_is_caught = do {
     let book = book_with_one_resting_order;
     arena \<leftarrow> arena_modify (book_arena book) 0 (\<lambda>n. n\<lparr>node_acct_idx := 7\<rparr>);
     assert_invariants (book\<lparr>book_arena := arena\<rparr>)
   }"

definition wrong_account_notional_is_caught :: "unit option" where
  "wrong_account_notional_is_caught = do {
     let book = book_with_one_resting_order;
     entry \<leftarrow> hm_get (book_accounts book) 1;
     assert_invariants
       (book\<lparr>book_accounts := hm_insert 1 (entry\<lparr>entry_notional := 999\<rparr>) (book_accounts book)\<rparr>)
   }"

definition crossed_book_is_caught :: "unit option" where
  "crossed_book_is_caught =
     (let book = push_node \<lparr>node_id = 2, node_account = 2, node_price = 99, node_qty = 3, node_side = Sell,
            node_prev = NULL, node_next = NULL, node_acct_idx = 0\<rparr> book_with_one_resting_order;
          slot = 1;
          level = \<lparr>level_head = slot, level_tail = slot, level_total_qty = 3, level_count = 1\<rparr>;
          entry = \<lparr>entry_slots = [slot], entry_notional = 99 * 3\<rparr>
      in assert_invariants (book\<lparr>book_asks := bt_insert 99 level (book_asks book),
           book_order_index := hm_insert (2, 2) slot (book_order_index book),
           book_accounts := hm_insert 2 entry (book_accounts book)\<rparr>))"

lemma invariant_tests:
  "empty_book_satisfies_invariants = Some ()"
  "single_resting_order_satisfies_invariants = Some ()"
  "empty_level_left_in_map_is_caught = None"
  "wrong_cached_count_is_caught = None"
  "wrong_cached_total_qty_is_caught = None"
  "orphan_arena_node_is_caught = None"
  "missing_order_index_entry_is_caught = None"
  "wrong_acct_idx_is_caught = None"
  "wrong_account_notional_is_caught = None"
  "crossed_book_is_caught = None"
  by code_simp+

section \<open>submit_gtc, cancel and mass_cancel\<close>

definition submit_with_no_crossing_rests_in_full :: "unit option" where
  "submit_with_no_crossing_rests_in_full = do {
     (book, events) \<leftarrow> submit_gtc book_new 1 1 Buy 100 5;
     assert_that (events = [Accepted 1 1 5]);
     assert_invariants book;
     assert_that (best_bid book = Some 100)
   }"

definition fifo_within_a_level :: "unit option" where
  "fifo_within_a_level = do {
     (book, _) \<leftarrow> submit_gtc book_new 1 1 Sell 100 2;
     (book, _) \<leftarrow> submit_gtc book 2 2 Sell 100 2;
     (book, _) \<leftarrow> submit_gtc book 3 3 Sell 100 2;
     assert_invariants book;
     (book, events) \<leftarrow> submit_gtc book 9 100 Buy 100 5;
     assert_that (events =
       [Filled 9 100 Buy 100 2 3 State_PartiallyFilled, Filled 1 1 Sell 100 2 0 State_Filled,
        Trade 100 2 Buy,
        Filled 9 100 Buy 100 2 1 State_PartiallyFilled, Filled 2 2 Sell 100 2 0 State_Filled,
        Trade 100 2 Buy,
        Filled 9 100 Buy 100 1 0 State_Filled, Filled 3 3 Sell 100 1 1 State_PartiallyFilled,
        Trade 100 1 Buy,
        Accepted 9 100 0]);
     assert_invariants book;
     assert_that (best_ask book = Some 100)
   }"

fun filled_account :: "event \<Rightarrow> account_id option" where
  "filled_account (Filled account_id order_id side price qty resting_qty state) = Some account_id"
| "filled_account _ = None"

fun filled_price :: "event \<Rightarrow> price option" where
  "filled_price (Filled account_id order_id side price qty resting_qty state) = Some price"
| "filled_price _ = None"

definition is_maker_fill :: "account_id \<Rightarrow> event \<Rightarrow> bool" where
  "is_maker_fill taker e = (case filled_account e of Some account_id \<Rightarrow> account_id \<noteq> taker | None \<Rightarrow> False)"

definition last_event :: "event list \<Rightarrow> event option" where
  "last_event events = (if events = [] then None else Some (last events))"

definition sweep_across_levels :: "unit option" where
  "sweep_across_levels = do {
     (book, _) \<leftarrow> submit_gtc book_new 1 1 Sell 100 3;
     (book, _) \<leftarrow> submit_gtc book 2 2 Sell 101 3;
     (book, _) \<leftarrow> submit_gtc book 3 3 Sell 102 3;
     assert_invariants book;
     (book, events) \<leftarrow> submit_gtc book 9 100 Buy 102 7;
     let maker_fills = filter (is_maker_fill 9) events;
     assert_that (maker_fills =
       [Filled 1 1 Sell 100 3 0 State_Filled, Filled 2 2 Sell 101 3 0 State_Filled,
        Filled 3 3 Sell 102 1 2 State_PartiallyFilled]);
     assert_that (last_event events = Some (Accepted 9 100 0));
     assert_invariants book;
     assert_that (best_ask book = Some 102)
   }"

definition maker_price_execution :: "unit option" where
  "maker_price_execution = do {
     (book, _) \<leftarrow> submit_gtc book_new 1 1 Sell 100 5;
     (book, events) \<leftarrow> submit_gtc book 2 2 Buy 105 5;
     assert_that (list_ex (\<lambda>e. filled_price e = Some 100) events);
     assert_that (\<not> list_ex (\<lambda>e. filled_price e = Some 105) events);
     assert_invariants book
   }"

definition partial_fill_rests_remainder :: "unit option" where
  "partial_fill_rests_remainder = do {
     (book, _) \<leftarrow> submit_gtc book_new 1 1 Sell 100 3;
     (book, events) \<leftarrow> submit_gtc book 2 2 Buy 100 10;
     assert_that (last_event events = Some (Accepted 2 2 7));
     assert_invariants book;
     assert_that (best_ask book = None);
     assert_that (best_bid book = Some 100)
   }"

fun filled_order :: "event \<Rightarrow> order_id option" where
  "filled_order (Filled account_id order_id side price qty resting_qty state) = Some order_id"
| "filled_order _ = None"

definition surviving_maker_order :: "book \<Rightarrow> order_id list option" where
  "surviving_maker_order book = do {
     (book, events) \<leftarrow> submit_gtc book 999 999 Buy 100 4;
     Some (List.map_filter (\<lambda>e. if is_maker_fill 999 e then filled_order e else None) events)
   }"

definition three_makers :: "book option" where
  "three_makers = do {
     (book, _) \<leftarrow> submit_gtc book_new 10 1 Sell 100 2;
     (book, _) \<leftarrow> submit_gtc book 11 2 Sell 100 2;
     (book, _) \<leftarrow> submit_gtc book 12 3 Sell 100 2;
     assert_invariants book;
     Some book
   }"

definition cancel_from_head_of_level :: "unit option" where
  "cancel_from_head_of_level = do {
     book \<leftarrow> three_makers;
     (book, events) \<leftarrow> cancel book 10 1;
     assert_that (events = [Cancelled 10 1]);
     assert_invariants book;
     makers \<leftarrow> surviving_maker_order book;
     assert_that (makers = [2, 3])
   }"

definition cancel_from_middle_of_level :: "unit option" where
  "cancel_from_middle_of_level = do {
     book \<leftarrow> three_makers;
     (book, events) \<leftarrow> cancel book 11 2;
     assert_that (events = [Cancelled 11 2]);
     assert_invariants book;
     makers \<leftarrow> surviving_maker_order book;
     assert_that (makers = [1, 3])
   }"

definition cancel_from_tail_of_level :: "unit option" where
  "cancel_from_tail_of_level = do {
     book \<leftarrow> three_makers;
     (book, events) \<leftarrow> cancel book 12 3;
     assert_that (events = [Cancelled 12 3]);
     assert_invariants book;
     makers \<leftarrow> surviving_maker_order book;
     assert_that (makers = [1, 2])
   }"

definition cancel_empties_a_level :: "unit option" where
  "cancel_empties_a_level = do {
     (book, _) \<leftarrow> submit_gtc book_new 1 1 Sell 100 5;
     assert_invariants book;
     assert_that (best_ask book = Some 100);
     (book, _) \<leftarrow> cancel book 1 1;
     assert_invariants book;
     assert_that (best_ask book = None)
   }"

definition cancel_wrong_account_and_unknown_id_reject_identically :: "unit option" where
  "cancel_wrong_account_and_unknown_id_reject_identically = do {
     (book, _) \<leftarrow> submit_gtc book_new 1 1 Sell 100 5;
     assert_invariants book;
     (book, wrong_account) \<leftarrow> cancel book 2 1;
     (book, unknown_id) \<leftarrow> cancel book 2 999;
     assert_that (wrong_account = [Rejected 2 1 UnknownOrderId]);
     assert_that (unknown_id = [Rejected 2 999 UnknownOrderId]);
     assert_invariants book;
     assert_that (best_ask book = Some 100)
   }"

definition cancel_middle_then_mass_cancel_emits_both_survivors :: "unit option" where
  "cancel_middle_then_mass_cancel_emits_both_survivors = do {
     (book, _) \<leftarrow> submit_gtc book_new 1 1 Sell 100 1;
     (book, _) \<leftarrow> submit_gtc book 1 2 Sell 101 1;
     (book, _) \<leftarrow> submit_gtc book 1 3 Sell 102 1;
     assert_invariants book;
     (book, cancel_events) \<leftarrow> cancel book 1 2;
     assert_that (cancel_events = [Cancelled 1 2]);
     assert_invariants book;
     (book, mass_events) \<leftarrow> mass_cancel book 1;
     assert_that (mass_events = [Cancelled 1 1, Cancelled 1 3]);
     assert_invariants book;
     assert_that (best_ask book = None)
   }"

definition mass_cancel_on_account_with_no_orders_is_a_noop :: "unit option" where
  "mass_cancel_on_account_with_no_orders_is_a_noop = do {
     (book, events) \<leftarrow> mass_cancel book_new 42;
     assert_that (events = []);
     assert_invariants book;
     (book, _) \<leftarrow> submit_gtc book 7 1 Sell 100 5;
     (book, _) \<leftarrow> cancel book 7 1;
     (book, events) \<leftarrow> mass_cancel book 7;
     assert_that (events = []);
     assert_invariants book
   }"

definition mass_cancel_leaves_other_accounts_untouched :: "unit option" where
  "mass_cancel_leaves_other_accounts_untouched = do {
     (book, _) \<leftarrow> submit_gtc book_new 1 1 Sell 100 3;
     (book, _) \<leftarrow> submit_gtc book 2 2 Sell 101 3;
     assert_invariants book;
     (book, events) \<leftarrow> mass_cancel book 1;
     assert_that (events = [Cancelled 1 1]);
     assert_invariants book;
     assert_that (best_ask book = Some 101);
     (book, wrong) \<leftarrow> cancel book 1 2;
     assert_that (wrong = [Rejected 1 2 UnknownOrderId]);
     assert_invariants book
   }"

definition notional_updates_on_rest_cancel_and_fill :: "unit option" where
  "notional_updates_on_rest_cancel_and_fill = do {
     (book, _) \<leftarrow> submit_gtc book_new 1 1 Sell 100 5;
     entry \<leftarrow> hm_get (book_accounts book) 1;
     assert_that (entry_notional entry = 500);
     assert_invariants book;
     (book, _) \<leftarrow> submit_gtc book 2 2 Buy 100 2;
     entry \<leftarrow> hm_get (book_accounts book) 1;
     assert_that (entry_notional entry = 300);
     assert_invariants book;
     (book, _) \<leftarrow> cancel book 1 1;
     entry \<leftarrow> hm_get (book_accounts book) 1;
     assert_that (entry_notional entry = 0);
     assert_invariants book
   }"

definition duplicate_order_id_for_same_account_is_rejected :: "unit option" where
  "duplicate_order_id_for_same_account_is_rejected = do {
     (book, _) \<leftarrow> submit_gtc book_new 1 1 Sell 100 5;
     (book, events) \<leftarrow> submit_gtc book 1 1 Sell 101 3;
     assert_that (events = [Rejected 1 1 DuplicateOrderId]);
     assert_invariants book;
     assert_that (best_ask book = Some 100)
   }"

definition same_order_id_across_different_accounts_both_succeed_independently :: "unit option" where
  "same_order_id_across_different_accounts_both_succeed_independently = do {
     (book, account1_events) \<leftarrow> submit_gtc book_new 1 1 Sell 100 5;
     (book, account2_events) \<leftarrow> submit_gtc book 2 1 Buy 90 3;
     assert_that (account1_events = [Accepted 1 1 5]);
     assert_that (account2_events = [Accepted 2 1 3]);
     assert_invariants book;
     assert_that (best_ask book = Some 100);
     assert_that (best_bid book = Some 90);
     (book, cancel1) \<leftarrow> cancel book 1 1;
     assert_that (cancel1 = [Cancelled 1 1]);
     assert_invariants book;
     assert_that (best_ask book = None);
     assert_that (best_bid book = Some 90);
     (book, cancel2) \<leftarrow> cancel book 2 1;
     assert_that (cancel2 = [Cancelled 2 1]);
     assert_invariants book;
     assert_that (best_bid book = None)
   }"

lemma gtc_tests:
  "submit_with_no_crossing_rests_in_full = Some ()"
  "fifo_within_a_level = Some ()"
  "sweep_across_levels = Some ()"
  "maker_price_execution = Some ()"
  "partial_fill_rests_remainder = Some ()"
  "cancel_from_head_of_level = Some ()"
  "cancel_from_middle_of_level = Some ()"
  "cancel_from_tail_of_level = Some ()"
  "cancel_empties_a_level = Some ()"
  "cancel_wrong_account_and_unknown_id_reject_identically = Some ()"
  "cancel_middle_then_mass_cancel_emits_both_survivors = Some ()"
  "mass_cancel_on_account_with_no_orders_is_a_noop = Some ()"
  "mass_cancel_leaves_other_accounts_untouched = Some ()"
  "notional_updates_on_rest_cancel_and_fill = Some ()"
  "duplicate_order_id_for_same_account_is_rejected = Some ()"
  "same_order_id_across_different_accounts_both_succeed_independently = Some ()"
  by code_simp+

section \<open>IOC, FOK, market and post-only orders\<close>

definition ioc_discards_remainder :: "unit option" where
  "ioc_discards_remainder = do {
     (book, _) \<leftarrow> submit_gtc book_new 1 1 Sell 100 3;
     (book, events) \<leftarrow> submit_ioc book 2 2 Buy 100 10;
     assert_that (last_event events = Some (Accepted 2 2 0));
     assert_invariants book;
     assert_that (best_ask book = None);
     assert_that (best_bid book = None)
   }"

definition ioc_with_no_crossing_discards_everything :: "unit option" where
  "ioc_with_no_crossing_discards_everything = do {
     (book, events) \<leftarrow> submit_ioc book_new 1 1 Buy 100 5;
     assert_that (events = [Accepted 1 1 0]);
     assert_invariants book;
     assert_that (best_bid book = None)
   }"

definition fok_all_or_nothing_fills_when_fully_fillable :: "unit option" where
  "fok_all_or_nothing_fills_when_fully_fillable = do {
     (book, _) \<leftarrow> submit_gtc book_new 1 1 Sell 100 5;
     (book, events) \<leftarrow> submit_fok book 2 2 Buy 100 5;
     assert_that (last_event events = Some (Accepted 2 2 0));
     assert_invariants book;
     assert_that (best_ask book = None)
   }"

definition fok_rejects_when_not_fully_fillable :: "unit option" where
  "fok_rejects_when_not_fully_fillable = do {
     (book, _) \<leftarrow> submit_gtc book_new 1 1 Sell 100 3;
     (book, events) \<leftarrow> submit_fok book 2 2 Buy 100 5;
     assert_that (events = [Rejected 2 2 NotFullyFillable]);
     assert_invariants book;
     assert_that (best_ask book = Some 100)
   }"

definition fok_rejects_when_all_crossable_depth_is_the_aggressor_own :: "unit option" where
  "fok_rejects_when_all_crossable_depth_is_the_aggressor_own = do {
     (book, _) \<leftarrow> submit_gtc book_new 1 1 Sell 100 5;
     (book, events) \<leftarrow> submit_fok book 1 2 Buy 100 5;
     assert_that (events = [Rejected 1 2 NotFullyFillable]);
     assert_invariants book;
     assert_that (best_ask book = Some 100)
   }"

definition fok_precheck_counts_only_foreign_depth_behind_self_depth :: "unit option" where
  "fok_precheck_counts_only_foreign_depth_behind_self_depth = do {
     (book, _) \<leftarrow> submit_gtc book_new 1 1 Sell 100 2;
     (book, _) \<leftarrow> submit_gtc book 2 2 Sell 100 4;
     (book, events) \<leftarrow> submit_fok book 1 3 Buy 100 4;
     assert_that (events =
       [Cancelled 1 1, Filled 1 3 Buy 100 4 0 State_Filled, Filled 2 2 Sell 100 4 0 State_Filled,
        Trade 100 4 Buy, Accepted 1 3 0]);
     assert_invariants book;
     assert_that (best_ask book = None)
   }"

definition market_partial_fills_and_discards :: "unit option" where
  "market_partial_fills_and_discards = do {
     (book, _) \<leftarrow> submit_gtc book_new 1 1 Sell 100 3;
     (book, events) \<leftarrow> submit_market book 2 2 Buy 10;
     assert_that (events =
       [Filled 2 2 Buy 100 3 7 State_PartiallyFilled, Filled 1 1 Sell 100 3 0 State_Filled,
        Trade 100 3 Buy, Accepted 2 2 0]);
     assert_invariants book;
     assert_that (best_ask book = None);
     assert_that (best_bid book = None)
   }"

definition market_against_empty_book_fills_nothing_and_never_rejects :: "unit option" where
  "market_against_empty_book_fills_nothing_and_never_rejects = do {
     (book, events) \<leftarrow> submit_market book_new 1 1 Buy 5;
     assert_that (events = [Accepted 1 1 0]);
     assert_invariants book;
     assert_that (best_bid book = None)
   }"

definition postonly_rejects_a_crossing_order :: "unit option" where
  "postonly_rejects_a_crossing_order = do {
     (book, _) \<leftarrow> submit_gtc book_new 1 1 Sell 100 5;
     (book, events) \<leftarrow> submit_postonly book 2 2 Buy 100 3;
     assert_that (events = [Rejected 2 2 WouldCross]);
     assert_invariants book;
     assert_that (best_ask book = Some 100)
   }"

definition postonly_rests_when_not_crossing :: "unit option" where
  "postonly_rests_when_not_crossing = do {
     (book, _) \<leftarrow> submit_gtc book_new 1 1 Sell 100 5;
     (book, events) \<leftarrow> submit_postonly book 2 2 Buy 99 3;
     assert_that (events = [Accepted 2 2 3]);
     assert_invariants book;
     assert_that (best_bid book = Some 99)
   }"

definition postonly_crossing_only_its_own_resting_order_cancels_and_rests :: "unit option" where
  "postonly_crossing_only_its_own_resting_order_cancels_and_rests = do {
     (book, _) \<leftarrow> submit_gtc book_new 1 1 Sell 100 5;
     (book, events) \<leftarrow> submit_postonly book 1 2 Buy 100 3;
     assert_that (events = [Cancelled 1 1, Accepted 1 2 3]);
     assert_invariants book;
     assert_that (best_ask book = None);
     assert_that (best_bid book = Some 100)
   }"

definition postonly_crossing_self_owned_and_foreign_depth_cancels_self_and_still_rejects :: "unit option" where
  "postonly_crossing_self_owned_and_foreign_depth_cancels_self_and_still_rejects = do {
     (book, _) \<leftarrow> submit_gtc book_new 2 1 Sell 100 2;
     (book, _) \<leftarrow> submit_gtc book 1 2 Sell 100 3;
     assert_invariants book;
     (book, events) \<leftarrow> submit_postonly book 2 3 Buy 100 5;
     assert_that (events = [Cancelled 2 1, Rejected 2 3 WouldCross]);
     assert_invariants book;
     assert_that (best_ask book = Some 100);
     let remaining_ask_qty = sum_list (map (\<lambda>(_, l). level_total_qty l) (book_asks book));
     assert_that (remaining_ask_qty = 3)
   }"

lemma kind_tests:
  "ioc_discards_remainder = Some ()"
  "ioc_with_no_crossing_discards_everything = Some ()"
  "fok_all_or_nothing_fills_when_fully_fillable = Some ()"
  "fok_rejects_when_not_fully_fillable = Some ()"
  "fok_rejects_when_all_crossable_depth_is_the_aggressor_own = Some ()"
  "fok_precheck_counts_only_foreign_depth_behind_self_depth = Some ()"
  "market_partial_fills_and_discards = Some ()"
  "market_against_empty_book_fills_nothing_and_never_rejects = Some ()"
  "postonly_rejects_a_crossing_order = Some ()"
  "postonly_rests_when_not_crossing = Some ()"
  "postonly_crossing_only_its_own_resting_order_cancels_and_rests = Some ()"
  "postonly_crossing_self_owned_and_foreign_depth_cancels_self_and_still_rejects = Some ()"
  by code_simp+

section \<open>Modification\<close>

definition fills_account :: "account_id \<Rightarrow> event list \<Rightarrow> bool" where
  "fills_account account events = list_ex (\<lambda>e. filled_account e = Some account) events"

definition modify_decrease_retains_priority :: "unit option" where
  "modify_decrease_retains_priority = do {
     (book, _) \<leftarrow> submit_gtc book_new 1 1 Sell 100 5;
     (book, _) \<leftarrow> submit_gtc book 2 2 Sell 100 3;
     assert_invariants book;
     (book, events) \<leftarrow> modify book 1 1 100 2;
     assert_that (events = [Replaced 1 1 2 True]);
     assert_invariants book;
     (book, fills) \<leftarrow> submit_gtc book 9 99 Buy 100 2;
     assert_that (fills_account 1 fills);
     assert_that (\<not> fills_account 2 fills)
   }"

definition modify_increase_loses_priority :: "unit option" where
  "modify_increase_loses_priority = do {
     (book, _) \<leftarrow> submit_gtc book_new 1 1 Sell 100 2;
     (book, _) \<leftarrow> submit_gtc book 2 2 Sell 100 3;
     assert_invariants book;
     (book, events) \<leftarrow> modify book 1 1 100 5;
     assert_that (events = [Replaced 1 1 5 False]);
     assert_invariants book;
     (book, fills) \<leftarrow> submit_gtc book 9 99 Buy 100 3;
     assert_that (fills_account 2 fills);
     assert_that (\<not> fills_account 1 fills)
   }"

definition modify_price_change_without_crossing_moves_to_new_level :: "unit option" where
  "modify_price_change_without_crossing_moves_to_new_level = do {
     (book, _) \<leftarrow> submit_gtc book_new 1 1 Buy 90 5;
     assert_invariants book;
     (book, events) \<leftarrow> modify book 1 1 95 5;
     assert_that (events = [Replaced 1 1 5 False]);
     assert_invariants book;
     assert_that (best_bid book = Some 95)
   }"

definition modify_price_change_crosses_emits_replaced_then_filled :: "unit option" where
  "modify_price_change_crosses_emits_replaced_then_filled = do {
     (book, _) \<leftarrow> submit_gtc book_new 1 1 Buy 90 5;
     (book, _) \<leftarrow> submit_gtc book 2 2 Sell 95 3;
     assert_invariants book;
     (book, events) \<leftarrow> modify book 1 1 100 5;
     assert_that (events =
       [Replaced 1 1 5 False, Filled 1 1 Buy 95 3 2 State_PartiallyFilled,
        Filled 2 2 Sell 95 3 0 State_Filled, Trade 95 3 Buy]);
     assert_invariants book;
     assert_that (best_bid book = Some 100);
     assert_that (best_ask book = None)
   }"

definition modify_rejects_zero_quantity :: "unit option" where
  "modify_rejects_zero_quantity = do {
     (book, _) \<leftarrow> submit_gtc book_new 1 1 Buy 100 5;
     (book, events) \<leftarrow> modify book 1 1 100 0;
     assert_that (events = [Rejected 1 1 ZeroQuantity]);
     assert_invariants book;
     assert_that (best_bid book = Some 100)
   }"

definition modify_ownership_rejected_identically_to_unknown_id :: "unit option" where
  "modify_ownership_rejected_identically_to_unknown_id = do {
     (book, _) \<leftarrow> submit_gtc book_new 1 1 Sell 100 5;
     (book, wrong_account) \<leftarrow> modify book 2 1 100 3;
     (book, unknown_id) \<leftarrow> modify book 2 999 100 3;
     assert_that (wrong_account = [Rejected 2 1 UnknownOrderId]);
     assert_that (unknown_id = [Rejected 2 999 UnknownOrderId]);
     assert_invariants book;
     assert_that (best_ask book = Some 100)
   }"

lemma modify_tests:
  "modify_decrease_retains_priority = Some ()"
  "modify_increase_loses_priority = Some ()"
  "modify_price_change_without_crossing_moves_to_new_level = Some ()"
  "modify_price_change_crosses_emits_replaced_then_filled = Some ()"
  "modify_rejects_zero_quantity = Some ()"
  "modify_ownership_rejected_identically_to_unknown_id = Some ()"
  by code_simp+

section \<open>Self-trade prevention\<close>

definition stp_cancels_resting_side :: "unit option" where
  "stp_cancels_resting_side = do {
     (book, _) \<leftarrow> submit_gtc book_new 1 1 Sell 100 5;
     (book, events) \<leftarrow> submit_gtc book 1 2 Buy 100 3;
     assert_that (events = [Cancelled 1 1, Accepted 1 2 3]);
     assert_invariants book;
     assert_that (best_bid book = Some 100);
     assert_that (best_ask book = None)
   }"

definition stp_continues_past_a_cancelled_maker :: "unit option" where
  "stp_continues_past_a_cancelled_maker = do {
     (book, _) \<leftarrow> submit_gtc book_new 1 1 Sell 100 3;
     (book, _) \<leftarrow> submit_gtc book 2 2 Sell 100 4;
     assert_invariants book;
     (book, events) \<leftarrow> submit_gtc book 1 3 Buy 100 5;
     assert_that (events =
       [Cancelled 1 1, Filled 1 3 Buy 100 4 1 State_PartiallyFilled,
        Filled 2 2 Sell 100 4 0 State_Filled, Trade 100 4 Buy, Accepted 1 3 1]);
     assert_invariants book;
     assert_that (best_ask book = None);
     assert_that (best_bid book = Some 100)
   }"

definition stp_across_consecutive_same_account_levels :: "unit option" where
  "stp_across_consecutive_same_account_levels = do {
     (book, _) \<leftarrow> submit_gtc book_new 1 1 Sell 100 2;
     (book, _) \<leftarrow> submit_gtc book 1 2 Sell 101 3;
     assert_invariants book;
     (book, events) \<leftarrow> submit_gtc book 1 3 Buy 101 10;
     assert_that (events = [Cancelled 1 1, Cancelled 1 2, Accepted 1 3 10]);
     assert_invariants book;
     assert_that (best_ask book = None);
     assert_that (best_bid book = Some 101)
   }"

lemma stp_tests:
  "stp_cancels_resting_side = Some ()"
  "stp_continues_past_a_cancelled_maker = Some ()"
  "stp_across_consecutive_same_account_levels = Some ()"
  by code_simp+

section \<open>Accessors\<close>

fun is_trade :: "event \<Rightarrow> bool" where
  "is_trade (Trade price qty taker_side) = True"
| "is_trade _ = False"

definition last_trade_is_none_until_a_fill_happens :: "unit option" where
  "last_trade_is_none_until_a_fill_happens = do {
     assert_that (book_last_trade book_new = None);
     (book, _) \<leftarrow> submit_gtc book_new 1 1 Sell 100 5;
     assert_that (book_last_trade book = None);
     (book, _) \<leftarrow> submit_gtc book 2 2 Buy 100 5;
     assert_that (book_last_trade book = Some 100)
   }"

definition last_trade_reflects_the_most_recent_fill :: "unit option" where
  "last_trade_reflects_the_most_recent_fill = do {
     (book, _) \<leftarrow> submit_gtc book_new 1 1 Sell 100 5;
     (book, _) \<leftarrow> submit_gtc book 1 2 Sell 105 5;
     (book, _) \<leftarrow> submit_gtc book 2 3 Buy 105 10;
     assert_that (book_last_trade book = Some 105)
   }"

definition trade_price_matches_last_trade_for_every_fill_in_a_sweep :: "unit option" where
  "trade_price_matches_last_trade_for_every_fill_in_a_sweep = do {
     (book, _) \<leftarrow> submit_gtc book_new 1 1 Sell 100 3;
     (book, _) \<leftarrow> submit_gtc book 1 2 Sell 105 3;
     (book, events) \<leftarrow> submit_gtc book 2 3 Buy 105 6;
     let trades = filter is_trade events;
     assert_that (trades = [Trade 100 3 Buy, Trade 105 3 Buy]);
     assert_that (book_last_trade book = Some 105)
   }"

definition stp_cancellation_produces_no_trade :: "unit option" where
  "stp_cancellation_produces_no_trade = do {
     (book, _) \<leftarrow> submit_gtc book_new 1 1 Sell 100 5;
     (book, events) \<leftarrow> submit_gtc book 1 2 Buy 100 3;
     assert_that (\<not> list_ex is_trade events);
     assert_that (book_last_trade book = None)
   }"

definition account_open_order_count_and_notional_are_zero_for_an_unseen_account :: "unit option" where
  "account_open_order_count_and_notional_are_zero_for_an_unseen_account = do {
     assert_that (account_open_order_count book_new 1 = 0);
     assert_that (account_notional book_new 1 = 0)
   }"

definition account_open_order_count_and_notional_reflect_resting_orders :: "unit option" where
  "account_open_order_count_and_notional_reflect_resting_orders = do {
     (book, _) \<leftarrow> submit_gtc book_new 1 1 Sell 100 5;
     (book, _) \<leftarrow> submit_gtc book 1 2 Sell 200 3;
     assert_that (account_open_order_count book 1 = 2);
     assert_that (account_notional book 1 = 100 * 5 + 200 * 3)
   }"

definition resting_order_snapshot_reflects_current_price_and_qty :: "unit option" where
  "resting_order_snapshot_reflects_current_price_and_qty = do {
     (book, _) \<leftarrow> submit_gtc book_new 1 1 Sell 100 5;
     assert_that (resting_order_snapshot book 1 1 = Some (100, 5));
     (book, _) \<leftarrow> modify book 1 1 100 2;
     assert_that (resting_order_snapshot book 1 1 = Some (100, 2))
   }"

definition resting_order_snapshot_is_none_for_unknown_or_wrong_account :: "unit option" where
  "resting_order_snapshot_is_none_for_unknown_or_wrong_account = do {
     (book, _) \<leftarrow> submit_gtc book_new 1 1 Sell 100 5;
     assert_that (resting_order_snapshot book 1 999 = None);
     assert_that (resting_order_snapshot book 2 1 = None)
   }"

lemma accessor_tests:
  "last_trade_is_none_until_a_fill_happens = Some ()"
  "last_trade_reflects_the_most_recent_fill = Some ()"
  "trade_price_matches_last_trade_for_every_fill_in_a_sweep = Some ()"
  "stp_cancellation_produces_no_trade = Some ()"
  "account_open_order_count_and_notional_are_zero_for_an_unseen_account = Some ()"
  "account_open_order_count_and_notional_reflect_resting_orders = Some ()"
  "resting_order_snapshot_reflects_current_price_and_qty = Some ()"
  "resting_order_snapshot_is_none_for_unknown_or_wrong_account = Some ()"
  by code_simp+

end
