(* ===== verification/Engine_Tests.thy ===== *)
theory Engine_Tests
  imports Risk Engine_Spec Book_Tests
begin

text \<open>
  The unit tests of \<open>core/src/engine.rs\<close> and \<open>risk/src/lib.rs\<close>, transcribed like
  those of the book: each returns \<open>Some ()\<close> when every assertion of the test holds.
\<close>

section \<open>Commands of the tests\<close>

definition limit_order :: "account_id \<Rightarrow> order_id \<Rightarrow> side \<Rightarrow> price \<Rightarrow> qty \<Rightarrow> command" where
  "limit_order account order side price qty = NewOrder account order side price qty Limit Gtc 0"

definition market_order :: "account_id \<Rightarrow> order_id \<Rightarrow> side \<Rightarrow> qty \<Rightarrow> command" where
  "market_order account order side qty = NewOrder account order side 0 qty Market Ioc 0"

definition rejected :: "account_id \<Rightarrow> order_id \<Rightarrow> reject_reason \<Rightarrow> event option" where
  "rejected account order reason = Some (Rejected account order reason)"

section \<open>Engine\<close>

definition apply_new_order_rests_and_emits_accepted :: "unit option" where
  "apply_new_order_rests_and_emits_accepted = do {
     (engine, events) \<leftarrow> engine_apply engine_new (NewOrder 1 1 Buy 100 5 Limit Gtc 0);
     assert_that (events = [Accepted 1 1 5, BookUpdate (Some (100, 5)) None]);
     assert_invariants (engine_book engine);
     assert_that (best_bid (engine_book engine) = Some 100)
   }"

definition apply_cancel_removes_the_resting_order :: "unit option" where
  "apply_cancel_removes_the_resting_order = do {
     (engine, _) \<leftarrow> engine_apply engine_new (NewOrder 1 1 Buy 100 5 Limit Gtc 0);
     (engine, events) \<leftarrow> engine_apply engine (CancelOrder 1 1);
     assert_that (events = [Cancelled 1 1, BookUpdate None None]);
     assert_invariants (engine_book engine);
     assert_that (best_bid (engine_book engine) = None)
   }"

definition book_update_is_not_emitted_when_the_touch_is_unchanged :: "unit option" where
  "book_update_is_not_emitted_when_the_touch_is_unchanged = do {
     (engine, _) \<leftarrow> engine_apply engine_new (NewOrder 1 1 Buy 100 5 Limit Gtc 0);
     (engine, events) \<leftarrow> engine_apply engine (NewOrder 2 2 Buy 90 3 Limit Gtc 0);
     assert_that (events = [Accepted 2 2 3]);
     assert_invariants (engine_book engine)
   }"

definition book_update_reflects_qty_change_at_the_touch_from_a_partial_fill :: "unit option" where
  "book_update_reflects_qty_change_at_the_touch_from_a_partial_fill = do {
     (engine, _) \<leftarrow> engine_apply engine_new (NewOrder 1 1 Sell 100 10 Limit Gtc 0);
     (engine, events) \<leftarrow> engine_apply engine (NewOrder 2 2 Buy 100 4 Limit Gtc 0);
     assert_that (last_event events = Some (BookUpdate None (Some (100, 6))));
     assert_invariants (engine_book engine)
   }"

definition apply_kill_switch_is_inert_in_engine :: "unit option" where
  "apply_kill_switch_is_inert_in_engine = do {
     (engine, events) \<leftarrow> engine_apply engine_new (KillSwitch True);
     assert_that (events = []);
     assert_invariants (engine_book engine)
   }"

definition apply_snapshot_on_an_empty_book_emits_only_the_summary_trailer :: "unit option" where
  "apply_snapshot_on_an_empty_book_emits_only_the_summary_trailer = do {
     (engine, events) \<leftarrow> engine_apply engine_new Snapshot;
     assert_that (events = [SnapshotSummary None None None 0 0]);
     assert_invariants (engine_book engine)
   }"

definition apply_snapshot_reflects_resting_state_and_never_emits_book_update :: "unit option" where
  "apply_snapshot_reflects_resting_state_and_never_emits_book_update = do {
     (engine, _) \<leftarrow> engine_apply engine_new (NewOrder 1 1 Buy 100 5 Limit Gtc 0);
     (engine, events) \<leftarrow> engine_apply engine Snapshot;
     assert_that (events =
       [SnapshotLevel Buy 100 5 1, SnapshotAccount 1 1 500,
        SnapshotSummary (Some (100, 5)) None None 1 1]);
     assert_invariants (engine_book engine)
   }"

lemma engine_tests:
  "apply_new_order_rests_and_emits_accepted = Some ()"
  "apply_cancel_removes_the_resting_order = Some ()"
  "book_update_is_not_emitted_when_the_touch_is_unchanged = Some ()"
  "book_update_reflects_qty_change_at_the_touch_from_a_partial_fill = Some ()"
  "apply_kill_switch_is_inert_in_engine = Some ()"
  "apply_snapshot_on_an_empty_book_emits_only_the_summary_trailer = Some ()"
  "apply_snapshot_reflects_resting_state_and_never_emits_book_update = Some ()"
  by code_simp+

section \<open>Risk: the kill switch\<close>

definition default_risk :: risk_state where
  "default_risk = risk_state_new risk_config_default"

definition kill_switch_rejects_new_order_entry :: "unit option" where
  "kill_switch_rejects_new_order_entry = do {
     let book = book_new;
     let (risk, _) = pre_apply_check default_risk (KillSwitch True) book;
     let cmd = limit_order 1 1 Buy 100 5;
     assert_that (snd (pre_apply_check risk cmd book) = rejected 1 1 KillSwitchActive)
   }"

definition kill_switch_rejects_a_command_processed_after_it_fires_even_if_queued_earlier :: "unit option" where
  "kill_switch_rejects_a_command_processed_after_it_fires_even_if_queued_earlier = do {
     let book = book_new;
     let (risk, switch_result) = pre_apply_check default_risk (KillSwitch True) book;
     assert_that (switch_result = None);
     let order_a = limit_order 1 1 Buy 100 5;
     assert_that (snd (pre_apply_check risk order_a book) = rejected 1 1 KillSwitchActive)
   }"

definition kill_switch_allows_cancel_and_mass_cancel_during_drain :: "unit option" where
  "kill_switch_allows_cancel_and_mass_cancel_during_drain = do {
     let book = book_new;
     let (risk, _) = pre_apply_check default_risk (KillSwitch True) book;
     let (risk, r) = pre_apply_check risk (CancelOrder 1 1) book;
     assert_that (r = None);
     let (risk, r) = pre_apply_check risk (MassCancel 1) book;
     assert_that (r = None)
   }"

definition kill_switch_allows_cancel_replace_that_only_decreases_quantity :: "unit option" where
  "kill_switch_allows_cancel_replace_that_only_decreases_quantity = do {
     (book, _) \<leftarrow> submit_gtc book_new 1 1 Sell 100 5;
     let (risk, _) = pre_apply_check default_risk (KillSwitch True) book;
     let (risk, r) = pre_apply_check risk (CancelReplace 1 1 100 2) book;
     assert_that (r = None);
     let (risk, r) = pre_apply_check risk (CancelReplace 1 1 100 5) book;
     assert_that (r = None)
   }"

definition kill_switch_blocks_cancel_replace_that_increases_quantity_or_reprices :: "unit option" where
  "kill_switch_blocks_cancel_replace_that_increases_quantity_or_reprices = do {
     (book, _) \<leftarrow> submit_gtc book_new 1 1 Sell 100 5;
     let (risk, _) = pre_apply_check default_risk (KillSwitch True) book;
     let (risk, r) = pre_apply_check risk (CancelReplace 1 1 100 6) book;
     assert_that (r = rejected 1 1 KillSwitchActive);
     let (risk, r) = pre_apply_check risk (CancelReplace 1 1 101 5) book;
     assert_that (r = rejected 1 1 KillSwitchActive)
   }"

definition kill_switch_cancel_replace_for_an_order_that_does_not_exist_is_not_blocked_here :: "unit option" where
  "kill_switch_cancel_replace_for_an_order_that_does_not_exist_is_not_blocked_here = do {
     let book = book_new;
     let (risk, _) = pre_apply_check default_risk (KillSwitch True) book;
     assert_that (snd (pre_apply_check risk (CancelReplace 1 1 200 10) book) = None)
   }"

definition kill_switch_disengaging_allows_new_order_entry_again :: "unit option" where
  "kill_switch_disengaging_allows_new_order_entry_again = do {
     let book = book_new;
     let (risk, _) = pre_apply_check default_risk (KillSwitch True) book;
     let (risk, _) = pre_apply_check risk (KillSwitch False) book;
     assert_that (snd (pre_apply_check risk (limit_order 1 1 Buy 100 5) book) = None)
   }"

lemma kill_switch_tests:
  "kill_switch_rejects_new_order_entry = Some ()"
  "kill_switch_rejects_a_command_processed_after_it_fires_even_if_queued_earlier = Some ()"
  "kill_switch_allows_cancel_and_mass_cancel_during_drain = Some ()"
  "kill_switch_allows_cancel_replace_that_only_decreases_quantity = Some ()"
  "kill_switch_blocks_cancel_replace_that_increases_quantity_or_reprices = Some ()"
  "kill_switch_cancel_replace_for_an_order_that_does_not_exist_is_not_blocked_here = Some ()"
  "kill_switch_disengaging_allows_new_order_entry_again = Some ()"
  by code_simp+

section \<open>Risk: open orders and notional\<close>

text \<open>The \<open>for\<close> loop that rests one order per price from 1000 upwards.\<close>

fun rest_asks :: "nat list \<Rightarrow> book \<Rightarrow> book option" where
  "rest_asks [] book = Some book"
| "rest_asks (i # is) book = do {
     (book, _) \<leftarrow> submit_gtc book 1 (of_nat i) Sell (1000 + of_nat i) 1;
     rest_asks is book
   }"

definition max_open_orders_breach_at_exactly_the_cap_boundary :: "unit option" where
  "max_open_orders_breach_at_exactly_the_cap_boundary = do {
     let risk = default_risk;
     book \<leftarrow> rest_asks [0..<49] book_new;
     assert_that (account_open_order_count book 1 = 49);
     let order_50 = limit_order 1 49 Sell 1049 1;
     let (risk, r) = pre_apply_check risk order_50 book;
     assert_that (r = None);
     (book, _) \<leftarrow> submit_gtc book 1 49 Sell 1049 1;
     assert_that (account_open_order_count book 1 = 50);
     let order_51 = limit_order 1 50 Sell 1050 1;
     assert_that (snd (pre_apply_check risk order_51 book) = rejected 1 50 MaxOpenOrders)
   }"

definition max_open_orders_does_not_apply_to_order_types_that_never_rest :: "unit option" where
  "max_open_orders_does_not_apply_to_order_types_that_never_rest = do {
     let risk = default_risk;
     book \<leftarrow> rest_asks [0..<50] book_new;
     assert_that (account_open_order_count book 1 = 50);
     let ioc = NewOrder 1 999 Buy 1000 1 Limit Ioc 0;
     assert_that (snd (pre_apply_check risk ioc book) = None)
   }"

definition max_notional_breach :: "unit option" where
  "max_notional_breach = do {
     let book = book_new;
     let cmd = limit_order 1 1 Buy 100000 1001;
     assert_that (snd (pre_apply_check default_risk cmd book) = rejected 1 1 MaxNotional)
   }"

definition notional_is_gross_both_sides_summed :: "unit option" where
  "notional_is_gross_both_sides_summed = do {
     (book, _) \<leftarrow> submit_gtc book_new 1 1 Buy 100000 500;
     (book, _) \<leftarrow> submit_gtc book 1 2 Sell 200000 250;
     assert_that (account_notional book 1 = 100000000);
     let cmd = limit_order 1 3 Buy 150000 1;
     assert_that (snd (pre_apply_check default_risk cmd book) = rejected 1 3 MaxNotional)
   }"

definition notional_arithmetic_near_u64_max_does_not_wrap :: "unit option" where
  "notional_arithmetic_near_u64_max_does_not_wrap = do {
     let book = book_new;
     let cmd = limit_order 1 1 Buy 5000000000 5000000000;
     assert_that (snd (pre_apply_check default_risk cmd book) = rejected 1 1 MaxNotional)
   }"

definition market_order_notional_uses_reference_price_and_breaches_cap_against_thin_liquidity :: "unit option" where
  "market_order_notional_uses_reference_price_and_breaches_cap_against_thin_liquidity = do {
     (book, _) \<leftarrow> submit_gtc book_new 2 1 Sell 1000000 1000;
     let cmd = market_order 1 1 Buy 1000;
     assert_that (snd (pre_apply_check default_risk cmd book) = rejected 1 1 MaxNotional)
   }"

definition market_order_with_depth_only_on_swept_side_fills_normally_not_rejected :: "unit option" where
  "market_order_with_depth_only_on_swept_side_fills_normally_not_rejected = do {
     (book, _) \<leftarrow> submit_gtc book_new 2 1 Sell 100 1000;
     let cmd = market_order 1 1 Buy 5;
     assert_that (snd (pre_apply_check default_risk cmd book) = None)
   }"

definition market_order_rejected_not_fully_fillable_when_no_depth_and_no_trade :: "unit option" where
  "market_order_rejected_not_fully_fillable_when_no_depth_and_no_trade = do {
     let book = book_new;
     let cmd = market_order 1 1 Buy 5;
     assert_that (snd (pre_apply_check default_risk cmd book) = rejected 1 1 NotFullyFillable)
   }"

definition ask_at :: "nat \<Rightarrow> rorder" where
  "ask_at i = order_for 1 (of_nat i) (1000 + of_nat i) 1"

definition asks_upto :: "nat \<Rightarrow> abook" where
  "asks_upto k = \<lparr>a_orders = (\<lambda>_. [])(Sell := map ask_at [0..<k]), a_last = None\<rparr>"

lemma ask_nat:
  assumes "i \<le> 50"
  shows "unat (of_nat i :: u64) = i" and "unat (1000 + of_nat i :: u64) = 1000 + i"
proof -
  show i: "unat (of_nat i :: u64) = i" using assms by (simp add: unsigned_of_nat take_bit_nat_eq_self)
  then have "unat (1000 :: u64) + unat (of_nat i :: u64) < 2 ^ LENGTH(64)" using assms by simp
  then show "unat (1000 + of_nat i :: u64) = 1000 + i" using i by (simp add: unat_add_lem [THEN iffD1])
qed

lemma ask_at_fields: "r_account (ask_at i) = 1" "rkey (ask_at i) = (1, of_nat i)"
    "r_price (ask_at i) = 1000 + of_nat i" "r_qty (ask_at i) = 1"
  by (simp_all add: ask_at_def order_for_def rkey_def)

lemma rest_ask:
  assumes "k < 50"
  shows "a_submit_gtc (asks_upto k) 1 (of_nat k) Sell (1000 + of_nat k) 1 =
    (asks_upto (Suc k), [Accepted 1 (of_nat k) 1])"
proof -
  have new: "\<not> a_present (asks_upto k) (1, of_nat k)"
  proof
    assume "a_present (asks_upto k) (1, of_nat k)"
    then obtain i where "i < k" "(of_nat i :: u64) = of_nat k"
      unfolding a_present_side [of _ _ Buy] by (auto simp: asks_upto_def ask_at_fields)
    then show False using assms ask_nat(1) [of i] ask_nat(1) [of k] by simp
  qed
  have behind: "ahead Sell (r_price r) (1000 + of_nat k)" if "r \<in> set (a_orders (asks_upto k) Sell)" for r
    using that assms by (auto simp: asks_upto_def ask_at_fields word_le_nat_alt ask_nat(2))
  have "a_submit_gtc (asks_upto k) 1 (of_nat k) Sell (1000 + of_nat k) 1 =
      ((asks_upto k)\<lparr>a_orders := (a_orders (asks_upto k))(Sell := a_orders (asks_upto k) Sell @ [ask_at k])\<rparr>,
       [Accepted 1 (of_nat k) 1])"
    unfolding ask_at_def by (rule a_submit_behind [OF new _ behind]) (simp_all add: asks_upto_def)
  then show ?thesis by (simp add: asks_upto_def)
qed

lemma rest_asks_snoc: "rest_asks (is @ [i]) book = Option.bind (rest_asks is book) (rest_asks [i])"
  by (induction "is" arbitrary: book) (auto split: Option.bind_split)

lemma rest_asks_run:
  "k \<le> 50 \<Longrightarrow> \<exists>b. rest_asks [0..<k] book_new = Some b \<and> book_inv b \<and> slot_count b \<le> k \<and> abs_book b = asks_upto k"
proof (induction k)
  case 0
  have "resting book_new = (\<lambda>_. [])(Sell := [])" by (rule ext) simp
  moreover have "slot_count book_new = 0" "book_last_trade book_new = None"
    by (simp_all add: book_new_def arena_new_def)
  ultimately show ?case by (simp add: abs_book_def asks_upto_def)
next
  case (Suc k)
  then obtain b where b: "rest_asks [0..<k] book_new = Some b" "book_inv b" "slot_count b \<le> k"
    "abs_book b = asks_upto k" by auto
  have "book_room b" using b(3) Suc.prems by (intro book_room_slots) simp
  from submit_gtc_refines [OF b(2) this, of 1 "of_nat k" Sell "1000 + of_nat k" 1]
  obtain b' where "submit_gtc b 1 (of_nat k) Sell (1000 + of_nat k) 1 = Some (b', [Accepted 1 (of_nat k) 1])"
    "book_inv b'" "abs_book b' = asks_upto (Suc k)" "slot_count b' \<le> Suc (slot_count b)"
    using rest_ask [of k] Suc.prems by (auto simp: refines_def b(4))
  then show ?case using b by (simp add: rest_asks_snoc)
qed

lemma asks_queries:
  assumes inv: "book_inv b" and abs: "abs_book b = asks_upto k"
  shows "account_open_order_count b 1 = k" and "account_notional b 1 = notional_sum (map ask_at [0..<k])"
    and "book_last_trade b = None" and "best_bid b = None"
proof -
  have r: "resting b = (\<lambda>_. [])(Sell := map ask_at [0..<k])" and l: "book_last_trade b = None"
    using abs by (simp_all add: abs_book_def asks_upto_def)
  have "orders_of b 1 = map ask_at [0..<k]"
    by (simp add: orders_of_def r ask_at_fields filter_id_conv)
  then show "account_open_order_count b 1 = k" "account_notional b 1 = notional_sum (map ask_at [0..<k])"
    using account_totals [OF inv, of 1] by simp_all
  show "book_last_trade b = None" by (rule l)
  show "best_bid b = None" using best_prices(1) inv by (simp add: r book_inv_def)
qed

lemma asks_notional: "notional_sum (map ask_at [0..<49]) = 50176" "notional_sum (map ask_at [0..<50]) = 51225"
  by code_simp+

lemma max_open_orders_tests:
  "max_open_orders_breach_at_exactly_the_cap_boundary = Some ()"
  "max_open_orders_does_not_apply_to_order_types_that_never_rest = Some ()"
proof -
  obtain b where b: "rest_asks [0..<49] book_new = Some b" "book_inv b" "slot_count b \<le> 49" "abs_book b = asks_upto 49"
    using rest_asks_run [of 49] by auto
  obtain c where c: "rest_asks [0..<50] book_new = Some c" "book_inv c" "abs_book c = asks_upto 50"
    using rest_asks_run [of 50] by auto
  have "rest_asks ([0..<49] @ [49]) book_new = Some c" using c(1) by (simp add: upt_Suc_append [symmetric])
  then obtain out where step: "submit_gtc b 1 49 Sell 1049 1 = Some (c, out)"
    unfolding rest_asks_snoc b(1) by (auto simp: bind_eq_Some_iff)
  note qb = asks_queries [OF b(2,4)] and qc = asks_queries [OF c(2,3)]
  note defs = limit_order_def default_risk_def risk_state_new_def risk_config_default_def pre_apply_check_def
    new_order_check_def price_band_reference_def can_rest_def rejected_def notional_of_def
    MAX_OPEN_ORDERS_def MAX_NOTIONAL_TICKS_def asks_notional
  show "max_open_orders_breach_at_exactly_the_cap_boundary = Some ()"
    unfolding max_open_orders_breach_at_exactly_the_cap_boundary_def Let_def b(1)
    by (simp add: step qb qc defs)
  show "max_open_orders_does_not_apply_to_order_types_that_never_rest = Some ()"
    unfolding max_open_orders_does_not_apply_to_order_types_that_never_rest_def Let_def c(1)
    by (simp add: qc defs)
qed

lemma limit_tests:
  "max_notional_breach = Some ()"
  "notional_is_gross_both_sides_summed = Some ()"
  "notional_arithmetic_near_u64_max_does_not_wrap = Some ()"
  "market_order_notional_uses_reference_price_and_breaches_cap_against_thin_liquidity = Some ()"
  "market_order_with_depth_only_on_swept_side_fills_normally_not_rejected = Some ()"
  "market_order_rejected_not_fully_fillable_when_no_depth_and_no_trade = Some ()"
  by code_simp+

section \<open>Risk: the price band\<close>

definition price_band_rejects_above_and_below :: "unit option" where
  "price_band_rejects_above_and_below = do {
     let risk = default_risk;
     (book, _) \<leftarrow> submit_gtc book_new 2 1 Buy 99 1;
     (book, _) \<leftarrow> submit_gtc book 2 2 Sell 101 1;
     let (risk, r) = pre_apply_check risk (limit_order 1 10 Buy 111 1) book;
     assert_that (r = rejected 1 10 PriceBandViolation);
     let (risk, r) = pre_apply_check risk (limit_order 1 11 Sell 89 1) book;
     assert_that (r = rejected 1 11 PriceBandViolation);
     let (risk, r) = pre_apply_check risk (limit_order 1 12 Sell 110 1) book;
     assert_that (r = None);
     let (risk, r) = pre_apply_check risk (limit_order 1 13 Buy 90 1) book;
     assert_that (r = None)
   }"

definition price_band_skipped_on_an_empty_book :: "unit option" where
  "price_band_skipped_on_an_empty_book = do {
     let book = book_new;
     let cmd = limit_order 1 1 Buy 1000000 1;
     assert_that (snd (pre_apply_check default_risk cmd book) = None)
   }"

definition price_band_skipped_on_a_one_sided_book :: "unit option" where
  "price_band_skipped_on_a_one_sided_book = do {
     (book, _) \<leftarrow> submit_gtc book_new 2 1 Buy 100 1;
     let cmd = limit_order 1 1 Buy 1000000 1;
     assert_that (snd (pre_apply_check default_risk cmd book) = None)
   }"

definition price_band_prefers_last_trade_over_mid_once_a_trade_has_occurred :: "unit option" where
  "price_band_prefers_last_trade_over_mid_once_a_trade_has_occurred = do {
     (book, _) \<leftarrow> submit_gtc book_new 2 1 Sell 100 5;
     (book, _) \<leftarrow> submit_gtc book 3 2 Buy 100 5;
     assert_that (book_last_trade book = Some 100);
     (book, _) \<leftarrow> submit_gtc book 2 3 Buy 500 1;
     (book, _) \<leftarrow> submit_gtc book 2 4 Sell 700 1;
     let cmd = limit_order 1 10 Buy 109 1;
     assert_that (snd (pre_apply_check default_risk cmd book) = None)
   }"

definition price_band_does_not_apply_to_market_orders :: "unit option" where
  "price_band_does_not_apply_to_market_orders = do {
     (book, _) \<leftarrow> submit_gtc book_new 2 1 Buy 99 1;
     (book, _) \<leftarrow> submit_gtc book 2 2 Sell 101 1;
     let cmd = market_order 1 1 Buy 1;
     assert_that (snd (pre_apply_check default_risk cmd book) = None)
   }"

lemma price_band_tests:
  "price_band_rejects_above_and_below = Some ()"
  "price_band_skipped_on_an_empty_book = Some ()"
  "price_band_skipped_on_a_one_sided_book = Some ()"
  "price_band_prefers_last_trade_over_mid_once_a_trade_has_occurred = Some ()"
  "price_band_does_not_apply_to_market_orders = Some ()"
  by code_simp+

end
