(* ===== verification/Wire_Tests.thy ===== *)
theory Wire_Tests
  imports Framing Matching_Thread Engine_Tests
begin

text \<open>
  The unit tests of the wire crate (\<open>inbound.rs\<close>, \<open>outbound.rs\<close>,
  \<open>framer.rs\<close>) and of the gateway's matching thread (\<open>matching.rs\<close>), transcribed:
  each returns \<open>Some ()\<close> when every assertion of the test holds. \<open>[0u8; MAX_MESSAGE_LEN]\<close>
  is a list of zero bytes and \<open>&buf[..len]\<close> a prefix of it.
\<close>

definition zero_buf :: bytes where
  "zero_buf = replicate MAX_MESSAGE_LEN 0"

section \<open>inbound.rs\<close>

definition test_command_roundtrip :: "command \<Rightarrow> unit option" where
  "test_command_roundtrip cmd = do {
     (buf, len) \<leftarrow> encode_command cmd zero_buf;
     decoded \<leftarrow> decode_command (take len buf);
     assert_that (decoded = Inr cmd)
   }"

definition new_order_round_trips :: "unit option" where
  "new_order_round_trips = test_command_roundtrip (NewOrder 1 2 Buy 100 5 Limit Gtc 123456)"

definition new_order_market_round_trips_with_unused_price :: "unit option" where
  "new_order_market_round_trips_with_unused_price = test_command_roundtrip (NewOrder 1 2 Sell 0 5 Market Ioc 0)"

definition cancel_order_round_trips :: "unit option" where
  "cancel_order_round_trips = test_command_roundtrip (CancelOrder 7 9)"

definition cancel_replace_round_trips :: "unit option" where
  "cancel_replace_round_trips = test_command_roundtrip (CancelReplace 7 9 150 3)"

definition mass_cancel_round_trips :: "unit option" where
  "mass_cancel_round_trips = test_command_roundtrip (MassCancel 42)"

definition kill_switch_round_trips_both_states :: "unit option" where
  "kill_switch_round_trips_both_states = do {
     test_command_roundtrip (KillSwitch True);
     test_command_roundtrip (KillSwitch False)
   }"

definition snapshot_round_trips :: "unit option" where
  "snapshot_round_trips = test_command_roundtrip Snapshot"

definition truncated_command_is_rejected :: "unit option" where
  "truncated_command_is_rejected = do {
     (buf, len) \<leftarrow> encode_command (CancelOrder 1 2) zero_buf;
     result \<leftarrow> decode_command (take (len - 1) buf);
     assert_that (result = Inl MalformedMessage)
   }"

definition empty_frame_is_rejected :: "unit option" where
  "empty_frame_is_rejected = assert_that (decode_command [] = Some (Inl MalformedMessage))"

definition unknown_command_tag_is_rejected :: "unit option" where
  "unknown_command_tag_is_rejected =
     assert_that (decode_command (replicate 20 255) = Some (Inl UnknownMessageType))"

definition out_of_range_side_is_rejected :: "unit option" where
  "out_of_range_side_is_rejected = do {
     (buf, _) \<leftarrow> encode_command (NewOrder 1 2 Buy 100 5 Limit Gtc 0) zero_buf;
     let buf = buf[17 := 200];
     assert_that (decode_command (take NEW_ORDER_LEN buf) = Some (Inl MalformedMessage))
   }"

definition out_of_range_tif_is_rejected :: "unit option" where
  "out_of_range_tif_is_rejected = do {
     (buf, _) \<leftarrow> encode_command (NewOrder 1 2 Buy 100 5 Limit Gtc 0) zero_buf;
     let buf = buf[35 := 200];
     assert_that (decode_command (take NEW_ORDER_LEN buf) = Some (Inl MalformedMessage))
   }"

definition zero_qty_new_order_is_rejected :: "unit option" where
  "zero_qty_new_order_is_rejected = do {
     (buf, _) \<leftarrow> encode_command (NewOrder 1 2 Buy 100 0 Limit Gtc 0) zero_buf;
     assert_that (decode_command (take NEW_ORDER_LEN buf) = Some (Inl ZeroQuantity))
   }"

definition zero_qty_cancel_replace_is_rejected :: "unit option" where
  "zero_qty_cancel_replace_is_rejected = do {
     (buf, _) \<leftarrow> encode_command (CancelReplace 1 2 100 0) zero_buf;
     assert_that (decode_command (take CANCEL_REPLACE_LEN buf) = Some (Inl ZeroQuantity))
   }"

definition zero_price_limit_new_order_is_rejected :: "unit option" where
  "zero_price_limit_new_order_is_rejected = do {
     (buf, _) \<leftarrow> encode_command (NewOrder 1 2 Buy 0 5 Limit Gtc 0) zero_buf;
     assert_that (decode_command (take NEW_ORDER_LEN buf) = Some (Inl ZeroPrice))
   }"

lemma inbound_tests:
  "new_order_round_trips = Some ()"
  "new_order_market_round_trips_with_unused_price = Some ()"
  "cancel_order_round_trips = Some ()"
  "cancel_replace_round_trips = Some ()"
  "mass_cancel_round_trips = Some ()"
  "kill_switch_round_trips_both_states = Some ()"
  "snapshot_round_trips = Some ()"
  "truncated_command_is_rejected = Some ()"
  "empty_frame_is_rejected = Some ()"
  "unknown_command_tag_is_rejected = Some ()"
  "out_of_range_side_is_rejected = Some ()"
  "out_of_range_tif_is_rejected = Some ()"
  "zero_qty_new_order_is_rejected = Some ()"
  "zero_qty_cancel_replace_is_rejected = Some ()"
  "zero_price_limit_new_order_is_rejected = Some ()"
  by code_simp+

section \<open>outbound.rs\<close>

definition test_event_roundtrip :: "u64 \<Rightarrow> u64 option \<Rightarrow> event \<Rightarrow> unit option" where
  "test_event_roundtrip seq engine_seq event = do {
     (buf, len) \<leftarrow> encode_event seq engine_seq event zero_buf;
     decoded \<leftarrow> decode_event (take len buf);
     assert_that (decoded = Inr (seq, engine_seq, event))
   }"

definition accepted_round_trips :: "unit option" where
  "accepted_round_trips = test_event_roundtrip 1 (Some 100) (Accepted 1 2 5)"

definition rejected_round_trips :: "unit option" where
  "rejected_round_trips = do {
     test_event_roundtrip 2 (Some 101) (Rejected 1 2 PriceBandViolation);
     test_event_roundtrip 2 (Some 102) (Rejected 1 2 ZeroPrice)
   }"

definition filled_round_trips :: "unit option" where
  "filled_round_trips = do {
     test_event_roundtrip 3 (Some 103) (Filled 1 2 Sell 100 4 1 State_PartiallyFilled);
     test_event_roundtrip 3 (Some 104) (Filled 1 2 Sell 100 4 0 State_Filled)
   }"

definition cancelled_round_trips :: "unit option" where
  "cancelled_round_trips = test_event_roundtrip 4 (Some 105) (Cancelled 1 2)"

definition replaced_round_trips_both_priority_states :: "unit option" where
  "replaced_round_trips_both_priority_states = do {
     test_event_roundtrip 5 (Some 106) (Replaced 1 2 3 True);
     test_event_roundtrip 6 (Some 107) (Replaced 1 2 3 False)
   }"

definition trade_round_trips :: "unit option" where
  "trade_round_trips = test_event_roundtrip 7 None (Trade 100 4 Buy)"

definition book_update_round_trips_both_sides_present :: "unit option" where
  "book_update_round_trips_both_sides_present =
     test_event_roundtrip 8 None (BookUpdate (Some (99, 10)) (Some (101, 7)))"

definition book_update_round_trips_empty_sides :: "unit option" where
  "book_update_round_trips_empty_sides = test_event_roundtrip 9 None (BookUpdate None None)"

definition snapshot_level_round_trips :: "unit option" where
  "snapshot_level_round_trips = test_event_roundtrip 10 None (SnapshotLevel Buy 100 5 3)"

definition snapshot_account_round_trips :: "unit option" where
  "snapshot_account_round_trips =
     test_event_roundtrip 11 None (SnapshotAccount 1 2 340282366920938463463374607431768211455)"

definition snapshot_summary_round_trips :: "unit option" where
  "snapshot_summary_round_trips = do {
     test_event_roundtrip 12 None (SnapshotSummary (Some (99, 10)) (Some (101, 7)) (Some 100) 4 2);
     test_event_roundtrip 13 None (SnapshotSummary None None None 0 0)
   }"

definition truncated_event_is_rejected :: "unit option" where
  "truncated_event_is_rejected = do {
     (buf, len) \<leftarrow> encode_event 1 (Some 1) (Cancelled 1 2) zero_buf;
     result \<leftarrow> decode_event (take (len - 1) buf);
     assert_that (result = Inl MalformedMessage)
   }"

definition unknown_event_tag_is_rejected :: "unit option" where
  "unknown_event_tag_is_rejected =
     assert_that (decode_event (replicate 20 255) = Some (Inl UnknownMessageType))"

definition out_of_range_reason_is_rejected :: "unit option" where
  "out_of_range_reason_is_rejected = do {
     (buf, _) \<leftarrow> encode_event 1 (Some 1) (Rejected 1 2 ZeroQuantity) zero_buf;
     let buf = buf[33 := 200];
     assert_that (decode_event (take REJECTED_LEN buf) = Some (Inl MalformedMessage))
   }"

definition out_of_range_fill_state_is_rejected :: "unit option" where
  "out_of_range_fill_state_is_rejected = do {
     (buf, _) \<leftarrow> encode_event 1 (Some 1) (Filled 1 2 Buy 100 1 0 State_Filled) zero_buf;
     let buf = buf[58 := 200];
     assert_that (decode_event (take FILLED_LEN buf) = Some (Inl MalformedMessage))
   }"

lemma outbound_tests:
  "accepted_round_trips = Some ()"
  "rejected_round_trips = Some ()"
  "filled_round_trips = Some ()"
  "cancelled_round_trips = Some ()"
  "replaced_round_trips_both_priority_states = Some ()"
  "trade_round_trips = Some ()"
  "book_update_round_trips_both_sides_present = Some ()"
  "book_update_round_trips_empty_sides = Some ()"
  "snapshot_level_round_trips = Some ()"
  "snapshot_account_round_trips = Some ()"
  "snapshot_summary_round_trips = Some ()"
  "truncated_event_is_rejected = Some ()"
  "unknown_event_tag_is_rejected = Some ()"
  "out_of_range_reason_is_rejected = Some ()"
  "out_of_range_fill_state_is_rejected = Some ()"
  by code_simp+

section \<open>framer.rs\<close>

text \<open>\<open>drain\<close> stands for \<open>framer.drain_frames(|f| extracted.push(f.to_vec())).unwrap()\<close>.\<close>

definition drain :: "framer \<Rightarrow> bytes list \<Rightarrow> (framer \<times> bytes list) option" where
  "drain framer extracted = do {
     let (framer, frames, result) = drain_frames framer;
     assert_that (result = Inr ());
     Some (framer, extracted @ frames)
   }"

definition cancel_order_bytes :: "u64 \<Rightarrow> bytes option" where
  "cancel_order_bytes order = do {
     (buf, len) \<leftarrow> encode_command (CancelOrder 1 order) zero_buf;
     Some (take len buf)
   }"

definition frame_split_across_two_reads :: "unit option" where
  "frame_split_across_two_reads = do {
     frame \<leftarrow> cancel_order_bytes 1;
     let mid = length frame div 2;
     (framer, extracted) \<leftarrow> drain (feed framer_new (take mid frame)) [];
     assert_that (extracted = []);
     assert_that (pending framer = mid);
     (framer, extracted) \<leftarrow> drain (feed framer (drop mid frame)) extracted;
     assert_that (extracted = [frame]);
     assert_that (pending framer = 0)
   }"

definition two_frames_in_one_read :: "unit option" where
  "two_frames_in_one_read = do {
     frame_a \<leftarrow> cancel_order_bytes 1;
     frame_b \<leftarrow> cancel_order_bytes 2;
     (framer, extracted) \<leftarrow> drain (feed framer_new (frame_a @ frame_b)) [];
     assert_that (extracted = [frame_a, frame_b]);
     assert_that (pending framer = 0)
   }"

definition trailing_partial_after_several_complete :: "unit option" where
  "trailing_partial_after_several_complete = do {
     frame_a \<leftarrow> cancel_order_bytes 1;
     frame_b \<leftarrow> cancel_order_bytes 2;
     frame_c \<leftarrow> cancel_order_bytes 3;
     (framer, extracted) \<leftarrow> drain (feed framer_new (frame_a @ frame_b @ frame_c @ take 3 frame_c)) [];
     assert_that (extracted = [frame_a, frame_b, frame_c]);
     assert_that (pending framer = 3);
     (framer, extracted) \<leftarrow> drain (feed framer (drop 3 frame_c)) [];
     assert_that (extracted = [frame_c]);
     assert_that (pending framer = 0)
   }"

definition unknown_tag_stops_framing_but_keeps_prior_frames :: "unit option" where
  "unknown_tag_stops_framing_but_keeps_prior_frames = do {
     frame_a \<leftarrow> cancel_order_bytes 1;
     let (framer, extracted, result) = drain_frames (feed framer_new (frame_a @ [255]));
     assert_that (result = Inl UnknownMessageType);
     assert_that (extracted = [frame_a])
   }"

definition empty_buffer_extracts_nothing :: "unit option" where
  "empty_buffer_extracts_nothing = do {
     (framer, extracted) \<leftarrow> drain framer_new [];
     assert_that (extracted = [])
   }"

lemma framer_tests:
  "frame_split_across_two_reads = Some ()"
  "two_frames_in_one_read = Some ()"
  "trailing_partial_after_several_complete = Some ()"
  "unknown_tag_stops_framing_but_keeps_prior_frames = Some ()"
  "empty_buffer_extracts_nothing = Some ()"
  by code_simp+

section \<open>The matching thread\<close>

text \<open>The tests drop the market-data receiver, so that every \<open>try_send\<close> to it fails, as on a
  channel of capacity 0. \<open>recv\<close> takes the next event returned; a test that waits for one that
  never comes fails.\<close>

definition send :: "mthread \<Rightarrow> conn_id \<Rightarrow> command \<Rightarrow> mthread option" where
  "send st conn cmd = matching_step 0 st (conn, cmd)"

definition recv :: "mthread \<Rightarrow> (mthread \<times> conn_id \<times> engine_seq \<times> event) option" where
  "recv st = (case mt_return st of [] \<Rightarrow> None | x # xs \<Rightarrow> Some (st\<lparr>mt_return := xs\<rparr>, x))"

definition spawn :: mthread where
  "spawn = mthread_init (risk_state_new risk_config_default) None"

definition fill_routes_maker_and_taker_events_to_their_own_connections :: "unit option" where
  "fill_routes_maker_and_taker_events_to_their_own_connections = do {
     let maker_conn = 1;
     let taker_conn = 2;
     st \<leftarrow> send spawn maker_conn (limit_order 1 1 Sell 100 5);
     (st, conn, _, event) \<leftarrow> recv st;
     assert_that (conn = maker_conn);
     assert_that (event = Accepted 1 1 5);
     st \<leftarrow> send st taker_conn (limit_order 2 1 Buy 100 5);
     (st, conn_a, _, event_a) \<leftarrow> recv st;
     (st, conn_b, _, event_b) \<leftarrow> recv st;
     (st, conn_c, _, event_c) \<leftarrow> recv st;
     assert_that (conn_a = taker_conn);
     assert_that (event_a = Filled 2 1 Buy 100 5 0 State_Filled);
     assert_that (conn_b = maker_conn);
     assert_that (event_b = Filled 1 1 Sell 100 5 0 State_Filled);
     assert_that (conn_c = taker_conn);
     assert_that (event_c = Accepted 2 1 0)
   }"

definition stp_cancellation_routes_to_the_cancelled_makers_own_connection :: "unit option" where
  "stp_cancellation_routes_to_the_cancelled_makers_own_connection = do {
     let resting_conn_id = 10;
     let aggressor_conn_id = 20;
     st \<leftarrow> send spawn resting_conn_id (limit_order 1 1 Sell 100 5);
     (st, conn, _, _) \<leftarrow> recv st;
     assert_that (conn = resting_conn_id);
     st \<leftarrow> send st aggressor_conn_id (limit_order 1 2 Buy 100 3);
     (st, conn_a, _, event_a) \<leftarrow> recv st;
     (st, conn_b, _, event_b) \<leftarrow> recv st;
     assert_that (conn_a = resting_conn_id);
     assert_that (event_a = Cancelled 1 1);
     assert_that (conn_b = aggressor_conn_id);
     assert_that (event_b = Accepted 1 2 3)
   }"

fun by_order :: "(conn_id \<times> event) list \<Rightarrow> (order_id, conn_id) hashmap \<Rightarrow> (order_id, conn_id) hashmap option" where
  "by_order [] m = Some m"
| "by_order ((conn, event) # xs) m =
     (case event of Cancelled _ order_id \<Rightarrow> by_order xs (hm_insert order_id conn m) | _ \<Rightarrow> None)"

definition mass_cancel_routes_each_order_to_its_own_originating_connection :: "unit option" where
  "mass_cancel_routes_each_order_to_its_own_originating_connection = do {
     let conn_a = 100;
     let conn_b = 200;
     let issuer_conn = 300;
     st \<leftarrow> send spawn conn_a (limit_order 5 1 Sell 100 1);
     (st, _) \<leftarrow> recv st;
     st \<leftarrow> send st conn_b (limit_order 5 2 Sell 101 1);
     (st, _) \<leftarrow> recv st;
     st \<leftarrow> send st issuer_conn (MassCancel 5);
     (st, first_conn, _, first_event) \<leftarrow> recv st;
     (st, second_conn, _, second_event) \<leftarrow> recv st;
     m \<leftarrow> by_order [(first_conn, first_event), (second_conn, second_event)] [];
     assert_that (hm_get m 1 = Some conn_a);
     assert_that (hm_get m 2 = Some conn_b);
     assert_that (\<not> list_ex (\<lambda>(_, c). c = issuer_conn) m)
   }"

lemma matching_thread_tests:
  "fill_routes_maker_and_taker_events_to_their_own_connections = Some ()"
  "stp_cancellation_routes_to_the_cancelled_makers_own_connection = Some ()"
  "mass_cancel_routes_each_order_to_its_own_originating_connection = Some ()"
  by code_simp+

end
