(* ===== verification/Gateway_Tests.thy ===== *)
theory Gateway_Tests
  imports Startup Risk_Props
begin

text \<open>
  The unit tests of the containers (\<open>level.rs\<close>, \<open>account.rs\<close>, \<open>arena.rs\<close>), of the
  market-data queue (\<open>queue.rs\<close>), of the configuration file (\<open>config.rs\<close>) and of the socket
  file (\<open>transport.rs\<close>), transcribed: each returns \<open>Some ()\<close> when every assertion of the test
  holds. Not transcribed are the two tests of \<open>transport.rs\<close> that move bytes through an accepted
  stream and the one of \<open>arena.rs\<close> that measures the memory layout of a node.
\<close>

section \<open>Containers\<close>

definition empty_level_is_empty :: "unit option" where
  "empty_level_is_empty = do {
     let level = level_default;
     assert_that (level_is_empty level);
     assert_that (level_count level = 0);
     assert_that (level_total_qty level = 0)
   }"

text \<open>Without the last assertion, on the capacity of the vector.\<close>

definition fresh_account_entry_is_empty :: "unit option" where
  "fresh_account_entry_is_empty = do {
     let entry = account_entry_default;
     assert_that (open_order_count entry = 0);
     assert_that (entry_notional entry = 0)
   }"

definition fresh_arena_is_empty :: "unit option" where
  "fresh_arena_is_empty = do {
     let arena = arena_new;
     assert_that (arena_is_empty arena);
     assert_that (arena_len arena = 0);
     assert_that (arena_get arena 0 = None)
   }"

lemma container_tests:
  "empty_level_is_empty = Some ()"
  "fresh_account_entry_is_empty = Some ()"
  "fresh_arena_is_empty = Some ()"
  by code_simp+

section \<open>The drop-oldest queue\<close>

definition trade :: "price \<Rightarrow> event" where
  "trade price = Trade price 1 Buy"

definition pop_returns_items_in_order_with_no_drops_under_capacity :: "unit option" where
  "pop_returns_items_in_order_with_no_drops_under_capacity = do {
     let queue = queue_push (trade 2) (queue_push (trade 1) (queue_new 4));
     (r, queue) \<leftarrow> queue_pop queue;
     assert_that (r = (trade 1, 0));
     (r, queue) \<leftarrow> queue_pop queue;
     assert_that (r = (trade 2, 0))
   }"

definition push_past_capacity_drops_the_oldest_and_counts_it :: "unit option" where
  "push_past_capacity_drops_the_oldest_and_counts_it = do {
     let queue = queue_push (trade 3) (queue_push (trade 2) (queue_push (trade 1) (queue_new 2)));
     (r, queue) \<leftarrow> queue_pop queue;
     assert_that (r = (trade 2, 1));
     (r, queue) \<leftarrow> queue_pop queue;
     assert_that (r = (trade 3, 0))
   }"

text \<open>The other thread waits on the empty queue until the push wakes it up.\<close>

definition pop_blocking_waits_for_a_push_from_another_thread :: "unit option" where
  "pop_blocking_waits_for_a_push_from_another_thread = do {
     let queue = queue_new 4;
     assert_that (queue_pop queue = None);
     ((event, dropped), queue) \<leftarrow> queue_pop (queue_push (trade 7) queue);
     assert_that (event = trade 7);
     assert_that (dropped = 0)
   }"

lemma queue_tests:
  "pop_returns_items_in_order_with_no_drops_under_capacity = Some ()"
  "push_past_capacity_drops_the_oldest_and_counts_it = Some ()"
  "pop_blocking_waits_for_a_push_from_another_thread = Some ()"
  by code_simp+

section \<open>The risk configuration\<close>

text \<open>\<open>RiskConfig::load\<close> of a path, and \<open>std::fs::write\<close>.\<close>

definition fs_empty :: fs where
  "fs_empty = \<lparr>fs_node = (\<lambda>_. None), fs_next = 0\<rparr>"

definition fs_write :: "string \<Rightarrow> bytes \<Rightarrow> fs \<Rightarrow> fs" where
  "fs_write path bs f = f\<lparr>fs_node := (fs_node f)(path \<mapsto> Regular bs)\<rparr>"

definition load_path :: "string \<Rightarrow> fs \<Rightarrow> risk_config" where
  "load_path path f = load_config (read_to_string path f)"

definition ascii :: "string \<Rightarrow> bytes" where
  "ascii s = map (\<lambda>c. of_nat (of_char c)) s"

definition missing_file_yields_the_spec_defaults :: "unit option" where
  "missing_file_yields_the_spec_defaults = do {
     let config = load_path ''/nonexistent/risk.toml'' fs_empty;
     assert_that (config = risk_config_default);
     assert_that (max_open_orders config = 50);
     assert_that (max_notional config = 100000000);
     assert_that (price_band_pct config = 10)
   }"

text \<open>\<open>risk.toml\<close> byte for byte; the section sign of its comment takes two bytes.\<close>

definition risk_toml :: bytes where
  "risk_toml = ascii ''# Default risk-control configuration (SPEC.md '' @ [194, 167] @ ascii ''5). Baked in so'' @ [10] @
     ascii ''# `docker compose up` needs no setup.'' @ [10, 10] @
     ascii ''max_open_orders = 50'' @ [10] @ ascii ''max_notional_ticks = 100_000_000'' @ [10] @
     ascii ''price_band_pct = 10'' @ [10]"

definition loads_the_repo_risk_toml :: "unit option" where
  "loads_the_repo_risk_toml = do {
     let path = ''risk.toml'';
     let config = load_path path (fs_write path risk_toml fs_empty);
     assert_that (config = risk_config_default)
   }"

definition parses_underscored_integers_and_ignores_comments_and_blank_lines :: "unit option" where
  "parses_underscored_integers_and_ignores_comments_and_blank_lines = do {
     let path = ''/tmp/risk-config-test.toml'';
     let f = fs_write path (ascii ''# comment'' @ [10, 10] @ ascii ''max_open_orders = 7'' @ [10] @
       ascii ''max_notional_ticks = 1_000_000'' @ [10] @ ascii ''price_band_pct = 5'' @ [10]) fs_empty;
     let config = load_path path f;
     assert_that (max_open_orders config = 7);
     assert_that (max_notional config = 1000000);
     assert_that (price_band_pct config = 5)
   }"

definition missing_keys_keep_their_individual_defaults :: "unit option" where
  "missing_keys_keep_their_individual_defaults = do {
     let path = ''/tmp/risk-config-partial-test.toml'';
     let config = load_path path (fs_write path (ascii ''max_open_orders = 3'' @ [10]) fs_empty);
     assert_that (max_open_orders config = 3);
     assert_that (max_notional config = MAX_NOTIONAL_TICKS);
     assert_that (price_band_pct config = PRICE_BAND_PCT)
   }"

lemma utf8_decode_ascii:
  "list_all (\<lambda>c. of_char c < (128 :: nat)) s \<Longrightarrow>
     utf8_decode (ascii s @ bs) = map_option (append (str_lit s)) (utf8_decode bs)"
proof (induction s)
  case Nil
  then show ?case by (simp add: ascii_def str_lit_def option.map_id0 [unfolded id_def])
next
  case (Cons c s)
  then have "unat (of_nat (of_char c) :: u8) = of_char c"
    by (simp add: unsigned_of_nat take_bit_nat_eq_self)
  then show ?case using Cons by (simp add: ascii_def str_lit_def option.map_comp comp_def)
qed

lemma utf8_decode_breaks:
  "utf8_decode (10 # bs) = map_option (Cons 10) (utf8_decode bs)"
  "utf8_decode (194 # 167 # bs) = map_option (Cons 167) (utf8_decode bs)"
  by (simp_all add: continuation_def split: Option.bind_split)

lemmas parse_config_defs = load_config_def str_lines.simps str_lit_def strip_cr_def load_line_def split_once_def
  str_trim_def is_whitespace_def parse_uint_def risk_config_default_def MAX_OPEN_ORDERS_def MAX_NOTIONAL_TICKS_def
  PRICE_BAND_PCT_def

lemma read_written: "read_to_string path (fs_write path bs f) = utf8_decode bs"
  by (simp add: read_to_string_def fs_write_def)

lemma config_tests:
  "missing_file_yields_the_spec_defaults = Some ()"
  "loads_the_repo_risk_toml = Some ()"
  "parses_underscored_integers_and_ignores_comments_and_blank_lines = Some ()"
  "missing_keys_keep_their_individual_defaults = Some ()"
proof -
  show "missing_file_yields_the_spec_defaults = Some ()"
    by (simp add: missing_file_yields_the_spec_defaults_def load_path_def read_to_string_def fs_empty_def
        load_config_def risk_config_default_def MAX_OPEN_ORDERS_def MAX_NOTIONAL_TICKS_def PRICE_BAND_PCT_def)
  show "loads_the_repo_risk_toml = Some ()"
    by (simp add: loads_the_repo_risk_toml_def load_path_def read_written risk_toml_def utf8_decode_ascii
        utf8_decode_breaks continuation_def shipped_config_is_default [simplified])
  show "parses_underscored_integers_and_ignores_comments_and_blank_lines = Some ()"
    by (simp add: parses_underscored_integers_and_ignores_comments_and_blank_lines_def load_path_def read_written
        utf8_decode_ascii utf8_decode_breaks Let_def) (simp add: parse_config_defs)
  show "missing_keys_keep_their_individual_defaults = Some ()"
    by (simp add: missing_keys_keep_their_individual_defaults_def load_path_def read_written
        utf8_decode_ascii utf8_decode_breaks Let_def) (simp add: parse_config_defs)
qed

section \<open>The socket file\<close>

text \<open>The path each test takes is fresh, and the process may create and remove it.\<close>

definition bind_creates_the_socket_file :: "string \<Rightarrow> unit option" where
  "bind_creates_the_socket_file path = do {
     let (transport, f) = uds_bind (\<lambda>_. True) path fs_empty;
     assert_that (\<not> isl transport);
     assert_that (path_exists path f)
   }"

definition bind_removes_a_stale_socket_file :: "string \<Rightarrow> unit option" where
  "bind_removes_a_stale_socket_file path = do {
     let f = fs_write path (ascii ''stale'') fs_empty;
     let (transport, f) = uds_bind (\<lambda>_. True) path f;
     assert_that (\<not> isl transport);
     assert_that (connects_to path f = Some (ut_listener (projr transport)))
   }"

definition drop_removes_the_socket_file :: "string \<Rightarrow> unit option" where
  "drop_removes_the_socket_file path = do {
     let (transport, f) = uds_bind (\<lambda>_. True) path fs_empty;
     assert_that (\<not> isl transport);
     assert_that (path_exists path f);
     let f = uds_drop (\<lambda>_. True) (projr transport) f;
     assert_that (\<not> path_exists path f)
   }"

lemmas socket_defs = uds_bind_def uds_drop_def remove_file_def listener_bind_def path_exists_def
  connects_to_def fs_write_def fs_empty_def

lemma transport_tests:
  "bind_creates_the_socket_file path = Some ()"
  "bind_removes_a_stale_socket_file path = Some ()"
  "drop_removes_the_socket_file path = Some ()"
  by (simp_all add: bind_creates_the_socket_file_def bind_removes_a_stale_socket_file_def
      drop_removes_the_socket_file_def socket_defs)

end
